(* ===== verification/Prelude.thy ===== *)
theory Prelude
  imports Main "HOL-Library.Word" "HOL-Library.List_Lexorder"
begin

unbundle bit_operations_syntax

text \<open>
  Shared vocabulary of the development: the machine types of the C++ sources, the
  collections of simplification rules that the component theories extend, and the
  generic facts on lists, lexicographic order and words that several components use.

  A \<^verbatim>\<open>std::string\<close>, a \<^verbatim>\<open>Slice\<close> and a \<^verbatim>\<open>char*\<close> buffer are all lists of bytes;
  \<^verbatim>\<open>uint32_t\<close> and \<^verbatim>\<open>uint64_t\<close> are words of that width, so every arithmetic
  operation on them wraps around as it does in C++.  The size of an in-memory container
  is a natural number.
\<close>

type_synonym byte = "8 word"
type_synonym u32 = "32 word"
type_synonym u64 = "64 word"
type_synonym bytes = "byte list"

named_theorems codec_simps \<open>lengths of encodings and decoding of what was encoded\<close>
named_theorems frame_simps \<open>fields an operation leaves alone\<close>

section \<open>Lists\<close>

text \<open>
  \<open>sub i n xs\<close> is the run of \<open>n\<close> bytes that starts at offset \<open>i\<close>: what
  \<^verbatim>\<open>std::string(data + i, n)\<close> copies.
\<close>

definition sub :: "nat \<Rightarrow> nat \<Rightarrow> 'a list \<Rightarrow> 'a list" where
  "sub i n xs = take n (drop i xs)"

lemma length_sub [simp]: "length (sub i n xs) = min n (length xs - i)"
  by (simp add: sub_def)

lemma sub_0 [simp]: "sub 0 n xs = take n xs"
  by (simp add: sub_def)

lemma sub_none [simp]: "sub i 0 xs = []"
  by (simp add: sub_def)

lemma sub_length_sub: "sub i (length (sub i n xs)) xs = sub i n xs"
  by (simp add: sub_def min_def)

lemma sub_append_skip: "length as = i \<Longrightarrow> sub (i + j) n (as @ xs) = sub j n xs"
  by (simp add: sub_def)

lemma sub_append_here: "length as = i \<Longrightarrow> sub i n (as @ xs) = take n xs"
  by (simp add: sub_def)

lemma sub_append_left: "i + n \<le> length as \<Longrightarrow> sub i n (as @ xs) = sub i n as"
  by (simp add: sub_def)

lemma sub_drop: "sub i n (drop j xs) = sub (i + j) n xs"
  by (simp add: sub_def add.commute)

lemma sub_take: "i + n \<le> m \<Longrightarrow> sub i n (take m xs) = sub i n xs"
  by (simp add: sub_def drop_take min_def)

lemma sub_sub: "i + n \<le> m \<Longrightarrow> sub i n (sub j m xs) = sub (i + j) n xs"
  by (simp add: sub_def drop_take min_def add.commute)

lemma drop_advance: "drop i xs = as @ bs \<Longrightarrow> drop (i + length as) xs = bs"
  by (metis add.commute append_eq_conv_conj drop_drop)

lemma sorted_wrt_dropWhile: "sorted_wrt R xs \<Longrightarrow> sorted_wrt R (dropWhile P xs)"
  by (induction xs) auto

lemma sorted_wrt_takeWhile: "sorted_wrt R xs \<Longrightarrow> sorted_wrt R (takeWhile P xs)"
  by (induction xs) (auto dest: set_takeWhileD)

lemma dropWhile_filter_sorted:
  assumes "sorted_wrt R xs" and "\<And>x y. R x y \<Longrightarrow> P y \<Longrightarrow> P x"
  shows "dropWhile P xs = filter (\<lambda>x. \<not> P x) xs"
  using assms(1)
proof (induction xs)
  case (Cons x xs)
  show ?case
  proof (cases "P x")
    case False
    then have "\<forall>y \<in> set xs. \<not> P y" using Cons.prems assms(2) by auto
    with False show ?thesis by (simp add: filter_id_conv)
  qed (use Cons in simp)
qed simp

section \<open>Order of byte strings\<close>

text \<open>
  Keys are ordered as \<^verbatim>\<open>memcmp\<close> and \<^verbatim>\<open>std::string::compare\<close> order them: bytes are
  unsigned and a proper prefix comes first.  This is the lexicographic order that
  \<open>List_Lexorder\<close> puts on \<^typ>\<open>bytes\<close>.
\<close>

lemma append_less_append [simp]: "(as @ xs < as @ ys) = (xs < (ys :: 'a::linorder list))"
  by (induction as) auto

lemma prefix_less: "ys \<noteq> [] \<Longrightarrow> as < as @ (ys :: 'a::linorder list)"
  by (induction as) (auto simp: neq_Nil_conv)

section \<open>Words\<close>

lemma unat_of_nat_small: "n < 2 ^ LENGTH('a) \<Longrightarrow> unat (of_nat n :: 'a::len word) = n"
  by (simp add: unat_of_nat take_bit_nat_eq_self)

lemma unat_of_nat32 [simp]: "n < 2 ^ 32 \<Longrightarrow> unat (of_nat n :: u32) = n"
  by (simp add: unat_of_nat_small)

lemma unat_of_nat64 [simp]: "n < 2 ^ 64 \<Longrightarrow> unat (of_nat n :: u64) = n"
  by (simp add: unat_of_nat_small)

lemma unat_lt32: "unat (x :: u32) < 2 ^ 32"
  using unsigned_less [of x, where 'a = nat] by simp

lemma unat_lt64: "unat (x :: u64) < 2 ^ 64"
  using unsigned_less [of x, where 'a = nat] by simp

lemma unat_ucast_32_64 [simp]: "unat (ucast (x :: u32) :: u64) = unat x"
  using unat_lt32 [of x] by (simp add: unsigned_ucast_eq take_bit_nat_eq_self)

end
