(* ===== verification/Status.thy ===== *)
theory Status
  imports Prelude
begin

text \<open>
  The result status of an operation (include/strata/status.h) and the options record
  (include/strata/options.h).  A status is its code and its message.  Messages carry the
  literal text of the source; the part of a message that only names a path or prints
  \<^verbatim>\<open>strerror(errno)\<close> is left out, since nothing in the code reads it.
\<close>

datatype Code = kOk | kNotFound | kCorruption | kNotSupported | kInvalidArgument | kIOError

datatype Status = Status (code: Code) (message: string)

definition OK :: Status where "OK = Status kOk ''''"
definition NotFound :: "string \<Rightarrow> Status" where "NotFound msg = Status kNotFound msg"
definition Corruption :: "string \<Rightarrow> Status" where "Corruption msg = Status kCorruption msg"
definition NotSupported :: "string \<Rightarrow> Status" where "NotSupported msg = Status kNotSupported msg"
definition InvalidArgument :: "string \<Rightarrow> Status" where
  "InvalidArgument msg = Status kInvalidArgument msg"
definition IOError :: "string \<Rightarrow> Status" where "IOError msg = Status kIOError msg"

definition ok :: "Status \<Rightarrow> bool" where "ok s \<longleftrightarrow> code s = kOk"
definition IsNotFound :: "Status \<Rightarrow> bool" where "IsNotFound s \<longleftrightarrow> code s = kNotFound"
definition IsCorruption :: "Status \<Rightarrow> bool" where "IsCorruption s \<longleftrightarrow> code s = kCorruption"
definition IsNotSupported :: "Status \<Rightarrow> bool" where "IsNotSupported s \<longleftrightarrow> code s = kNotSupported"
definition IsInvalidArgument :: "Status \<Rightarrow> bool" where
  "IsInvalidArgument s \<longleftrightarrow> code s = kInvalidArgument"
definition IsIOError :: "Status \<Rightarrow> bool" where "IsIOError s \<longleftrightarrow> code s = kIOError"

definition ToString :: "Status \<Rightarrow> string" where
  "ToString s = (case code s of
       kOk \<Rightarrow> ''OK''
     | kNotFound \<Rightarrow> ''NotFound: '' @ message s
     | kCorruption \<Rightarrow> ''Corruption: '' @ message s
     | kNotSupported \<Rightarrow> ''NotSupported: '' @ message s
     | kInvalidArgument \<Rightarrow> ''InvalidArgument: '' @ message s
     | kIOError \<Rightarrow> ''IOError: '' @ message s)"

lemmas status_defs = OK_def NotFound_def Corruption_def NotSupported_def InvalidArgument_def
  IOError_def ok_def IsNotFound_def IsCorruption_def IsNotSupported_def IsInvalidArgument_def
  IsIOError_def

lemma status_distinct [simp]:
  "OK \<noteq> NotFound m" "OK \<noteq> Corruption m" "OK \<noteq> IOError m" "NotFound m \<noteq> OK"
  "Corruption m \<noteq> OK" "IOError m \<noteq> OK" "NotFound m \<noteq> Corruption m'"
  "Corruption m' \<noteq> NotFound m" "NotFound m \<noteq> IOError m'" "IOError m' \<noteq> NotFound m"
  "Corruption m \<noteq> IOError m'" "IOError m' \<noteq> Corruption m"
  by (simp_all add: status_defs)

lemma status_inject [simp]:
  "NotFound m = NotFound m' \<longleftrightarrow> m = m'" "Corruption m = Corruption m' \<longleftrightarrow> m = m'"
  "IOError m = IOError m' \<longleftrightarrow> m = m'"
  by (simp_all add: status_defs)

lemma ok_simps [simp]:
  "ok OK" "\<not> ok (NotFound m)" "\<not> ok (Corruption m)" "\<not> ok (NotSupported m)"
  "\<not> ok (InvalidArgument m)" "\<not> ok (IOError m)"
  by (simp_all add: status_defs)

lemma code_simps [simp]:
  "IsNotFound (NotFound m)" "\<not> IsNotFound OK" "\<not> IsNotFound (Corruption m)"
  "\<not> IsNotFound (IOError m)" "IsCorruption (Corruption m)" "\<not> IsCorruption OK"
  "\<not> IsCorruption (NotFound m)" "\<not> IsCorruption (IOError m)" "IsIOError (IOError m)"
  "\<not> IsIOError OK" "\<not> IsIOError (NotFound m)" "\<not> IsIOError (Corruption m)"
  by (simp_all add: status_defs)

text \<open>The options of a database, with the defaults of the source.\<close>

record Options =
  create_if_missing :: bool
  error_if_exists :: bool
  write_buffer_size :: nat
  opt_sync :: bool
  block_size :: nat
  bloom_bits_per_key :: int
  block_cache_capacity_bytes :: nat
  max_level0_files :: int
  max_file_size :: nat

definition default_options :: Options where
  "default_options = \<lparr>create_if_missing = True, error_if_exists = False,
     write_buffer_size = 4 * 1024 * 1024, opt_sync = False, block_size = 4096,
     bloom_bits_per_key = 10, block_cache_capacity_bytes = 8 * 1024 * 1024,
     max_level0_files = 4, max_file_size = 2 * 1024 * 1024\<rparr>"

end
