(* ===== verification/Slice_Format.thy ===== *)
theory Slice_Format
  imports Prelude
begin

text \<open>
  Byte slices (include/strata/slice.h) and internal keys (src/format.h).  A slice is the
  bytes it points at; its comparison is written as the source writes it, with \<^verbatim>\<open>memcmp\<close>
  on the common length first and the lengths after.  The lemmas show that it decides the
  lexicographic order, and that the order of internal keys (user key ascending, sequence
  number descending) is total, which is the contract the skip list asks of its comparator.
\<close>

section \<open>Slices\<close>

fun memcmp :: "bytes \<Rightarrow> bytes \<Rightarrow> nat \<Rightarrow> int" where
  "memcmp (x # xs) (y # ys) (Suc n) = (if x < y then -1 else if y < x then 1 else memcmp xs ys n)"
| "memcmp _ _ _ = 0"

definition slice_compare :: "bytes \<Rightarrow> bytes \<Rightarrow> int" where
  "slice_compare a b =
     (let min_len = (if length a < length b then length a else length b);
          r = memcmp a b min_len
      in if r = 0 then (if length a < length b then -1 else if length a > length b then 1 else r)
         else r)"

definition slice_starts_with :: "bytes \<Rightarrow> bytes \<Rightarrow> bool" where
  "slice_starts_with a x \<longleftrightarrow> length a \<ge> length x \<and> memcmp a x (length x) = 0"

definition slice_eq :: "bytes \<Rightarrow> bytes \<Rightarrow> bool" where
  "slice_eq x y \<longleftrightarrow> length x = length y \<and> memcmp x y (length x) = 0"

definition slice_less :: "bytes \<Rightarrow> bytes \<Rightarrow> bool" where
  "slice_less x y \<longleftrightarrow> slice_compare x y < 0"

definition slice_less_eq :: "bytes \<Rightarrow> bytes \<Rightarrow> bool" where
  "slice_less_eq x y \<longleftrightarrow> slice_compare x y \<le> 0"

text \<open>\<^verbatim>\<open>remove_prefix\<close> asserts its bound; the failed assertion is \<open>None\<close>.\<close>

definition remove_prefix :: "nat \<Rightarrow> bytes \<Rightarrow> bytes option" where
  "remove_prefix n s = (if n \<le> length s then Some (drop n s) else None)"

lemma memcmp_take: "memcmp a b n = memcmp (take n a) (take n b) n"
  by (induction a b n rule: memcmp.induct) auto

lemma memcmp_eq_0: "memcmp a b n = 0 \<longleftrightarrow> take (min n (length b)) a = take (min n (length a)) b"
proof (induction a b n rule: memcmp.induct)
  case (1 x xs y ys n)
  then show ?case by (auto simp: not_less_iff_gr_or_eq)
qed (auto simp: min_def)

lemma slice_compare_Nil [simp]:
  "slice_compare [] [] = 0" "slice_compare [] (y # ys) = -1" "slice_compare (x # xs) [] = 1"
  by (simp_all add: slice_compare_def)

lemma slice_compare_Cons [simp]:
  "slice_compare (x # xs) (y # ys) =
     (if x < y then -1 else if y < x then 1 else slice_compare xs ys)"
  by (simp add: slice_compare_def Let_def)

lemma slice_compare_lex: "slice_compare a b = (if a < b then -1 else if a = b then 0 else 1)"
proof (induction a arbitrary: b)
  case Nil
  then show ?case by (cases b) auto
next
  case (Cons x xs)
  then show ?case by (cases b) auto
qed

lemma slice_ops_lex [simp]:
  "slice_less a b = (a < b)" "slice_less_eq a b = (a \<le> b)" "slice_eq a b = (a = b)"
  by (auto simp: slice_less_def slice_less_eq_def slice_compare_lex slice_eq_def memcmp_eq_0
      split: if_splits)

lemma slice_starts_with_iff: "slice_starts_with a x \<longleftrightarrow> (\<exists>ys. a = x @ ys)"
  by (auto simp: slice_starts_with_def memcmp_eq_0 min_def) (metis append_take_drop_id)

section \<open>Internal keys\<close>

type_synonym SequenceNumber = u64

definition kMaxSequenceNumber :: SequenceNumber where
  "kMaxSequenceNumber = push_bit 56 1 - 1"

text \<open>
  \<^verbatim>\<open>enum ValueType : uint8_t\<close>: a byte read from disk is cast without a check, so a value
  type is any byte.
\<close>

type_synonym ValueType = byte

definition kTypeDeletion :: ValueType where "kTypeDeletion = 0"
definition kTypeValue :: ValueType where "kTypeValue = 1"

definition CompareInternalKey ::
  "bytes \<Rightarrow> SequenceNumber \<Rightarrow> bytes \<Rightarrow> SequenceNumber \<Rightarrow> int" where
  "CompareInternalKey a_user_key a_seq b_user_key b_seq =
     (let r = slice_compare a_user_key b_user_key
      in if r \<noteq> 0 then r
         else if a_seq > b_seq then -1
         else if a_seq < b_seq then 1
         else 0)"

text \<open>The order of internal keys: user keys ascending, newest version of a key first.\<close>

definition ikey_less :: "bytes \<times> SequenceNumber \<Rightarrow> bytes \<times> SequenceNumber \<Rightarrow> bool" where
  "ikey_less a b \<longleftrightarrow> fst a < fst b \<or> fst a = fst b \<and> snd b < snd a"

lemma CompareInternalKey_spec:
  "CompareInternalKey a s b t =
     (if ikey_less (a, s) (b, t) then -1 else if (a, s) = (b, t) then 0 else 1)"
  by (auto simp: CompareInternalKey_def slice_compare_lex ikey_less_def)

lemma ikey_less_irrefl [simp]: "\<not> ikey_less a a"
  by (simp add: ikey_less_def)

lemma ikey_less_trans: "ikey_less a b \<Longrightarrow> ikey_less b c \<Longrightarrow> ikey_less a c"
  by (auto simp: ikey_less_def)

lemma ikey_less_linear: "ikey_less a b \<or> a = b \<or> ikey_less b a"
  by (cases a; cases b) (auto simp: ikey_less_def)

lemma ikey_less_asym: "ikey_less a b \<Longrightarrow> \<not> ikey_less b a"
  by (auto simp: ikey_less_def)

text \<open>
  The contract a container asks of a three-way comparator: its sign is a strict linear
  order on the keys that the elements carry.
\<close>

locale comparator =
  fixes cmp :: "'e \<Rightarrow> 'e \<Rightarrow> int"
  assumes cmp_refl: "cmp a a = 0"
    and cmp_flip: "cmp a b < 0 \<longleftrightarrow> 0 < cmp b a"
    and cmp_trans: "cmp a b < 0 \<Longrightarrow> cmp b c < 0 \<Longrightarrow> cmp a c < 0"
    and cmp_eq_trans: "cmp a b = 0 \<Longrightarrow> cmp b c < 0 \<Longrightarrow> cmp a c < 0"
    and cmp_eq_trans2: "cmp a b < 0 \<Longrightarrow> cmp b c = 0 \<Longrightarrow> cmp a c < 0"
begin

lemma cmp_irrefl: "\<not> cmp a a < 0"
  by (simp add: cmp_refl)

lemma cmp_eq_sym: "cmp a b = 0 \<longleftrightarrow> cmp b a = 0"
  using cmp_flip [of a b] cmp_flip [of b a] by linarith

lemma cmp_less_asym: "cmp a b < 0 \<Longrightarrow> \<not> cmp b a < 0"
  using cmp_flip [of a b] by linarith

lemma cmp_le_trans: "\<not> cmp b a < 0 \<Longrightarrow> cmp b c < 0 \<Longrightarrow> cmp a c < 0"
  using cmp_flip [of a b] cmp_flip [of b a] cmp_eq_trans [of a b c] cmp_trans [of a b c]
    cmp_eq_sym [of a b] by linarith

lemma sorted_wrt_cmp_distinct: "sorted_wrt (\<lambda>a b. cmp a b < 0) xs \<Longrightarrow> distinct xs"
  by (induction xs) (auto simp: cmp_refl)

end

end
