(* ===== verification/Coding.thy ===== *)
theory Coding
  imports Prelude
begin

text \<open>
  Little-endian fixed-width integers (src/coding.h).  \<open>EncodeFixed32\<close> and
  \<open>EncodeFixed64\<close> are the bytes that the source stores into its buffer; the decoders
  read the bytes at the front of a buffer and \<open>or\<close> them together.  The locale
  \<open>fixed_codec\<close> states what the record formats rely on: an encoding has a fixed length
  and the decoder undoes it whatever bytes follow.
\<close>

definition EncodeFixed32 :: "u32 \<Rightarrow> bytes" where
  "EncodeFixed32 value =
     [ucast value, ucast (drop_bit 8 value), ucast (drop_bit 16 value), ucast (drop_bit 24 value)]"

definition PutFixed32 :: "bytes \<Rightarrow> u32 \<Rightarrow> bytes" where
  "PutFixed32 dst value = dst @ EncodeFixed32 value"

definition DecodeFixed32 :: "bytes \<Rightarrow> u32" where
  "DecodeFixed32 ptr =
     ucast (ptr ! 0) OR push_bit 8 (ucast (ptr ! 1))
       OR push_bit 16 (ucast (ptr ! 2)) OR push_bit 24 (ucast (ptr ! 3))"

definition EncodeFixed64 :: "u64 \<Rightarrow> bytes" where
  "EncodeFixed64 value = map (\<lambda>i. ucast (drop_bit (i * 8) value)) [0..<8]"

definition PutFixed64 :: "bytes \<Rightarrow> u64 \<Rightarrow> bytes" where
  "PutFixed64 dst value = dst @ EncodeFixed64 value"

definition DecodeFixed64 :: "bytes \<Rightarrow> u64" where
  "DecodeFixed64 ptr = fold (\<lambda>i result. result OR push_bit (i * 8) (ucast (ptr ! i))) [0..<8] 0"

lemma length_EncodeFixed32 [simp, codec_simps]: "length (EncodeFixed32 v) = 4"
  by (simp add: EncodeFixed32_def)

lemma length_EncodeFixed64 [simp, codec_simps]: "length (EncodeFixed64 v) = 8"
  by (simp add: EncodeFixed64_def)

text \<open>Bit \<open>n\<close> of a little-endian sum is bit \<open>n mod 8\<close> of byte \<open>n div 8\<close>.\<close>

lemma bit_little_endian:
  "bit (fold (\<lambda>i r. r OR push_bit (i * 8) (ucast (p ! i))) [0..<k] (0 :: 'a::len word)) n \<longleftrightarrow>
     n < LENGTH('a) \<and> n < 8 * k \<and> bit ((p :: bytes) ! (n div 8)) (n mod 8)"
proof (induction k)
  case (Suc k)
  have short: "bit (p ! k) (n - k * 8) \<Longrightarrow> n - k * 8 < 8"
    using bit_imp_le_length by fastforce
  consider "n < 8 * k" | "8 * k \<le> n" "n < 8 * Suc k" | "8 * Suc k \<le> n" by linarith
  then show ?case
  proof cases
    case 2
    then have "n div 8 = k" and "n mod 8 = n - k * 8" by (auto simp: div_nat_eqI modulo_nat_def)
    with 2 Suc show ?thesis by (auto simp: bit_simps)
  qed (use Suc short in \<open>auto simp: bit_simps\<close>)
qed simp

lemma DecodeFixed32_fold:
  "DecodeFixed32 p = fold (\<lambda>i r. r OR push_bit (i * 8) (ucast (p ! i))) [0..<4] 0"
  by (simp add: DecodeFixed32_def upt_conv_Cons or.assoc eval_nat_numeral)

lemma bit_DecodeFixed32:
  "bit (DecodeFixed32 p) n \<longleftrightarrow> n < 32 \<and> bit (p ! (n div 8)) (n mod 8)"
  by (auto simp: DecodeFixed32_fold bit_little_endian)

lemma bit_DecodeFixed64:
  "bit (DecodeFixed64 p) n \<longleftrightarrow> n < 64 \<and> bit (p ! (n div 8)) (n mod 8)"
  by (auto simp: DecodeFixed64_def bit_little_endian)

lemma EncodeFixed32_map: "EncodeFixed32 v = map (\<lambda>i. ucast (drop_bit (i * 8) v)) [0..<4]"
  by (simp add: EncodeFixed32_def upt_conv_Cons)

lemma Decode_EncodeFixed32 [simp, codec_simps]: "DecodeFixed32 (EncodeFixed32 v @ rest) = v"
proof (rule bit_word_eqI)
  fix n assume "n < LENGTH(32)"
  moreover from this have "n div 8 < 4" by simp
  ultimately show "bit (DecodeFixed32 (EncodeFixed32 v @ rest)) n = bit v n"
    by (simp add: bit_DecodeFixed32 EncodeFixed32_map nth_append bit_simps)
qed

lemma Decode_EncodeFixed64 [simp, codec_simps]: "DecodeFixed64 (EncodeFixed64 v @ rest) = v"
proof (rule bit_word_eqI)
  fix n assume "n < LENGTH(64)"
  moreover from this have "n div 8 < 8" by simp
  ultimately show "bit (DecodeFixed64 (EncodeFixed64 v @ rest)) n = bit v n"
    by (simp add: bit_DecodeFixed64 EncodeFixed64_def nth_append bit_simps)
qed

text \<open>Conversely every buffer of the right length is the encoding of what it decodes to.\<close>

lemma Encode_DecodeFixed32: "length p = 4 \<Longrightarrow> EncodeFixed32 (DecodeFixed32 p) = p"
  by (rule nth_equalityI)
    (auto simp: EncodeFixed32_map bit_simps bit_DecodeFixed32 intro!: bit_word_eqI)

lemma Encode_DecodeFixed64: "length p = 8 \<Longrightarrow> EncodeFixed64 (DecodeFixed64 p) = p"
  by (rule nth_equalityI)
    (auto simp: EncodeFixed64_def bit_simps bit_DecodeFixed64 intro!: bit_word_eqI)

section \<open>What the record formats rely on\<close>

locale fixed_codec =
  fixes enc :: "'a \<Rightarrow> bytes" and dec :: "bytes \<Rightarrow> 'a" and width :: nat
  assumes enc_length: "length (enc v) = width"
    and dec_enc: "dec (enc v @ rest) = v"
    and enc_dec: "length p = width \<Longrightarrow> enc (dec p) = p"
begin

lemma dec_enc_only: "dec (enc v) = v"
  using dec_enc [of v "[]"] by simp

lemma enc_inj: "enc v = enc w \<longleftrightarrow> v = w"
  by (metis dec_enc_only)

lemma dec_prefix: "width \<le> length p \<Longrightarrow> dec p = dec (take width p)"
  by (metis append_take_drop_id dec_enc enc_dec length_take min.absorb2)

lemma dec_append: "width \<le> length p \<Longrightarrow> dec (p @ q) = dec p"
  by (metis dec_prefix length_append take_append trans_le_add1 append_Nil2 diff_is_0_eq take0)

lemma dec_at: "length as = n \<Longrightarrow> dec (drop n (as @ enc v @ rest)) = v"
  by (simp add: dec_enc)

lemma enc_append_inj: "enc v @ xs = enc w @ ys \<longleftrightarrow> v = w \<and> xs = ys"
  by (metis append_eq_append_conv enc_inj enc_length)

end

interpretation fixed32: fixed_codec EncodeFixed32 DecodeFixed32 4
  by unfold_locales (simp_all add: Encode_DecodeFixed32)

interpretation fixed64: fixed_codec EncodeFixed64 DecodeFixed64 8
  by unfold_locales (simp_all add: Encode_DecodeFixed64)

lemmas dec_enc_only [simp, codec_simps] = fixed32.dec_enc_only fixed64.dec_enc_only

end
