(* ===== verification/Crc32.thy ===== *)
theory Crc32
  imports Coding
begin

text \<open>
  The table-driven CRC-32 of src/crc32.cc.  \<open>GetCrcTable\<close> is the table the source fills
  on first use; the static \<^verbatim>\<open>initialized\<close> flag only avoids filling it twice.  The lemmas
  relate the table to the bit-by-bit shift register it stands for, and show what the log
  and the table files rely on: a change confined to four consecutive bytes always changes
  the checksum.
\<close>

definition crc_poly :: u32 where "crc_poly = 0xEDB88320"

definition crc_step :: "u32 \<Rightarrow> u32" where
  "crc_step c = (if c AND 1 \<noteq> 0 then crc_poly XOR drop_bit 1 c else drop_bit 1 c)"

definition GetCrcTable :: "u32 list" where
  "GetCrcTable = map (\<lambda>i. (crc_step ^^ 8) (of_nat i)) [0..<256]"

definition crc_update :: "u32 \<Rightarrow> byte \<Rightarrow> u32" where
  "crc_update c p = GetCrcTable ! unat ((c XOR ucast p) AND 0xFF) XOR drop_bit 8 c"

definition Crc32 :: "bytes \<Rightarrow> u32 \<Rightarrow> u32" where
  "Crc32 data seed = foldl crc_update (seed XOR 0xFFFFFFFF) data XOR 0xFFFFFFFF"

section \<open>The shift register\<close>

lemma xor_eq_0: "a XOR b = 0 \<longleftrightarrow> a = (b :: 'a::len word)"
  by (auto simp: bit_eq_iff bit_simps)

lemma xor_cancel [simp]:
  "a XOR b = a XOR d \<longleftrightarrow> b = (d :: 'a::len word)" "b XOR a = d XOR a \<longleftrightarrow> b = d"
  by (auto simp: bit_eq_iff bit_simps)

lemma and_1_bit: "(c AND 1 \<noteq> 0) = bit (c :: u32) 0"
  by (simp add: and_one_eq bit_0 odd_iff_mod_2_eq_one)

lemma crc_step_alt: "crc_step c = (if bit c 0 then crc_poly else 0) XOR drop_bit 1 c"
  by (simp add: crc_step_def and_1_bit)

lemma crc_step_xor: "crc_step (a XOR b) = crc_step a XOR crc_step b"
  by (rule bit_word_eqI) (auto simp: crc_step_alt bit_simps)

lemma crc_steps_xor: "(crc_step ^^ n) (a XOR b) = (crc_step ^^ n) a XOR (crc_step ^^ n) b"
  by (induction n) (simp_all add: crc_step_xor)

lemma crc_step_eq_0: "crc_step c = 0 \<longleftrightarrow> c = 0"
proof
  assume z: "crc_step c = 0"
  have "bit crc_poly 31" by (simp add: crc_poly_def)
  then have b0: "\<not> bit c 0"
  proof -
    assume p: "bit crc_poly 31"
    show ?thesis
    proof
      assume "bit c 0"
      then have "bit (crc_step c) 31 = (bit crc_poly 31 \<noteq> bit c 32)"
        by (simp add: crc_step_alt bit_simps)
      moreover have "\<not> bit c 32" using bit_imp_le_length [of c 32] by auto
      ultimately show False using z p by simp
    qed
  qed
  then have d: "drop_bit 1 c = 0" using z by (simp add: crc_step_alt)
  show "c = 0"
  proof (rule bit_word_eqI)
    fix n
    show "bit c n = bit 0 n"
    proof (cases n)
      case (Suc m)
      have "bit c (Suc m) = bit (drop_bit 1 c) m" by (simp add: bit_simps)
      with d Suc show ?thesis by simp
    qed (use b0 in simp)
  qed
qed (simp add: crc_step_def)

lemma crc_steps_eq_0: "(crc_step ^^ n) c = 0 \<longleftrightarrow> c = 0"
  by (induction n) (simp_all add: crc_step_eq_0)

lemma crc_steps_inj: "(crc_step ^^ n) a = (crc_step ^^ n) b \<longleftrightarrow> a = b"
proof -
  have "(crc_step ^^ n) a = (crc_step ^^ n) b \<longleftrightarrow> (crc_step ^^ n) (a XOR b) = 0"
    by (simp add: crc_steps_xor xor_eq_0)
  then show ?thesis by (simp add: crc_steps_eq_0 xor_eq_0)
qed

text \<open>Zero low bits are shifted out unchanged.\<close>

lemma crc_steps_shift: "(\<forall>i < n. \<not> bit c i) \<Longrightarrow> (crc_step ^^ n) c = drop_bit n c"
proof (induction n arbitrary: c)
  case (Suc n)
  have "crc_step c = drop_bit 1 c" using Suc.prems by (simp add: crc_step_alt)
  moreover have "(crc_step ^^ n) (drop_bit 1 c) = drop_bit n (drop_bit 1 c)"
    by (rule Suc.IH) (use Suc.prems in \<open>auto simp: bit_simps\<close>)
  ultimately show ?case by (simp add: funpow_swap1 del: funpow.simps) (simp add: funpow_swap1)
qed simp

section \<open>Table lookup is eight steps of the register\<close>

lemma nth_GetCrcTable: "n < 256 \<Longrightarrow> GetCrcTable ! n = (crc_step ^^ 8) (of_nat n)"
  by (simp add: GetCrcTable_def)

lemma unat_and_FF: "unat ((x :: u32) AND 0xFF) < 256"
proof -
  have "x AND 0xFF \<le> 0xFF" by (rule word_and_le1)
  then show ?thesis by (simp add: word_le_nat_alt)
qed

lemma bit_FF: "bit (0xFF :: u32) i = (i < 8)"
proof -
  have "bit (mask 8 :: u32) i = (i < 8)" by (auto simp: bit_mask_iff)
  moreover have "mask 8 = (0xFF :: u32)" by (simp add: mask_eq_exp_minus_1)
  ultimately show ?thesis by simp
qed

lemma crc_steps_split:
  assumes m: "\<And>i. bit m i = (i < 8)"
  shows "(crc_step ^^ 8) x = (crc_step ^^ 8) (x AND m) XOR drop_bit 8 x"
proof -
  have "x = (x AND m) XOR (x AND NOT m)"
    by (rule bit_word_eqI) (auto simp: bit_simps m)
  moreover have "(crc_step ^^ 8) (x AND NOT m) = drop_bit 8 (x AND NOT m)"
    by (rule crc_steps_shift) (auto simp: bit_simps m)
  moreover have "drop_bit 8 (x AND NOT m) = drop_bit 8 x"
    by (rule bit_word_eqI) (auto simp: bit_simps m dest: bit_imp_le_length)
  ultimately show ?thesis by (metis crc_steps_xor)
qed

lemma crc_update_steps: "crc_update c p = (crc_step ^^ 8) (c XOR ucast p)"
proof -
  let ?x = "c XOR ucast p"
  have "GetCrcTable ! unat (?x AND 0xFF) = (crc_step ^^ 8) (?x AND 0xFF)"
    using unat_and_FF [of ?x] by (simp add: nth_GetCrcTable)
  moreover have "drop_bit 8 ?x = drop_bit 8 c"
    by (rule bit_word_eqI) (auto simp: bit_simps dest: bit_imp_le_length)
  ultimately show ?thesis
    using crc_steps_split [OF bit_FF, of ?x] by (simp add: crc_update_def)
qed

text \<open>The bit-by-bit CRC that the table replaces.\<close>

definition crc32_bitwise :: "bytes \<Rightarrow> u32 \<Rightarrow> u32" where
  "crc32_bitwise data seed =
     foldl (\<lambda>c p. (crc_step ^^ 8) (c XOR ucast p)) (seed XOR 0xFFFFFFFF) data XOR 0xFFFFFFFF"

lemma Crc32_bitwise_eq: "Crc32 data seed = crc32_bitwise data seed"
  by (simp add: Crc32_def crc32_bitwise_def crc_update_steps [abs_def])

lemma Crc32_append: "Crc32 (xs @ ys) seed = Crc32 ys (Crc32 xs seed)"
  by (simp add: Crc32_def xor.assoc)

section \<open>Error detection\<close>

fun le_word :: "bytes \<Rightarrow> u32" where
  "le_word [] = 0"
| "le_word (b # bs) = ucast b XOR push_bit 8 (le_word bs)"

lemma bit_le_word_bound: "bit (le_word bs) n \<Longrightarrow> n < 8 * length bs"
proof (induction bs arbitrary: n)
  case (Cons b bs)
  have "bit b n \<Longrightarrow> n < 8" using bit_imp_le_length by fastforce
  with Cons show ?case by (force simp: bit_simps)
qed simp

lemma le_word_inj:
  "length bs = length bs' \<Longrightarrow> length bs \<le> 4 \<Longrightarrow> le_word bs = le_word bs' \<Longrightarrow> bs = bs'"
proof (induction bs bs' rule: list_induct2)
  case (Cons b bs b' bs')
  have *: "bit (le_word (b # bs)) n = bit (le_word (b' # bs')) n" for n
    using Cons.prems by simp
  have "b = b'"
  proof (rule bit_word_eqI)
    fix n assume "n < LENGTH(8)"
    then show "bit b n = bit b' n" using * [of n] by (simp add: bit_simps)
  qed
  moreover have "le_word bs = le_word bs'"
  proof (rule bit_word_eqI)
    fix n assume "n < LENGTH(32)"
    show "bit (le_word bs) n = bit (le_word bs') n"
    proof (cases "n < 24")
      case True
      have "\<not> bit (b :: byte) (n + 8)" "\<not> bit b' (n + 8)"
        using bit_imp_le_length [of b "n + 8"] bit_imp_le_length [of b' "n + 8"] by auto
      then show ?thesis using * [of "n + 8"] True by (simp add: bit_simps)
    next
      case False
      then show ?thesis
        using bit_le_word_bound [of bs n] bit_le_word_bound [of bs' n] Cons by auto
    qed
  qed
  ultimately show ?case using Cons by simp
qed simp

lemma foldl_crc_update:
  "length bs \<le> 4 \<Longrightarrow>
     foldl crc_update c bs = (crc_step ^^ (8 * length bs)) (c XOR le_word bs)"
proof (induction bs arbitrary: c)
  case (Cons b bs)
  have "(crc_step ^^ 8) (push_bit 8 (le_word bs)) = drop_bit 8 (push_bit 8 (le_word bs))"
    by (rule crc_steps_shift) (simp add: bit_simps)
  also have "\<dots> = le_word bs"
  proof (rule bit_word_eqI)
    fix n assume "n < LENGTH(32)"
    show "bit (drop_bit 8 (push_bit 8 (le_word bs))) n = bit (le_word bs) n"
      using bit_le_word_bound [of bs n] Cons.prems by (auto simp: bit_simps)
  qed
  finally have shift: "(crc_step ^^ 8) (push_bit 8 (le_word bs)) = le_word bs" .
  have "foldl crc_update c (b # bs) =
      (crc_step ^^ (8 * length bs)) ((crc_step ^^ 8) (c XOR ucast b) XOR le_word bs)"
    using Cons by (simp add: crc_update_steps [of c b])
  also have "\<dots> = (crc_step ^^ (8 * length bs)) ((crc_step ^^ 8) (c XOR le_word (b # bs)))"
    using shift by (simp add: crc_steps_xor xor.assoc)
  also have "\<dots> = (crc_step ^^ (8 * length bs + 8)) (c XOR le_word (b # bs))"
    by (simp only: funpow_add comp_apply)
  finally show ?case by (simp only: list.size mult_Suc_right add.commute add_0_right Suc_eq_plus1
        distrib_left mult_1_right)
qed simp

lemma crc_update_inj: "crc_update c p = crc_update c' p \<longleftrightarrow> c = c'"
  by (simp add: crc_update_steps crc_steps_inj)

lemma foldl_crc_update_inj: "foldl crc_update c ds = foldl crc_update c' ds \<longleftrightarrow> c = c'"
  by (induction ds arbitrary: c c') (simp_all add: crc_update_inj)

lemma Crc32_burst:
  assumes "length b = length b'" and "length b \<le> 4" and "b \<noteq> b'"
  shows "Crc32 (a @ b @ d) seed \<noteq> Crc32 (a @ b' @ d) seed"
proof -
  let ?c = "foldl crc_update (seed XOR 0xFFFFFFFF) a"
  have "foldl crc_update ?c b \<noteq> foldl crc_update ?c b'"
    using assms le_word_inj [of b b']
    by (auto simp: foldl_crc_update crc_steps_inj)
  then have "foldl crc_update ?c (b @ d) \<noteq> foldl crc_update ?c (b' @ d)"
    by (simp add: foldl_crc_update_inj)
  then show ?thesis
    by (simp add: Crc32_def)
qed

section \<open>Properties\<close>

text \<open>C5: The table-driven checksum is the CRC-32 of the reflected polynomial 0xEDB88320 computed
  bit by bit, for every input and seed.\<close>

theorem crc_table_correct: "Crc32 data seed = crc32_bitwise data seed"
  by (rule Crc32_bitwise_eq)

end
