(* ===== verification/Filename.thy ===== *)
theory Filename
  imports Prelude
begin

text \<open>
  File names of a database directory (src/filename.h) and the parsing of file numbers back
  from directory entries (\<^verbatim>\<open>std::stoull\<close>, used in src/db_impl.cc).  \<open>snprintf\<close> cuts its
  output at 63 characters; the lemmas show that no file number is long enough to be cut, so
  names determine numbers and recovery reads back the number that was printed.
\<close>

fun dec_digits :: "nat \<Rightarrow> string" where
  "dec_digits n = (if n < 10 then [char_of (48 + n)] else dec_digits (n div 10) @ [char_of (48 + n mod 10)])"

declare dec_digits.simps [simp del]

text \<open>The conversion \<^verbatim>\<open>%06llu\<close>.\<close>

definition fmt06 :: "u64 \<Rightarrow> string" where
  "fmt06 n = (let s = dec_digits (unat n) in replicate (6 - length s) CHR ''0'' @ s)"

definition MakeFileName :: "string \<Rightarrow> u64 \<Rightarrow> string \<Rightarrow> string \<Rightarrow> string" where
  "MakeFileName dbname number prefix suffix =
     dbname @ take 63 (''/'' @ prefix @ fmt06 number @ ''.'' @ suffix)"

definition LogFileName :: "string \<Rightarrow> u64 \<Rightarrow> string" where
  "LogFileName dbname number = MakeFileName dbname number '''' ''log''"

definition TableFileName :: "string \<Rightarrow> u64 \<Rightarrow> string" where
  "TableFileName dbname number = MakeFileName dbname number '''' ''sst''"

definition ManifestFileName :: "string \<Rightarrow> u64 \<Rightarrow> string" where
  "ManifestFileName dbname number = dbname @ take 63 (''/MANIFEST-'' @ fmt06 number)"

definition CurrentFileName :: "string \<Rightarrow> string" where
  "CurrentFileName dbname = dbname @ ''/CURRENT''"

definition LockFileName :: "string \<Rightarrow> string" where
  "LockFileName dbname = dbname @ ''/LOCK''"

text \<open>
  \<^verbatim>\<open>std::stoull\<close>: optional white space and sign, then decimal digits up to the first other
  character.  No digit raises \<^verbatim>\<open>invalid_argument\<close>, a value beyond 64 bits
  \<^verbatim>\<open>out_of_range\<close>; both are \<open>None\<close>.  A minus sign negates modulo \<open>2 ^ 64\<close>.
\<close>

definition is_digit :: "char \<Rightarrow> bool" where
  "is_digit c \<longleftrightarrow> 48 \<le> (of_char c :: nat) \<and> (of_char c :: nat) \<le> 57"

definition is_space :: "char \<Rightarrow> bool" where
  "is_space c \<longleftrightarrow> (of_char c :: nat) = 32 \<or> 9 \<le> (of_char c :: nat) \<and> (of_char c :: nat) \<le> 13"

definition digits_value :: "string \<Rightarrow> nat" where
  "digits_value s = foldl (\<lambda>v c. 10 * v + (of_char c - 48)) 0 s"

definition stoull :: "string \<Rightarrow> u64 option" where
  "stoull str =
     (let s = dropWhile is_space str;
          neg = (s \<noteq> [] \<and> hd s = CHR ''-'');
          t = (if s \<noteq> [] \<and> (hd s = CHR ''-'' \<or> hd s = CHR ''+'') then tl s else s);
          ds = takeWhile is_digit t;
          v = digits_value ds
      in if ds = [] \<or> v \<ge> 2 ^ 64 then None
         else Some (if neg then - of_nat v else of_nat v))"

section \<open>Printing and parsing numbers\<close>

lemma char_of_digit [simp]:
  "d < 10 \<Longrightarrow> is_digit (char_of (48 + d :: nat))" "d < 10 \<Longrightarrow> of_char (char_of (48 + d :: nat)) = 48 + d"
  by (simp_all add: is_digit_def)

lemma is_digit_not_special:
  "is_digit c \<Longrightarrow> \<not> is_space c" "is_digit c \<Longrightarrow> c \<noteq> CHR ''-''" "is_digit c \<Longrightarrow> c \<noteq> CHR ''+''"
  "is_digit c \<Longrightarrow> c \<noteq> CHR ''.''"
  by (auto simp: is_digit_def is_space_def)

lemma dec_digits_digits: "\<forall>c \<in> set (dec_digits n). is_digit c"
proof (induction n rule: dec_digits.induct)
  case (1 n)
  then show ?case by (subst dec_digits.simps) auto
qed

lemma dec_digits_nonempty [simp]: "dec_digits n \<noteq> []"
  by (subst dec_digits.simps) simp

lemma digits_value_snoc: "digits_value (s @ [c]) = 10 * digits_value s + (of_char c - 48)"
  by (simp add: digits_value_def)

lemma digits_value_dec_digits [simp]: "digits_value (dec_digits n) = n"
proof (induction n rule: dec_digits.induct)
  case (1 n)
  show ?case
  proof (cases "n < 10")
    case True
    then show ?thesis by (subst dec_digits.simps) (simp add: digits_value_def)
  next
    case False
    then show ?thesis using 1 by (subst dec_digits.simps) (simp add: digits_value_snoc)
  qed
qed

lemma length_dec_digits: "n < 10 ^ k \<Longrightarrow> 0 < k \<Longrightarrow> length (dec_digits n) \<le> k"
proof (induction n arbitrary: k rule: dec_digits.induct)
  case (1 n)
  show ?case
  proof (cases "n < 10")
    case True
    then show ?thesis using 1 by (subst dec_digits.simps) simp
  next
    case False
    then obtain j where j: "k = Suc j" "0 < j" using 1
      by (metis One_nat_def gr0_implies_Suc neq0_conv power_0 power_Suc0_right power_one_right)
    then have "n div 10 < 10 ^ j" using 1 by (simp add: less_mult_imp_div_less mult.commute)
    then show ?thesis using False 1 j by (subst dec_digits.simps) simp
  qed
qed

lemma length_dec_digits_u64: "length (dec_digits (unat (n :: u64))) \<le> 20"
  by (rule length_dec_digits) (use unat_lt64 [of n] in simp_all)

lemma length_fmt06: "length (fmt06 n) \<le> 20"
  using length_dec_digits_u64 [of n] by (simp add: fmt06_def Let_def)

lemma digits_value_zeros: "digits_value (replicate k CHR ''0'' @ s) = digits_value s"
  by (induction k) (simp_all add: digits_value_def)

lemma fmt06_digits: "\<forall>c \<in> set (fmt06 n). is_digit c"
  using dec_digits_digits by (auto simp: fmt06_def Let_def is_digit_def)

lemma fmt06_nonempty [simp]: "fmt06 n \<noteq> []"
  by (simp add: fmt06_def Let_def)

lemma stoull_fmt06: "(case rest of [] \<Rightarrow> True | c # _ \<Rightarrow> \<not> is_digit c) \<Longrightarrow> stoull (fmt06 n @ rest) = Some n"
proof -
  assume rest: "case rest of [] \<Rightarrow> True | c # _ \<Rightarrow> \<not> is_digit c"
  obtain c cs where c: "fmt06 n = c # cs" by (cases "fmt06 n") auto
  then have d: "is_digit c" using fmt06_digits [of n] by simp
  have tw: "takeWhile is_digit (fmt06 n @ rest) = fmt06 n"
    using fmt06_digits [of n] rest by (cases rest) (simp_all add: takeWhile_append)
  have "digits_value (fmt06 n) = unat n"
    by (simp add: fmt06_def Let_def digits_value_zeros)
  then show ?thesis
    using tw c d unat_lt64 [of n] is_digit_not_special [OF d]
    by (simp add: stoull_def)
qed

section \<open>Names determine numbers\<close>

lemma fmt06_inj: "fmt06 m = fmt06 n \<Longrightarrow> m = n"
  using stoull_fmt06 [of "[]" m] stoull_fmt06 [of "[]" n] by simp

lemma LogFileName_eq: "LogFileName d n = d @ ''/'' @ fmt06 n @ ''.log''"
  using length_fmt06 [of n] by (simp add: LogFileName_def MakeFileName_def)

lemma TableFileName_eq: "TableFileName d n = d @ ''/'' @ fmt06 n @ ''.sst''"
  using length_fmt06 [of n] by (simp add: TableFileName_def MakeFileName_def)

lemma ManifestFileName_eq: "ManifestFileName d n = d @ ''/MANIFEST-'' @ fmt06 n"
  using length_fmt06 [of n] by (simp add: ManifestFileName_def)

lemma file_names_inj:
  "LogFileName d m = LogFileName d n \<longleftrightarrow> m = n" "TableFileName d m = TableFileName d n \<longleftrightarrow> m = n"
  "ManifestFileName d m = ManifestFileName d n \<longleftrightarrow> m = n"
  by (auto simp: LogFileName_eq TableFileName_eq ManifestFileName_eq dest: fmt06_inj)

lemma log_neq_table: "LogFileName d m \<noteq> TableFileName d n"
proof
  assume "LogFileName d m = TableFileName d n"
  then have "rev (LogFileName d m) = rev (TableFileName d n)" by simp
  then show False by (simp add: LogFileName_eq TableFileName_eq)
qed

section \<open>Properties\<close>

text \<open>C6: A file number survives the trip through a file name: recovery parses back, with
  \<^verbatim>\<open>std::stoull\<close>, the number that \<^verbatim>\<open>LogFileName\<close>, \<^verbatim>\<open>TableFileName\<close> and
  \<^verbatim>\<open>ManifestFileName\<close> printed, for every 64-bit number.\<close>

theorem file_number_roundtrip:
  "stoull (drop (length d + 1) (LogFileName d n)) = Some n
   \<and> stoull (drop (length d + 1) (TableFileName d n)) = Some n
   \<and> stoull (drop (length d + 10) (ManifestFileName d n)) = Some n"
  using stoull_fmt06 [of "''.log''" n] stoull_fmt06 [of "''.sst''" n] stoull_fmt06 [of "[]" n]
  by (simp add: LogFileName_eq TableFileName_eq ManifestFileName_eq is_digit_def)

end
