(* ===== verification/Env.thy ===== *)
theory Env
  imports Status Filename
begin

text \<open>
  The file system the engine runs on, the write loop that the log and the table builder
  share, and the durability helpers of src/env.h.

  The POSIX calls are modelled by their documented effect on a directory of inodes: a path
  names an inode, an open descriptor keeps its inode whatever happens to the path (so an
  unlinked file stays readable through it), \<^verbatim>\<open>rename\<close> moves a directory entry atomically.
  What the kernel decides on its own is the \<open>script\<close>: the outcomes of the coming calls
  (complete, short, interrupted, failed), one per call; once it is used up every call
  completes.  A theorem that quantifies over the world quantifies over every script.  The
  branch for systems other than macOS is the one modelled.
\<close>

datatype outcome = Full | Short nat | Eintr | Fail

record World =
  dir :: "string \<rightharpoonup> nat"
  inodes :: "nat \<Rightarrow> bytes"
  next_inode :: nat
  script :: "outcome list"

text \<open>A descriptor is the inode it is open on; \<open>None\<close> is \<^verbatim>\<open>-1\<close>.\<close>

type_synonym fd = "nat option"

definition content :: "World \<Rightarrow> string \<rightharpoonup> bytes" where
  "content w path = map_option (inodes w) (dir w path)"

definition wf_world :: "World \<Rightarrow> bool" where
  "wf_world w \<longleftrightarrow> inj_on (dir w) (dom (dir w)) \<and> (\<forall>i \<in> ran (dir w). i < next_inode w)"

text \<open>An empty directory on a kernel that completes every call.\<close>

definition world0 :: World where
  "world0 = \<lparr>dir = Map.empty, inodes = (\<lambda>_. []), next_inode = 0, script = []\<rparr>"

section \<open>System calls\<close>

definition next_outcome :: "World \<Rightarrow> outcome \<times> World" where
  "next_outcome w = (case script w of [] \<Rightarrow> (Full, w) | r # rs \<Rightarrow> (r, w\<lparr>script := rs\<rparr>))"

definition failed :: "outcome \<Rightarrow> bool" where
  "failed r \<longleftrightarrow> r = Fail \<or> r = Eintr"

definition sys_open_creat :: "bool \<Rightarrow> string \<Rightarrow> World \<Rightarrow> fd \<times> World" where
  "sys_open_creat trunc path w0 =
     (let (r, w) = next_outcome w0
      in if failed r then (None, w)
         else case dir w path of
           Some i \<Rightarrow> (Some i, if trunc then w\<lparr>inodes := (inodes w)(i := [])\<rparr> else w)
         | None \<Rightarrow> (Some (next_inode w),
             w\<lparr>dir := (dir w)(path \<mapsto> next_inode w),
               inodes := (inodes w)(next_inode w := []), next_inode := Suc (next_inode w)\<rparr>))"

definition sys_open_rdonly :: "string \<Rightarrow> World \<Rightarrow> fd \<times> World" where
  "sys_open_rdonly path w0 =
     (let (r, w) = next_outcome w0 in (if failed r then None else dir w path, w))"

datatype wr_result = Wrote nat | WrEintr | WrErr

definition sys_write :: "nat \<Rightarrow> bytes \<Rightarrow> World \<Rightarrow> wr_result \<times> World" where
  "sys_write i p w0 =
     (let (r, w) = next_outcome w0
      in case r of
           Fail \<Rightarrow> (WrErr, w)
         | Eintr \<Rightarrow> (WrEintr, w)
         | Full \<Rightarrow> (Wrote (length p), w\<lparr>inodes := (inodes w)(i := inodes w i @ p)\<rparr>)
         | Short k \<Rightarrow> (let n = min (Suc k) (length p)
             in (Wrote n, w\<lparr>inodes := (inodes w)(i := inodes w i @ take n p)\<rparr>)))"

datatype rd_result = RdBytes bytes | RdEintr | RdErr

definition sys_pread :: "nat \<Rightarrow> nat \<Rightarrow> nat \<Rightarrow> World \<Rightarrow> rd_result \<times> World" where
  "sys_pread i n pos w0 =
     (let (r, w) = next_outcome w0
      in case r of
           Fail \<Rightarrow> (RdErr, w)
         | Eintr \<Rightarrow> (RdEintr, w)
         | Full \<Rightarrow> (RdBytes (sub pos n (inodes w i)), w)
         | Short k \<Rightarrow> (RdBytes (sub pos (min (Suc k) n) (inodes w i)), w))"

definition sys_fstat_size :: "nat \<Rightarrow> World \<Rightarrow> nat option \<times> World" where
  "sys_fstat_size i w0 =
     (let (r, w) = next_outcome w0 in (if r = Fail then None else Some (length (inodes w i)), w))"

definition sys_fdatasync :: "World \<Rightarrow> bool \<times> World" where
  "sys_fdatasync w0 = (let (r, w) = next_outcome w0 in (\<not> failed r, w))"

definition sys_rename :: "string \<Rightarrow> string \<Rightarrow> World \<Rightarrow> bool \<times> World" where
  "sys_rename old new w0 =
     (let (r, w) = next_outcome w0
      in if failed r then (False, w)
         else case dir w old of
           None \<Rightarrow> (False, w)
         | Some i \<Rightarrow> (True, w\<lparr>dir := (dir w)(old := None, new := Some i)\<rparr>))"

definition sys_unlink :: "string \<Rightarrow> World \<Rightarrow> World" where
  "sys_unlink path w0 =
     (let (r, w) = next_outcome w0 in if failed r then w else w\<lparr>dir := (dir w)(path := None)\<rparr>)"

section \<open>The write loop\<close>

lemma script_next_outcome: "length (script (snd (next_outcome w))) \<le> length (script w)"
  by (simp add: next_outcome_def split: list.splits)

lemma sys_write_progress:
  assumes "sys_write i p w = (r, w')" and "r \<noteq> WrErr" and "p \<noteq> []"
  shows "(case r of Wrote n \<Rightarrow> 0 < n \<and> n \<le> length p \<and> length (script w') \<le> length (script w)
           | _ \<Rightarrow> length (script w') < length (script w))"
  using assms
  by (auto simp: sys_write_def next_outcome_def Let_def split: list.splits outcome.splits)

text \<open>
  \<^verbatim>\<open>while (left > 0) { n = ::write(fd_, p, left); ... }\<close>: repeat after short writes and
  interrupts, stop at the first failure.  The result says whether everything was written,
  how many bytes were, and the world after.
\<close>

function write_all :: "nat \<Rightarrow> bytes \<Rightarrow> World \<Rightarrow> bool \<times> nat \<times> World" where
  "write_all i p w =
     (if p = [] then (True, 0, w)
      else case sys_write i p w of
        (WrErr, w') \<Rightarrow> (False, 0, w')
      | (WrEintr, w') \<Rightarrow> write_all i p w'
      | (Wrote n, w') \<Rightarrow>
          (let (fin, m, w'') = write_all i (drop n p) w' in (fin, n + m, w'')))"
  by pat_completeness auto
termination
  by (relation "measure (\<lambda>(i, p, w). length p + length (script w))")
    (auto dest!: sym [of _ "sys_write _ _ _"] sys_write_progress)

declare write_all.simps [simp del]

lemma write_all_Nil [simp]: "write_all i [] w = (True, 0, w)"
  by (simp add: write_all.simps)

text \<open>
  \<^verbatim>\<open>while (bytes_read < n) { r = ::read(...); ... }\<close>: the same loop for reading, from an
  explicit position.  It ends when everything asked for was read, at the end of the file, or
  at the first failure.
\<close>

datatype rd_end = RdAll | RdEof | RdFailed

lemma sys_pread_progress:
  assumes "sys_pread i n pos w = (r, w')" and "r \<noteq> RdErr"
  shows "(case r of RdBytes bs \<Rightarrow> length bs \<le> n \<and> length (script w') \<le> length (script w)
           | _ \<Rightarrow> length (script w') < length (script w))"
  using assms
  by (auto simp: sys_pread_def next_outcome_def Let_def split: list.splits outcome.splits)

function read_upto :: "nat \<Rightarrow> nat \<Rightarrow> nat \<Rightarrow> World \<Rightarrow> rd_end \<times> bytes \<times> World" where
  "read_upto i pos n w =
     (if n = 0 then (RdAll, [], w)
      else case sys_pread i n pos w of
        (RdErr, w') \<Rightarrow> (RdFailed, [], w')
      | (RdEintr, w') \<Rightarrow> read_upto i pos n w'
      | (RdBytes bs, w') \<Rightarrow>
          (if bs = [] then (RdEof, [], w')
           else let (e, rest, w'') = read_upto i (pos + length bs) (n - length bs) w'
             in (e, bs @ rest, w'')))"
  by pat_completeness auto
termination
  by (relation "measure (\<lambda>(i, pos, n, w). n + length (script w))")
    (auto dest!: sym [of _ "sys_pread _ _ _ _"] sys_pread_progress simp: neq_Nil_conv)

declare read_upto.simps [simp del]

section \<open>Helpers of src/env.h\<close>

definition FsyncFile :: "fd \<Rightarrow> World \<Rightarrow> Status \<times> World" where
  "FsyncFile fd w =
     (case fd of
        None \<Rightarrow> (IOError ''Invalid fd'', w)
      | Some _ \<Rightarrow> (let (good, w') = sys_fdatasync w
          in (if good then OK else IOError ''fdatasync failed: '', w')))"

text \<open>The result of \<^verbatim>\<open>fsync\<close> on the directory is not looked at.\<close>

definition SyncDirectory :: "string \<Rightarrow> World \<Rightarrow> Status \<times> World" where
  "SyncDirectory dirpath w =
     (let (r, w1) = next_outcome w
      in if failed r then (IOError ''Failed to open directory for sync: '', w1)
         else (let (_, w2) = sys_fdatasync w1 in (OK, w2)))"

definition current_line :: "u64 \<Rightarrow> bytes" where
  "current_line manifest_number = map of_char (take 63 (''MANIFEST-'' @ fmt06 manifest_number @ [CHR 10]))"

definition SetCurrentFile :: "string \<Rightarrow> u64 \<Rightarrow> World \<Rightarrow> Status \<times> World" where
  "SetCurrentFile dbname manifest_number w =
     (let manifest_name = current_line manifest_number;
          tmp_file = CurrentFileName dbname @ ''.tmp'';
          (fd, w1) = sys_open_creat True tmp_file w
      in case fd of
           None \<Rightarrow> (IOError ''Failed to create temporary CURRENT file: '', w1)
         | Some i \<Rightarrow>
             (let (r, w2) = sys_write i manifest_name w1
              in if r \<noteq> Wrote (length manifest_name)
                 then (IOError ''Failed to write to temporary CURRENT file'', w2)
                 else let (s, w3) = FsyncFile (Some i) w2
                   in if \<not> ok s then (s, w3)
                      else let (renamed, w4) = sys_rename tmp_file (CurrentFileName dbname) w3
                        in if \<not> renamed
                           then (IOError ''Failed to rename temporary CURRENT file: '', w4)
                           else SyncDirectory dbname w4))"

section \<open>What the calls do to files\<close>

definition outcome_of :: "World \<Rightarrow> outcome" where
  "outcome_of w = (case script w of [] \<Rightarrow> Full | r # _ \<Rightarrow> r)"

lemma next_outcome_eq: "next_outcome w = (outcome_of w, w\<lparr>script := tl (script w)\<rparr>)"
  by (cases w) (simp add: next_outcome_def outcome_of_def split: list.splits)

lemma outcome_of_idle [simp]: "script w = [] \<Longrightarrow> outcome_of w = Full"
  by (simp add: outcome_of_def)

lemma failed_simps [simp]: "\<not> failed Full" "\<not> failed (Short k)" "failed Eintr" "failed Fail"
  by (simp_all add: failed_def)

lemma content_script [simp]:
  "content (w\<lparr>script := x\<rparr>) = content w" "wf_world (w\<lparr>script := x\<rparr>) = wf_world w"
  by (simp_all add: content_def [abs_def] wf_world_def)

lemma world0_simps [simp]:
  "wf_world world0" "content world0 p = None" "script world0 = []" "dir world0 p = None"
  by (simp_all add: world0_def wf_world_def content_def)

lemma wf_world_inode_unique:
  "wf_world w \<Longrightarrow> dir w p = Some i \<Longrightarrow> dir w q = Some i \<Longrightarrow> p = q"
  by (auto simp: wf_world_def inj_on_def dom_def)

lemma wf_world_fresh: "wf_world w \<Longrightarrow> dir w p \<noteq> Some (next_inode w)"
  by (fastforce simp: wf_world_def ran_def)

text \<open>
  The effect of a call on named files: only the file of the given path may change.
\<close>

definition only_changes :: "string set \<Rightarrow> World \<Rightarrow> World \<Rightarrow> bool" where
  "only_changes P w w' \<longleftrightarrow> (\<forall>q. q \<notin> P \<longrightarrow> dir w' q = dir w q \<and> content w' q = content w q)"

lemma only_changes_refl [simp]: "only_changes P w w"
  by (simp add: only_changes_def)

lemma only_changes_trans:
  "only_changes P w w' \<Longrightarrow> only_changes Q w' w'' \<Longrightarrow> only_changes (P \<union> Q) w w''"
  by (simp add: only_changes_def)

lemma only_changes_mono: "only_changes P w w' \<Longrightarrow> P \<subseteq> Q \<Longrightarrow> only_changes Q w w'"
  by (auto simp: only_changes_def)

lemma only_changes_script [simp]:
  "only_changes P w (w'\<lparr>script := x\<rparr>) = only_changes P w w'"
  "only_changes P (w\<lparr>script := x\<rparr>) w' = only_changes P w w'"
  by (simp_all add: only_changes_def)

lemma inode_update:
  assumes "wf_world w" and "dir w path = Some i"
  shows "wf_world (w\<lparr>inodes := (inodes w)(i := c)\<rparr>)"
    and "only_changes {path} w (w\<lparr>inodes := (inodes w)(i := c)\<rparr>)"
    and "content (w\<lparr>inodes := (inodes w)(i := c)\<rparr>) path = Some c"
proof -
  show "wf_world (w\<lparr>inodes := (inodes w)(i := c)\<rparr>)" using assms by (simp add: wf_world_def)
  show "content (w\<lparr>inodes := (inodes w)(i := c)\<rparr>) path = Some c"
    using assms by (simp add: content_def)
  have "dir w q \<noteq> Some i" if "q \<noteq> path" for q
    using wf_world_inode_unique [OF assms] that by blast
  then show "only_changes {path} w (w\<lparr>inodes := (inodes w)(i := c)\<rparr>)"
    by (auto simp: only_changes_def content_def map_option_case split: option.splits)
qed

lemma sys_open_creat_effect:
  assumes "wf_world w" and "sys_open_creat trunc path w = (fd, w')"
  shows "wf_world w'" and "only_changes {path} w w'"
    and "fd = None \<Longrightarrow> content w' = content w \<and> dir w' = dir w"
    and "fd = Some i \<Longrightarrow> dir w' path = Some i"
    and "fd = Some i \<Longrightarrow> content w' path =
           Some (if trunc then [] else case content w path of None \<Rightarrow> [] | Some c \<Rightarrow> c)"
proof -
  let ?w = "w\<lparr>script := tl (script w)\<rparr>"
  consider (bad) "failed (outcome_of w)" "fd = None" "w' = ?w"
    | (old) i where "dir w path = Some i" "fd = Some i"
        "w' = (if trunc then ?w\<lparr>inodes := (inodes w)(i := [])\<rparr> else ?w)"
    | (new) "dir w path = None" "fd = Some (next_inode w)"
        "w' = ?w\<lparr>dir := (dir w)(path \<mapsto> next_inode w),
           inodes := (inodes w)(next_inode w := []), next_inode := Suc (next_inode w)\<rparr>"
    using assms(2)
    by (auto simp: sys_open_creat_def next_outcome_eq split: option.splits if_splits)
  note cases = this
  have fresh: "dir w q \<noteq> Some (next_inode w)" for q using assms(1) by (rule wf_world_fresh)
  from cases show "wf_world w'"
  proof cases
    case new
    show ?thesis
      unfolding wf_world_def
    proof
      show "inj_on (dir w') (dom (dir w'))"
        using assms(1) fresh new by (auto simp: wf_world_def inj_on_def dom_def)
      show "\<forall>i\<in>ran (dir w'). i < next_inode w'"
        using assms(1) new by (auto simp: wf_world_def ran_def split: if_splits)
    qed
  qed (use assms(1) inode_update [OF assms(1)] in \<open>auto simp: wf_world_def\<close>)
  from cases show "only_changes {path} w w'"
  proof cases
    case (old i)
    then show ?thesis using inode_update(2) [of ?w path i "[]"] assms(1) by simp
  qed (use fresh in \<open>auto simp: only_changes_def content_def map_option_case split: option.splits\<close>)
  from cases show "fd = None \<Longrightarrow> content w' = content w \<and> dir w' = dir w"
    by cases auto
  from cases show "fd = Some i \<Longrightarrow> dir w' path = Some i" by cases auto
  from cases show "fd = Some i \<Longrightarrow> content w' path =
           Some (if trunc then [] else case content w path of None \<Rightarrow> [] | Some c \<Rightarrow> c)"
    by cases (auto simp: content_def)
qed

fun wr_count :: "wr_result \<Rightarrow> nat" where
  "wr_count (Wrote n) = n"
| "wr_count _ = 0"

lemma sys_write_eq:
  assumes "sys_write i p w = (r, w')"
  shows "wr_count r \<le> length p"
    and "w' = w\<lparr>script := tl (script w), inodes := (inodes w)(i := inodes w i @ take (wr_count r) p)\<rparr>"
  using assms by (cases "outcome_of w"; auto simp: sys_write_def next_outcome_eq Let_def)+

lemma sys_write_effect:
  assumes "wf_world w" and "dir w path = Some i" and "sys_write i p w = (r, w')"
  shows "wf_world w'" and "only_changes {path} w w'" and "dir w' = dir w"
    and "inodes w' i = inodes w i @ take (wr_count r) p"
    and "content w' path = Some (inodes w i @ take (wr_count r) p)"
  using inode_update [of "w\<lparr>script := tl (script w)\<rparr>" path i "inodes w i @ take (wr_count r) p"]
    sys_write_eq [OF assms(3)] assms(1,2)
  by simp_all

lemma write_all_effect:
  assumes "write_all i p w = (fin, n, w')" and "wf_world w" and "dir w path = Some i"
  shows "n \<le> length p \<and> (fin \<longleftrightarrow> n = length p) \<and> wf_world w' \<and> only_changes {path} w w'
    \<and> dir w' = dir w \<and> inodes w' i = inodes w i @ take n p"
  using assms
proof (induction i p w arbitrary: fin n w' rule: write_all.induct)
  case (1 i p w)
  show ?case
  proof (cases "p = []")
    case True
    with "1.prems" show ?thesis by (auto simp: write_all.simps [of i p w])
  next
    case False
    obtain r w1 where r: "sys_write i p w = (r, w1)" by fastforce
    note eff = sys_write_effect [OF "1.prems"(2,3) r]
    show ?thesis
    proof (cases r)
      case (Wrote m)
      have m: "m \<le> length p" "0 < m"
        using sys_write_eq(1) [OF r] sys_write_progress [OF r] Wrote False by auto
      obtain n' w2 where rec: "write_all i (drop m p) w1 = (fin, n', w2)"
          "n = m + n'" "w' = w2"
        using "1.prems"(1) r Wrote False by (auto simp: write_all.simps [of i p w] split: prod.splits)
      have "n' \<le> length (drop m p) \<and> (fin \<longleftrightarrow> n' = length (drop m p)) \<and> wf_world w2 \<and>
          only_changes {path} w1 w2 \<and> dir w2 = dir w1 \<and> inodes w2 i = inodes w1 i @ take n' (drop m p)"
        by (rule "1.IH"(1) [OF False r [symmetric] Wrote rec(1)]) (use eff "1.prems"(3) in auto)
      then show ?thesis
        using eff Wrote rec m only_changes_trans [of "{path}" w w1 "{path}" w2]
        by (auto simp: take_add)
    next
      case WrEintr
      have "write_all i p w1 = (fin, n, w')"
        using "1.prems"(1) r WrEintr False by (simp add: write_all.simps [of i p w])
      then show ?thesis
        using "1.IH"(2) [OF False r [symmetric] WrEintr, of fin n w'] eff "1.prems"(3) WrEintr
          only_changes_trans [of "{path}" w w1 "{path}" w'] by auto
    next
      case WrErr
      then show ?thesis
        using "1.prems"(1) r False eff by (auto simp: write_all.simps [of i p w])
    qed
  qed
qed

lemma write_all_inode:
  assumes "write_all i p w = (fin, n, w')"
  shows "\<exists>x. w' = w\<lparr>script := x, inodes := (inodes w)(i := inodes w i @ take n p)\<rparr> \<and> set x \<subseteq> set (script w)
    \<and> n \<le> length p \<and> (fin \<longleftrightarrow> n = length p) \<and> (Fail \<notin> set (script w) \<longrightarrow> fin)"
  using assms
proof (induction i p w arbitrary: fin n w' rule: write_all.induct)
  case (1 i p w)
  show ?case
  proof (cases "p = []")
    case True
    with "1.prems" show ?thesis by (auto simp: write_all.simps [of i p w] intro!: exI [of _ "script w"])
  next
    case False
    obtain r w1 where r: "sys_write i p w = (r, w1)" by fastforce
    note eff = sys_write_eq [OF r]
    have tl: "set (tl (script w)) \<subseteq> set (script w)" by (cases "script w") auto
    show ?thesis
    proof (cases r)
      case (Wrote m)
      have m: "m \<le> length p" "0 < m"
        using eff(1) sys_write_progress [OF r] Wrote False by auto
      obtain n' w2 where rec: "write_all i (drop m p) w1 = (fin, n', w2)" "n = m + n'" "w' = w2"
        using "1.prems" r Wrote False by (auto simp: write_all.simps [of i p w] split: prod.splits)
      obtain x where x: "w2 = w1\<lparr>script := x, inodes := (inodes w1)(i := inodes w1 i @ take n' (drop m p))\<rparr>"
          "set x \<subseteq> set (script w1)" "n' \<le> length (drop m p)" "fin \<longleftrightarrow> n' = length (drop m p)"
          "Fail \<notin> set (script w1) \<longrightarrow> fin"
        using "1.IH"(1) [OF False r [symmetric] Wrote rec(1)] by blast
      have "w' = w\<lparr>script := x, inodes := (inodes w)(i := inodes w i @ take n p)\<rparr>"
        using x(1) rec(2,3) eff(2) Wrote by (simp add: take_add)
      moreover have "set x \<subseteq> set (script w)" "Fail \<notin> set (script w) \<longrightarrow> fin"
        using x eff(2) tl by auto
      moreover have "n \<le> length p" "fin \<longleftrightarrow> n = length p" using x(3,4) rec(2) m by auto
      ultimately show ?thesis by blast
    next
      case WrEintr
      have "write_all i p w1 = (fin, n, w')"
        using "1.prems" r WrEintr False by (simp add: write_all.simps [of i p w])
      then obtain x where x: "w' = w1\<lparr>script := x, inodes := (inodes w1)(i := inodes w1 i @ take n p)\<rparr>"
          "set x \<subseteq> set (script w1)" "n \<le> length p" "fin \<longleftrightarrow> n = length p"
          "Fail \<notin> set (script w1) \<longrightarrow> fin"
        using "1.IH"(2) [OF False r [symmetric] WrEintr] by blast
      have "w' = w\<lparr>script := x, inodes := (inodes w)(i := inodes w i @ take n p)\<rparr>"
        using x(1) eff(2) WrEintr by simp
      moreover have "set x \<subseteq> set (script w)" "Fail \<notin> set (script w) \<longrightarrow> fin"
        using x eff(2) tl by auto
      ultimately show ?thesis using x(3,4) by blast
    next
      case WrErr
      have "w' = w1" "\<not> fin" "n = 0"
        using "1.prems" r False WrErr by (simp_all add: write_all.simps [of i p w])
      moreover have "Fail \<in> set (script w)"
        using r WrErr by (cases "script w"; cases "outcome_of w")
          (auto simp: sys_write_def next_outcome_eq outcome_of_def Let_def)
      ultimately show ?thesis
        using eff(2) WrErr tl False by (intro exI [of _ "tl (script w)"]) simp
    qed
  qed
qed

lemma write_all_idle:
  "script w = [] \<Longrightarrow> p \<noteq> [] \<Longrightarrow>
     write_all i p w = (True, length p, w\<lparr>inodes := (inodes w)(i := inodes w i @ p)\<rparr>)"
proof -
  assume a: "script w = []" "p \<noteq> []"
  then have "sys_write i p w = (Wrote (length p), w\<lparr>inodes := (inodes w)(i := inodes w i @ p)\<rparr>)"
    by (cases w) (simp add: sys_write_def next_outcome_eq)
  then show ?thesis using a by (subst write_all.simps) simp
qed

lemma sys_rename_effect:
  assumes "wf_world w" and "sys_rename old new w = (b, w')" and "old \<noteq> new"
  shows "wf_world w'" and "only_changes {old, new} w w'"
    and "\<not> b \<Longrightarrow> content w' = content w"
    and "b \<Longrightarrow> content w' new = content w old"
proof -
  consider (bad) "\<not> b" "w' = w\<lparr>script := tl (script w)\<rparr>"
    | (good) i where "b" "dir w old = Some i"
        "w' = w\<lparr>dir := (dir w)(old := None, new := Some i), script := tl (script w)\<rparr>"
    using assms(2)
    by (auto simp: sys_rename_def next_outcome_eq split: if_splits option.splits)
  note cases = this
  from cases show "wf_world w'"
  proof cases
    case (good i)
    have inj: "dir w p = Some j \<Longrightarrow> dir w q = Some j \<Longrightarrow> p = q" for p q j
      using assms(1) by (rule wf_world_inode_unique)
    show ?thesis
      unfolding wf_world_def
    proof
      show "inj_on (dir w') (dom (dir w'))"
        using good inj [of _ i old] inj by (auto simp: inj_on_def dom_def split: if_splits)
      show "\<forall>i\<in>ran (dir w'). i < next_inode w'"
        using assms(1) good by (auto simp: wf_world_def ran_def split: if_splits)
    qed
  qed (use assms(1) in simp)
  from cases show "only_changes {old, new} w w'"
    by cases (auto simp: only_changes_def content_def)
  from cases show "\<not> b \<Longrightarrow> content w' = content w" by cases auto
  from cases show "b \<Longrightarrow> content w' new = content w old"
    by cases (auto simp: content_def)
qed

text \<open>
  Reading never changes a file; what it returns is what the file holds, however the kernel
  cuts it into pieces, and it stops early only at the end of the file or on a failure.
\<close>

lemma sys_pread_eq:
  assumes "sys_pread i n pos w = (r, w')"
  shows "w' = w\<lparr>script := tl (script w)\<rparr>"
    and "r = RdBytes bs \<Longrightarrow> \<exists>m. bs = sub pos m (inodes w i) \<and> m \<le> n \<and> (0 < n \<longrightarrow> 0 < m)"
    and "r = RdErr \<longleftrightarrow> outcome_of w = Fail"
proof -
  have eq: "sys_pread i n pos w =
      (case outcome_of w of Fail \<Rightarrow> RdErr | Eintr \<Rightarrow> RdEintr | Full \<Rightarrow> RdBytes (sub pos n (inodes w i))
         | Short k \<Rightarrow> RdBytes (sub pos (min (Suc k) n) (inodes w i)), w\<lparr>script := tl (script w)\<rparr>)"
    by (simp add: sys_pread_def next_outcome_eq split: outcome.split)
  show "w' = w\<lparr>script := tl (script w)\<rparr>" using assms eq by simp
  show "r = RdErr \<longleftrightarrow> outcome_of w = Fail"
    using assms eq by (auto split: outcome.splits)
  assume r: "r = RdBytes bs"
  show "\<exists>m. bs = sub pos m (inodes w i) \<and> m \<le> n \<and> (0 < n \<longrightarrow> 0 < m)"
  proof (cases "outcome_of w")
    case Full
    then show ?thesis using assms eq r by (intro exI [of _ n]) simp
  next
    case (Short k)
    then show ?thesis using assms eq r by (intro exI [of _ "min (Suc k) n"]) simp
  qed (use assms eq r in simp_all)
qed

lemma in_set_tlD: "x \<in> set (tl xs) \<Longrightarrow> x \<in> set xs"
  by (cases xs) auto

lemma outcome_of_Fail: "outcome_of w = Fail \<Longrightarrow> Fail \<in> set (script w)"
  by (auto simp: outcome_of_def split: list.splits)

lemma read_upto_effect:
  assumes "read_upto i pos n w = (e, bs, w')"
  shows "\<exists>x. w' = w\<lparr>script := x\<rparr> \<and> set x \<subseteq> set (script w)
    \<and> sub pos (length bs) (inodes w i) = bs \<and> length bs \<le> n
    \<and> (e = RdAll \<longrightarrow> length bs = n) \<and> (e = RdEof \<longrightarrow> length bs < n \<and> length (inodes w i) \<le> pos + length bs)
    \<and> (e = RdFailed \<longrightarrow> Fail \<in> set (script w))"
  using assms
proof (induction i pos n w arbitrary: e bs w' rule: read_upto.induct)
  case (1 i pos n w)
  show ?case
  proof (cases "n = 0")
    case True
    with "1.prems" show ?thesis
      by (intro exI [of _ "script w"]) (auto simp: read_upto.simps [of i pos])
  next
    case False
    obtain r w1 where r: "sys_pread i n pos w = (r, w1)" by fastforce
    note eq = sys_pread_eq [OF r]
    have sub1: "set (script w1) \<subseteq> set (script w)" using eq(1) in_set_tlD by auto
    show ?thesis
    proof (cases r)
      case (RdBytes cs)
      obtain m where m: "cs = sub pos m (inodes w i)" "m \<le> n" "0 < m"
        using eq(2) [OF RdBytes] False by auto
      show ?thesis
      proof (cases "cs = []")
        case True
        then have "length (inodes w i) \<le> pos" using m by (simp add: sub_def)
        with "1.prems" r RdBytes True False eq(1) show ?thesis
          by (intro exI [of _ "tl (script w)"])
            (auto simp: read_upto.simps [of i pos n w] dest: in_set_tlD)
      next
        case ne: False
        obtain rest w2 where rec: "read_upto i (pos + length cs) (n - length cs) w1 = (e, rest, w2)"
            "bs = cs @ rest" "w' = w2"
          using "1.prems" r RdBytes False ne
          by (auto simp: read_upto.simps [of i pos n w] split: prod.splits)
        obtain x where x: "w2 = w1\<lparr>script := x\<rparr>" "set x \<subseteq> set (script w1)"
            "sub (pos + length cs) (length rest) (inodes w1 i) = rest" "length rest \<le> n - length cs"
            "e = RdAll \<longrightarrow> length rest = n - length cs"
            "e = RdEof \<longrightarrow> length rest < n - length cs \<and> length (inodes w1 i) \<le> pos + length cs + length rest"
            "e = RdFailed \<longrightarrow> Fail \<in> set (script w1)"
          using "1.IH"(1) [OF False r [symmetric] RdBytes ne rec(1)] by blast
        have len: "length cs \<le> n" using m by simp
        have cs: "take (length cs) (drop pos (inodes w i)) = cs"
          using sub_length_sub [of pos m "inodes w i"] m(1) by (simp only: sub_def)
        have "sub pos (length cs + length rest) (inodes w i) = cs @ rest"
          using cs x(3) eq(1) by (simp add: sub_def take_add add.commute)
        with x rec sub1 eq(1) len show ?thesis
          by (intro exI [of _ x]) auto
      qed
    next
      case RdEintr
      have "read_upto i pos n w1 = (e, bs, w')"
        using "1.prems" r RdEintr False by (simp add: read_upto.simps [of i pos n w])
      from "1.IH"(2) [OF False r [symmetric] RdEintr this] eq(1) sub1
      show ?thesis by auto
    next
      case RdErr
      with "1.prems" r False eq outcome_of_Fail [of w] show ?thesis
        by (intro exI [of _ "tl (script w)"])
          (auto simp: read_upto.simps [of i pos n w] dest: in_set_tlD)
    qed
  qed
qed

text \<open>Without failures the loop is a plain read.\<close>

lemma read_upto_no_fail:
  assumes "Fail \<notin> set (script w)"
  shows "\<exists>x. read_upto i pos n w =
      (if pos + n \<le> length (inodes w i) \<or> n = 0 then RdAll else RdEof, sub pos n (inodes w i), w\<lparr>script := x\<rparr>)
    \<and> Fail \<notin> set x"
proof -
  obtain e bs w' where r: "read_upto i pos n w = (e, bs, w')" by (metis prod_cases3)
  from read_upto_effect [OF r] obtain x where x: "w' = w\<lparr>script := x\<rparr>" "set x \<subseteq> set (script w)"
      "sub pos (length bs) (inodes w i) = bs" "length bs \<le> n" "e = RdAll \<longrightarrow> length bs = n"
      "e = RdEof \<longrightarrow> length bs < n \<and> length (inodes w i) \<le> pos + length bs"
      "e \<noteq> RdFailed" using assms by blast
  have lb: "length bs \<le> length (inodes w i) - pos"
    using arg_cong [OF x(3), of length] by simp
  have "bs = sub pos n (inodes w i) \<and> e = (if pos + n \<le> length (inodes w i) \<or> n = 0 then RdAll else RdEof)"
  proof (cases e)
    case RdAll
    then show ?thesis using x(3,5) lb by auto
  next
    case RdEof
    then have "length (drop pos (inodes w i)) \<le> length bs" "length bs < n" using x(6) by auto
    then have "take n (drop pos (inodes w i)) = take (length bs) (drop pos (inodes w i))" by simp
    then show ?thesis using RdEof x(3,6) by (auto simp: sub_def)
  next
    case RdFailed
    then show ?thesis using x(7) by simp
  qed
  then show ?thesis using r x(1,2) assms by auto
qed

lemma FsyncFile_world: "FsyncFile fd w = (s, w') \<Longrightarrow> \<exists>x. w' = w\<lparr>script := x\<rparr>"
  by (cases w) (auto simp: FsyncFile_def sys_fdatasync_def next_outcome_eq split: option.splits)

lemma SyncDirectory_world: "SyncDirectory d w = (s, w') \<Longrightarrow> \<exists>x. w' = w\<lparr>script := x\<rparr>"
  by (cases w) (auto simp: SyncDirectory_def sys_fdatasync_def next_outcome_eq split: if_splits)

lemma content_only_changes:
  "only_changes P w w' \<Longrightarrow> q \<notin> P \<Longrightarrow> content w' q = content w q"
  by (simp add: only_changes_def)

lemma SetCurrentFile_effect:
  assumes "wf_world w" and "SetCurrentFile dbname n w = (s, w')"
  shows "wf_world w'"
    and "only_changes {CurrentFileName dbname @ ''.tmp'', CurrentFileName dbname} w w'"
    and "content w' (CurrentFileName dbname) = content w (CurrentFileName dbname)
         \<or> content w' (CurrentFileName dbname) = Some (current_line n)"
    and "ok s \<Longrightarrow> content w' (CurrentFileName dbname) = Some (current_line n)"
proof -
  let ?tmp = "CurrentFileName dbname @ ''.tmp''" and ?cur = "CurrentFileName dbname"
  let ?line = "current_line n"
  let ?G = "wf_world w' \<and> only_changes {?tmp, ?cur} w w' \<and>
    (content w' ?cur = content w ?cur \<or> content w' ?cur = Some ?line) \<and>
    (ok s \<longrightarrow> content w' ?cur = Some ?line)"
  obtain fd w1 where op: "sys_open_creat True ?tmp w = (fd, w1)" by fastforce
  note e1 = sys_open_creat_effect [OF assms(1) op]
  have c1: "content w1 ?cur = content w ?cur"
    using content_only_changes [OF e1(2)] by simp
  have "?G"
  proof (cases fd)
    case None
    with assms(2) op e1 c1 show ?thesis
      by (auto simp: SetCurrentFile_def Let_def intro: only_changes_mono)
  next
    case (Some i)
    obtain r w2 where wr: "sys_write i ?line w1 = (r, w2)" by fastforce
    note d1 = e1(4) [OF Some]
    note e2 = sys_write_effect [OF e1(1) d1 wr]
    have oc2: "only_changes {?tmp} w w2" using only_changes_trans [OF e1(2) e2(2)] by simp
    have c2: "content w2 ?cur = content w ?cur"
      using content_only_changes [OF oc2] by simp
    show ?thesis
    proof (cases "r = Wrote (length ?line)")
      case False
      with assms(2) op Some wr e2 c2 oc2 show ?thesis
        by (auto simp: SetCurrentFile_def Let_def intro: only_changes_mono)
    next
      case True
      have t2: "content w2 ?tmp = Some ?line"
        using e2(5) True e1(5) [OF Some] d1 by (simp add: content_def)
      obtain s3 w3 where fs: "FsyncFile (Some i) w2 = (s3, w3)" by fastforce
      obtain x where x: "w3 = w2\<lparr>script := x\<rparr>" using FsyncFile_world [OF fs] by blast
      obtain b w4 where rn: "sys_rename ?tmp ?cur w3 = (b, w4)" by fastforce
      have wf3: "wf_world w3" using x e2(1) by simp
      note e4 = sys_rename_effect [OF wf3 rn]
      have oc4: "only_changes {?tmp, ?cur} w w4"
        using oc2 e4(2) x by (auto simp: only_changes_def)
      obtain s5 w5 where sd: "SyncDirectory dbname w4 = (s5, w5)" by fastforce
      obtain y where y: "w5 = w4\<lparr>script := y\<rparr>" using SyncDirectory_world [OF sd] by blast
      consider "\<not> ok s3" "s = s3" "w' = w3" | "\<not> b" "\<not> ok s" "w' = w4" | "b" "w' = w5"
        using assms(2) op Some wr True fs rn sd
        by (auto simp: SetCurrentFile_def Let_def split: if_splits)
      then show ?thesis
        using x y oc2 oc4 c2 t2 wf3 e4 by cases (auto intro: only_changes_mono)
    qed
  qed
  then show "wf_world w'" "only_changes {?tmp, ?cur} w w'"
    "content w' ?cur = content w ?cur \<or> content w' ?cur = Some ?line"
    "ok s \<Longrightarrow> content w' ?cur = Some ?line" by simp_all
qed

section \<open>Properties\<close>

text \<open>C4: Replacing CURRENT is atomic whatever the kernel does to each call: afterwards CURRENT
  either has the contents it had before or names the new manifest, a status of OK means the
  new manifest, and no file but CURRENT and its temporary is touched.\<close>

theorem set_current_file_atomic:
  assumes "wf_world w" and "SetCurrentFile dbname n w = (s, w')"
  shows "(content w' (CurrentFileName dbname) = content w (CurrentFileName dbname)
          \<or> content w' (CurrentFileName dbname) = Some (current_line n))
       \<and> (ok s \<longrightarrow> content w' (CurrentFileName dbname) = Some (current_line n))
       \<and> (\<forall>p. p \<noteq> CurrentFileName dbname \<and> p \<noteq> CurrentFileName dbname @ ''.tmp''
            \<longrightarrow> content w' p = content w p)"
  using SetCurrentFile_effect [OF assms] by (auto simp: only_changes_def)

theorem set_current_file_atomic_witness:
  "\<not> ok (fst (SetCurrentFile ''d'' 7 (world0\<lparr>script := [Full, Full, Full, Fail]\<rparr>)))
     \<and> content (snd (SetCurrentFile ''d'' 7 (world0\<lparr>script := [Full, Full, Full, Fail]\<rparr>))) ''d/CURRENT'' = None
     \<and> content (snd (SetCurrentFile ''d'' 7 (world0\<lparr>script := [Full, Full, Full, Fail]\<rparr>))) ''d/LOCK'' = None"
proof -
  let ?w = "world0\<lparr>script := [Full, Full, Full, Fail]\<rparr>"
  let ?r = "SetCurrentFile ''d'' 7 ?w"
  have wf: "wf_world ?w" by (simp add: wf_world_def world0_def)
  have bad: "\<not> ok (fst ?r)" by code_simp
  have cur: "content (snd ?r) ''d/CURRENT'' = None" by code_simp
  have "content (snd ?r) ''d/LOCK'' = content ?w ''d/LOCK''"
    using set_current_file_atomic [OF wf, of "''d''" 7 "fst ?r" "snd ?r"]
    by (simp add: CurrentFileName_def)
  also have "\<dots> = None" by (simp add: content_def world0_def)
  finally show ?thesis using bad cur by (intro conjI)
qed

end
