(* ===== verification/Wal.thy ===== *)
theory Wal
  imports Env Coding Crc32 Slice_Format
begin

text \<open>
  The write-ahead log (src/wal.h, src/wal.cc).  A record on disk is a frame: an 8-byte
  header (CRC-32 of the payload, payload length) and the payload (type, sequence number,
  key, value).  \<open>AppendRecord\<close> writes header and payload with the write loop of the
  source; \<open>ReadRecord\<close> follows the source statement by statement, including its 32-bit
  arithmetic on lengths and the read that this arithmetic lets run past the payload.
  \<open>read_log\<close> is the loop with which recovery and the manifest reader consume a log.
\<close>

section \<open>Writer\<close>

record WalWriter =
  ww_filename :: string
  ww_fd :: fd
  ww_file_size :: u64

definition WalWriter_new :: "string \<Rightarrow> World \<Rightarrow> WalWriter \<times> World" where
  "WalWriter_new filename w =
     (let (fd, w1) = sys_open_creat False filename w
      in case fd of
           None \<Rightarrow> (\<lparr>ww_filename = filename, ww_fd = None, ww_file_size = 0\<rparr>, w1)
         | Some i \<Rightarrow>
             (let (size, w2) = sys_fstat_size i w1
              in (\<lparr>ww_filename = filename, ww_fd = Some i,
                   ww_file_size = (case size of None \<Rightarrow> 0 | Some n \<Rightarrow> of_nat n)\<rparr>, w2)))"

definition WalWriter_Sync :: "WalWriter \<Rightarrow> World \<Rightarrow> Status \<times> World" where
  "WalWriter_Sync ww w =
     (case ww_fd ww of
        None \<Rightarrow> (IOError ''WAL file is not open: '', w)
      | Some _ \<Rightarrow> (let (good, w') = sys_fdatasync w
          in (if good then OK else IOError ''fdatasync failed: '', w')))"

definition WalWriter_Close :: "WalWriter \<Rightarrow> WalWriter" where
  "WalWriter_Close ww = ww\<lparr>ww_fd := None\<rparr>"

definition wal_payload :: "SequenceNumber \<Rightarrow> ValueType \<Rightarrow> bytes \<Rightarrow> bytes \<Rightarrow> bytes" where
  "wal_payload seq type key val =
     PutFixed32 (PutFixed32 (PutFixed64 [type] seq) (of_nat (length key)) @ key)
       (of_nat (length val)) @ val"

definition wal_header :: "bytes \<Rightarrow> bytes" where
  "wal_header payload = EncodeFixed32 (Crc32 payload 0) @ EncodeFixed32 (of_nat (length payload))"

definition AppendRecord ::
  "WalWriter \<Rightarrow> SequenceNumber \<Rightarrow> ValueType \<Rightarrow> bytes \<Rightarrow> bytes \<Rightarrow> bool \<Rightarrow> World
     \<Rightarrow> Status \<times> WalWriter \<times> World" where
  "AppendRecord ww seq type key val sync w =
     (case ww_fd ww of
        None \<Rightarrow> (IOError ''WAL file is not open: '', ww, w)
      | Some i \<Rightarrow>
          (let payload = wal_payload seq type key val;
               header = wal_header payload;
               (good1, n1, w1) = write_all i header w;
               ww1 = ww\<lparr>ww_file_size := ww_file_size ww + of_nat n1\<rparr>
           in if \<not> good1 then (IOError ''WAL write failed: '', ww1, w1)
              else let (good2, n2, w2) = write_all i payload w1;
                       ww2 = ww1\<lparr>ww_file_size := ww_file_size ww1 + of_nat n2\<rparr>
                in if \<not> good2 then (IOError ''WAL write failed: '', ww2, w2)
                   else if sync then let (s, w3) = WalWriter_Sync ww2 w2 in (s, ww2, w3)
                   else (OK, ww2, w2)))"

section \<open>Reader\<close>

record WalReader =
  wr_fd :: fd
  wr_pos :: nat

definition WalReader_new :: "string \<Rightarrow> World \<Rightarrow> WalReader \<times> World" where
  "WalReader_new filename w =
     (let (fd, w1) = sys_open_rdonly filename w in (\<lparr>wr_fd = fd, wr_pos = 0\<rparr>, w1))"

type_synonym wal_rec = "SequenceNumber \<times> ValueType \<times> bytes \<times> bytes"

text \<open>
  What a call of \<open>ReadRecord\<close> comes to: a record, a status that is not OK, or a read
  outside the payload buffer, which C++ leaves undefined.
\<close>

datatype read_result = ReadOk wal_rec | ReadErr Status | ReadUndefined

definition kMaxRecordSize :: u32 where "kMaxRecordSize = 64 * 1024 * 1024"

definition parse_payload :: "bytes \<Rightarrow> read_result" where
  "parse_payload payload =
     (if length payload < 1 + 8 + 4 + 4
      then ReadErr (Corruption ''WAL payload too small for fields'')
      else let type = payload ! 0;
               seq = DecodeFixed64 (drop 1 payload);
               klen = DecodeFixed32 (drop 9 payload)
        in if length payload < unat (1 + 8 + 4 + klen + 4)
           then ReadErr (Corruption ''WAL payload truncated before key/val_len'')
           else if length payload < 13 + unat klen + 4 then ReadUndefined
           else let key = sub 13 (unat klen) payload;
                    vlen = DecodeFixed32 (drop (13 + unat klen) payload)
             in if length payload < unat (1 + 8 + 4 + klen + 4 + vlen)
                then ReadErr (Corruption ''WAL payload truncated before value'')
                else ReadOk (seq, type, key, sub (unat (17 + klen)) (unat vlen) payload))"

definition IsAtEof :: "nat \<Rightarrow> nat \<Rightarrow> World \<Rightarrow> bool \<times> World" where
  "IsAtEof i cur w =
     (let (st, w') = sys_fstat_size i w
      in (case st of None \<Rightarrow> False | Some st_size \<Rightarrow> cur \<ge> st_size, w'))"

definition ReadRecord :: "bool \<Rightarrow> WalReader \<Rightarrow> World \<Rightarrow> read_result \<times> WalReader \<times> World" where
  "ReadRecord allow_partial_eof r w =
     (case wr_fd r of
        None \<Rightarrow> (ReadErr (IOError ''WAL file is not open: ''), r, w)
      | Some i \<Rightarrow>
          (let (e1, header, w1) = read_upto i (wr_pos r) 8 w;
               r1 = r\<lparr>wr_pos := wr_pos r + length header\<rparr>
           in case e1 of
                RdEof \<Rightarrow>
                  (ReadErr (if header = [] then NotFound ''EOF''
                     else if allow_partial_eof then NotFound ''Partial record at EOF''
                     else Corruption ''Truncated WAL header at EOF''), r1, w1)
              | RdFailed \<Rightarrow> (ReadErr (IOError ''WAL read failed: ''), r1, w1)
              | RdAll \<Rightarrow>
                  (let expected_crc = DecodeFixed32 header;
                       len = DecodeFixed32 (drop 4 header)
                   in if len > kMaxRecordSize
                      then let (st, w2) = sys_fstat_size i w1;
                               at_or_past_eof = (case st of None \<Rightarrow> False
                                 | Some st_size \<Rightarrow>
                                     (of_nat (wr_pos r1) :: u64) + ucast len > of_nat st_size)
                        in (ReadErr (if allow_partial_eof \<and> at_or_past_eof
                              then NotFound ''Corrupt trailing record at EOF''
                              else Corruption ''WAL record length exceeds maximum allowed size: ''),
                            r1, w2)
                      else let (e2, payload, w2) = read_upto i (wr_pos r1) (unat len) w1;
                               r2 = r1\<lparr>wr_pos := wr_pos r1 + length payload\<rparr>
                        in case e2 of
                             RdEof \<Rightarrow>
                               (ReadErr (if allow_partial_eof then NotFound ''Partial payload at EOF''
                                  else Corruption ''Truncated WAL payload at EOF''), r2, w2)
                           | RdFailed \<Rightarrow> (ReadErr (IOError ''WAL read failed: ''), r2, w2)
                           | RdAll \<Rightarrow>
                               (if Crc32 payload 0 \<noteq> expected_crc
                                then let (at_eof, w3) = IsAtEof i (wr_pos r2) w2
                                  in (ReadErr (if allow_partial_eof \<and> at_eof
                                        then NotFound ''Corrupt trailing record at EOF''
                                        else if \<not> at_eof
                                        then Corruption ''WAL CRC mismatch in middle of log file: ''
                                        else Corruption ''WAL CRC mismatch: ''), r2, w3)
                                else (parse_payload payload, r2, w2)))))"

section \<open>Every record read makes progress\<close>

lemma ReadRecord_ok_progress:
  assumes "ReadRecord allow r w = (ReadOk rec, r', w')"
  shows "\<exists>i x. wr_fd r = Some i \<and> wr_fd r' = Some i \<and> w' = w\<lparr>script := x\<rparr>
    \<and> set x \<subseteq> set (script w) \<and> wr_pos r + 8 \<le> wr_pos r' \<and> wr_pos r' \<le> length (inodes w i)"
proof -
  obtain i where i: "wr_fd r = Some i"
    using assms by (cases "wr_fd r") (auto simp: ReadRecord_def)
  obtain e1 header w1 where h: "read_upto i (wr_pos r) 8 w = (e1, header, w1)"
    by (metis prod_cases3)
  have e1: "e1 = RdAll"
    using assms i h by (cases e1) (auto simp: ReadRecord_def Let_def)
  obtain x where x: "w1 = w\<lparr>script := x\<rparr>" "set x \<subseteq> set (script w)"
      "sub (wr_pos r) (length header) (inodes w i) = header" "length header = 8"
    using read_upto_effect [OF h] e1 by auto
  define len where "len = DecodeFixed32 (drop 4 header)"
  have small: "\<not> len > kMaxRecordSize"
    using assms i h e1 by (auto simp: ReadRecord_def Let_def len_def split: prod.splits)
  obtain e2 payload w2 where p:
      "read_upto i (wr_pos r + length header) (unat len) w1 = (e2, payload, w2)"
    by (metis prod_cases3)
  have e2: "e2 = RdAll"
    using assms i h e1 p small
    by (cases e2) (auto simp: ReadRecord_def Let_def len_def split: prod.splits)
  obtain y where y: "w2 = w1\<lparr>script := y\<rparr>" "set y \<subseteq> set (script w1)"
      "sub (wr_pos r + length header) (length payload) (inodes w1 i) = payload"
    using read_upto_effect [OF p] e2 by auto
  have res: "r' = r\<lparr>wr_pos := wr_pos r + length header + length payload\<rparr>" "w' = w2"
    using assms i h e1 p e2 small
    by (auto simp: ReadRecord_def Let_def len_def split: prod.splits if_splits)
  have "length header \<le> length (inodes w i) - wr_pos r"
    using arg_cong [OF x(3), of length] by simp
  moreover have "length payload \<le> length (inodes w i) - (wr_pos r + length header)"
    using arg_cong [OF y(3), of length] x(1) by simp
  ultimately have "wr_pos r + length header + length payload \<le> length (inodes w i)"
    using x(4) by linarith
  then show ?thesis
    using i res x y by (intro exI [of _ i] exI [of _ y]) auto
qed

text \<open>
  The loop \<^verbatim>\<open>while (reader.ReadRecord(...).ok())\<close>: the records read, the result that ended
  the loop, and the world after.
\<close>

function read_log :: "bool \<Rightarrow> WalReader \<Rightarrow> World \<Rightarrow> wal_rec list \<times> read_result \<times> World" where
  "read_log allow r w =
     (case ReadRecord allow r w of
        (ReadOk rec, r', w') \<Rightarrow>
          (let (recs, final, w'') = read_log allow r' w' in (rec # recs, final, w''))
      | (e, r', w') \<Rightarrow> ([], e, w'))"
  by pat_completeness auto
termination
  by (relation "measure (\<lambda>(allow, r, w). case wr_fd r of None \<Rightarrow> 0
        | Some i \<Rightarrow> length (inodes w i) - wr_pos r)")
    (auto dest!: sym [of _ "ReadRecord _ _ _"] ReadRecord_ok_progress)

declare read_log.simps [simp del]

section \<open>Frames\<close>

fun wal_frame :: "wal_rec \<Rightarrow> bytes" where
  "wal_frame (seq, type, key, val) =
     (let payload = wal_payload seq type key val in wal_header payload @ payload)"

declare wal_frame.simps [simp del]

definition wal_log :: "wal_rec list \<Rightarrow> bytes" where
  "wal_log recs = concat (map wal_frame recs)"

text \<open>The reader refuses payloads over 64 MB, so a record must fit to be read back.\<close>

fun rec_fits :: "wal_rec \<Rightarrow> bool" where
  "rec_fits (seq, type, key, val) \<longleftrightarrow> 17 + length key + length val \<le> 64 * 1024 * 1024"

lemma wal_payload_eq:
  "wal_payload seq type key val =
     type # EncodeFixed64 seq @ EncodeFixed32 (of_nat (length key)) @ key
       @ EncodeFixed32 (of_nat (length val)) @ val"
  by (simp add: wal_payload_def PutFixed32_def PutFixed64_def)

lemma length_wal_payload [simp]: "length (wal_payload seq type key val) = 17 + length key + length val"
  by (simp add: wal_payload_eq)

lemma length_wal_header [simp]: "length (wal_header p) = 8"
  by (simp add: wal_header_def)

lemma wal_frame_nonempty [simp]: "0 < length (wal_frame rec)" "wal_frame rec \<noteq> []"
  by (cases rec; simp add: wal_frame.simps Let_def length_greater_0_conv [symmetric] del: length_greater_0_conv)+

lemma wal_log_Nil [simp]: "wal_log [] = []"
  by (simp add: wal_log_def)

lemma wal_log_Cons [simp]: "wal_log (rec # recs) = wal_frame rec @ wal_log recs"
  by (simp add: wal_log_def)

lemma wal_log_append [simp]: "wal_log (xs @ ys) = wal_log xs @ wal_log ys"
  by (simp add: wal_log_def)

lemma header_fields:
  "DecodeFixed32 (wal_header p @ rest) = Crc32 p 0"
  "DecodeFixed32 (drop 4 (wal_header p @ rest)) = of_nat (length p)"
  "DecodeFixed32 (wal_header p) = Crc32 p 0"
  "DecodeFixed32 (drop 4 (wal_header p)) = of_nat (length p)"
  by (simp_all add: wal_header_def)

lemma drop_payload:
  "drop (Suc 0) (wal_payload seq type key val) = EncodeFixed64 seq @ EncodeFixed32 (of_nat (length key))
     @ key @ EncodeFixed32 (of_nat (length val)) @ val"
  "drop 9 (wal_payload seq type key val) = EncodeFixed32 (of_nat (length key))
     @ key @ EncodeFixed32 (of_nat (length val)) @ val"
  "drop 13 (wal_payload seq type key val) = key @ EncodeFixed32 (of_nat (length val)) @ val"
  "drop (13 + length key) (wal_payload seq type key val) = EncodeFixed32 (of_nat (length val)) @ val"
  "drop (17 + length key) (wal_payload seq type key val) = val"
  by (simp_all add: wal_payload_eq numeral_eq_Suc)

lemma unat_add32_small:
  "unat a + unat b < 2 ^ 32 \<Longrightarrow> unat (a + b :: u32) = unat a + unat b"
  by (simp add: unat_word_ariths)

lemma parse_payload_roundtrip:
  assumes "17 + length key + length val < 2 ^ 32"
  shows "parse_payload (wal_payload seq type key val) = ReadOk (seq, type, key, val)"
proof -
  let ?p = "wal_payload seq type key val"
  let ?k = "of_nat (length key) :: u32" and ?v = "of_nat (length val) :: u32"
  have k: "unat ?k = length key" and v: "unat ?v = length val" using assms by simp_all
  have s1: "unat (17 + ?k) = 17 + length key"
    using assms k unat_add32_small [of 17 ?k] by simp
  have s2: "unat (17 + ?k + ?v) = 17 + length key + length val"
    using assms s1 v unat_add32_small [of "17 + ?k" ?v] by simp
  have e1: "1 + 8 + 4 + ?k + 4 = 17 + ?k" by simp
  have e2: "1 + 8 + 4 + ?k + 4 + ?v = 17 + ?k + ?v" by simp
  have "?p ! 0 = type" by (simp add: wal_payload_eq)
  moreover have "sub 13 (length key) ?p = key"
    by (simp add: sub_def drop_payload)
  moreover have "sub (17 + length key) (length val) ?p = val"
    by (simp add: sub_def drop_payload)
  ultimately show ?thesis
    unfolding parse_payload_def e1 e2 by (simp add: drop_payload k v s1 s2)
qed

section \<open>Reading what was written\<close>

lemma ReadRecord_frame:
  assumes fd: "wr_fd r = Some i" and nf: "Fail \<notin> set (script w)"
    and at: "drop (wr_pos r) (inodes w i) = wal_frame rec @ rest" and fits: "rec_fits rec"
  shows "\<exists>x. ReadRecord allow r w =
      (ReadOk rec, r\<lparr>wr_pos := wr_pos r + length (wal_frame rec)\<rparr>, w\<lparr>script := x\<rparr>) \<and> Fail \<notin> set x"
proof -
  obtain seq type key val where rec: "rec = (seq, type, key, val)" by (cases rec)
  define p where "p = wal_payload seq type key val"
  have frame: "wal_frame rec = wal_header p @ p" by (simp add: rec p_def wal_frame.simps Let_def)
  have at': "drop (wr_pos r) (inodes w i) = wal_header p @ p @ rest"
    using at by (simp add: frame)
  have size: "length (inodes w i) = wr_pos r + 8 + length p + length rest"
    using arg_cong [OF at', of length] by simp
  have lp: "length p \<le> 64 * 1024 * 1024" using fits by (simp add: rec p_def)
  then have len: "unat (of_nat (length p) :: u32) = length p" by simp
  have small: "\<not> of_nat (length p) > kMaxRecordSize"
    using lp len by (simp add: kMaxRecordSize_def word_less_nat_alt)
  obtain x where x: "read_upto i (wr_pos r) 8 w = (RdAll, wal_header p, w\<lparr>script := x\<rparr>)"
      "Fail \<notin> set x"
    using read_upto_no_fail [OF nf, of i "wr_pos r" 8] size by (auto simp: sub_def at')
  have "sub (wr_pos r + 8) (length p) (inodes w i) = p"
    by (simp add: sub_def add.commute [of _ 8] drop_drop [symmetric] at' del: drop_drop)
  then obtain y where y: "read_upto i (wr_pos r + 8) (length p) (w\<lparr>script := x\<rparr>) =
      (RdAll, p, w\<lparr>script := y\<rparr>)" "Fail \<notin> set y"
    using read_upto_no_fail [of "w\<lparr>script := x\<rparr>" i "wr_pos r + 8" "length p"] x(2) size by auto
  have "parse_payload p = ReadOk rec"
    using fits by (simp add: rec p_def parse_payload_roundtrip)
  then show ?thesis
    using fd x y small
    by (intro exI [of _ y]) (simp add: ReadRecord_def header_fields len frame Let_def add.assoc)
qed

lemma ReadRecord_torn:
  assumes fd: "wr_fd r = Some i" and nf: "Fail \<notin> set (script w)"
    and at: "drop (wr_pos r) (inodes w i) = take n (wal_frame rec)" and fits: "rec_fits rec"
    and torn: "n < length (wal_frame rec)" and pos: "wr_pos r \<le> length (inodes w i)"
  shows "\<exists>m r' w'. ReadRecord allow r w = (ReadErr (if allow then NotFound m else Corruption m), r', w')
    \<or> ReadRecord allow r w = (ReadErr (NotFound m), r', w')"
proof -
  obtain seq type key val where rec: "rec = (seq, type, key, val)" by (cases rec)
  define p where "p = wal_payload seq type key val"
  have frame: "wal_frame rec = wal_header p @ p" by (simp add: rec p_def wal_frame.simps Let_def)
  have size: "length (inodes w i) = wr_pos r + n"
    using arg_cong [OF at, of length] torn pos by simp
  have lp: "length p \<le> 64 * 1024 * 1024" using fits by (simp add: rec p_def)
  then have len: "unat (of_nat (length p) :: u32) = length p" by simp
  have small: "\<not> of_nat (length p) > kMaxRecordSize"
    using lp len by (simp add: kMaxRecordSize_def word_less_nat_alt)
  obtain x where x: "read_upto i (wr_pos r) 8 w =
      (if wr_pos r + 8 \<le> length (inodes w i) then RdAll else RdEof,
       take 8 (take n (wal_frame rec)), w\<lparr>script := x\<rparr>)" "Fail \<notin> set x"
    using read_upto_no_fail [OF nf, of i "wr_pos r" 8] by (auto simp: sub_def at)
  show ?thesis
  proof (cases "8 \<le> n")
    case False
    then have "read_upto i (wr_pos r) 8 w = (RdEof, take n (wal_frame rec), w\<lparr>script := x\<rparr>)"
      using x size by (simp add: min_def)
    then show ?thesis using fd by (simp add: ReadRecord_def Let_def)
  next
    case True
    then have h: "read_upto i (wr_pos r) 8 w = (RdAll, wal_header p, w\<lparr>script := x\<rparr>)"
      using x size frame by (simp add: min_def)
    have "p \<noteq> []" by (simp add: p_def wal_payload_eq)
    then obtain y bs where "read_upto i (wr_pos r + 8) (length p) (w\<lparr>script := x\<rparr>) =
        (RdEof, bs, w\<lparr>script := y\<rparr>)"
      using read_upto_no_fail [of "w\<lparr>script := x\<rparr>" i "wr_pos r + 8" "length p"] x(2) size torn frame
      by auto
    then show ?thesis
      using fd h small by (simp add: ReadRecord_def header_fields len Let_def)
  qed
qed

text \<open>
  Reading a log that ends in a torn frame gives exactly the complete records and a clean end
  of file; with an empty tail it is the round trip.
\<close>

lemma read_log_torn:
  assumes "wr_fd r = Some i" and "Fail \<notin> set (script w)"
    and "drop (wr_pos r) (inodes w i) = wal_log recs @ take n (wal_frame rec)"
    and "list_all rec_fits recs" and "rec_fits rec" and "n < length (wal_frame rec)"
    and "wr_pos r \<le> length (inodes w i)"
  shows "\<exists>m w'. read_log True r w = (recs, ReadErr (NotFound m), w')"
  using assms
proof (induction recs arbitrary: r w)
  case Nil
  then obtain m r' w' where "ReadRecord True r w = (ReadErr (NotFound m), r', w')"
    using ReadRecord_torn [of r i w n rec True] by auto
  then show ?case by (simp add: read_log.simps [of True r w])
next
  case (Cons a recs)
  let ?r = "r\<lparr>wr_pos := wr_pos r + length (wal_frame a)\<rparr>"
  obtain x where x: "ReadRecord True r w = (ReadOk a, ?r, w\<lparr>script := x\<rparr>)" "Fail \<notin> set x"
    using ReadRecord_frame [of r i w a "wal_log recs @ take n (wal_frame rec)" True] Cons.prems
    by auto
  have d: "drop (wr_pos ?r) (inodes w i) = wal_log recs @ take n (wal_frame rec)"
    using drop_advance [of "wr_pos r" "inodes w i" "wal_frame a"] Cons.prems(3) by simp
  have "wr_pos ?r \<le> length (inodes w i)"
    using arg_cong [OF Cons.prems(3), of length] Cons.prems(7) by simp
  then obtain m w' where "read_log True ?r (w\<lparr>script := x\<rparr>) = (recs, ReadErr (NotFound m), w')"
    using Cons.IH [of ?r "w\<lparr>script := x\<rparr>"] Cons.prems x(2) d by auto
  then show ?case using x by (simp add: read_log.simps [of True r w])
qed

section \<open>Damage\<close>

text \<open>A frame whose stored bytes no longer match its checksum is never returned.\<close>

lemma ReadRecord_bad_crc:
  assumes fd: "wr_fd r = Some i" and nf: "Fail \<notin> set (script w)"
    and at: "drop (wr_pos r) (inodes w i) = wal_header p @ q @ rest"
    and len: "length q = length p" "length p \<le> 64 * 1024 * 1024" "p \<noteq> []"
    and bad: "Crc32 q 0 \<noteq> Crc32 p 0"
  shows "\<exists>m r' w'. ReadRecord allow r w =
      (ReadErr (if rest \<noteq> [] \<or> \<not> allow then Corruption m else NotFound m), r', w')"
proof -
  have size: "length (inodes w i) = wr_pos r + 8 + length p + length rest"
    using arg_cong [OF at, of length] len by simp
  have un: "unat (of_nat (length p) :: u32) = length p" using len(2) by simp
  have small: "\<not> of_nat (length p) > kMaxRecordSize"
    using len(2) un by (simp add: kMaxRecordSize_def word_less_nat_alt)
  obtain x where x: "read_upto i (wr_pos r) 8 w = (RdAll, wal_header p, w\<lparr>script := x\<rparr>)"
      "Fail \<notin> set x"
    using read_upto_no_fail [OF nf, of i "wr_pos r" 8] size by (auto simp: sub_def at)
  have "sub (wr_pos r + 8) (length p) (inodes w i) = q"
    using drop_advance [of "wr_pos r" "inodes w i" "wal_header p"] at len(1) by (simp add: sub_def)
  then obtain y where y: "read_upto i (wr_pos r + 8) (length p) (w\<lparr>script := x\<rparr>) =
      (RdAll, q, w\<lparr>script := y\<rparr>)" "Fail \<notin> set y"
    using read_upto_no_fail [of "w\<lparr>script := x\<rparr>" i "wr_pos r + 8" "length p"] x(2) size by auto
  have "outcome_of (w\<lparr>script := y\<rparr>) \<noteq> Fail" using y(2) outcome_of_Fail by force
  then have eof: "IsAtEof i (wr_pos r + 8 + length q) (w\<lparr>script := y\<rparr>) = (rest = [], w\<lparr>script := tl y\<rparr>)"
    using size len(1) by (simp add: IsAtEof_def sys_fstat_size_def next_outcome_eq)
  show ?thesis
    using fd x y small eof bad
    by (cases "rest = []") (auto simp: ReadRecord_def header_fields un Let_def add.assoc)
qed

lemma read_log_step:
  assumes "ReadRecord allow r w = (e, r', w')" and "\<And>rec. e \<noteq> ReadOk rec"
  shows "read_log allow r w = ([], e, w')"
  using assms by (simp add: read_log.simps [of allow r w] split: read_result.splits)

text \<open>Records before position \<open>r\<close> do not matter: reading goes through the good ones first.\<close>

lemma read_log_good_prefix:
  assumes "wr_fd r = Some i" and "Fail \<notin> set (script w)"
    and "drop (wr_pos r) (inodes w i) = wal_log recs @ tail" and "list_all rec_fits recs"
    and "wr_pos r \<le> length (inodes w i)"
  shows "\<exists>x. Fail \<notin> set x \<and> wr_pos r + length (wal_log recs) \<le> length (inodes w i) \<and>
    drop (wr_pos r + length (wal_log recs)) (inodes w i) = tail \<and>
    read_log allow r w =
      (let (more, e, w') = read_log allow (r\<lparr>wr_pos := wr_pos r + length (wal_log recs)\<rparr>) (w\<lparr>script := x\<rparr>)
       in (recs @ more, e, w'))"
  using assms
proof (induction recs arbitrary: r w)
  case Nil
  then show ?case by (intro exI [of _ "script w"]) simp
next
  case (Cons a recs)
  let ?r = "r\<lparr>wr_pos := wr_pos r + length (wal_frame a)\<rparr>"
  obtain x where x: "ReadRecord allow r w = (ReadOk a, ?r, w\<lparr>script := x\<rparr>)" "Fail \<notin> set x"
    using ReadRecord_frame [of r i w a "wal_log recs @ tail" allow] Cons.prems by auto
  have d: "drop (wr_pos ?r) (inodes w i) = wal_log recs @ tail"
    using drop_advance [of "wr_pos r" "inodes w i" "wal_frame a"] Cons.prems(3) by simp
  have "wr_pos ?r \<le> length (inodes w i)"
    using arg_cong [OF Cons.prems(3), of length] Cons.prems(5) by simp
  then obtain y where "Fail \<notin> set y" "wr_pos ?r + length (wal_log recs) \<le> length (inodes w i)"
    "drop (wr_pos ?r + length (wal_log recs)) (inodes w i) = tail"
    "read_log allow ?r (w\<lparr>script := x\<rparr>) =
      (let (more, e, w') = read_log allow (?r\<lparr>wr_pos := wr_pos ?r + length (wal_log recs)\<rparr>) (w\<lparr>script := y\<rparr>)
       in (recs @ more, e, w'))"
    using Cons.IH [of ?r "w\<lparr>script := x\<rparr>"] Cons.prems x(2) d by auto
  then show ?case
    using x by (intro exI [of _ y])
      (auto simp: read_log.simps [of allow r w] add.assoc split: prod.splits)
qed

section \<open>Appending\<close>

lemma AppendRecord_effect:
  assumes wf: "wf_world w" and fd: "ww_fd ww = Some i" and d: "dir w path = Some i"
    and run: "AppendRecord ww seq type key val sync w = (s, ww', w')"
  shows "\<exists>n \<le> length (wal_frame (seq, type, key, val)).
      inodes w' i = inodes w i @ take n (wal_frame (seq, type, key, val))
      \<and> (ok s \<longrightarrow> n = length (wal_frame (seq, type, key, val)))
      \<and> ww_file_size ww' = ww_file_size ww + of_nat n \<and> ww_fd ww' = Some i
      \<and> wf_world w' \<and> only_changes {path} w w' \<and> dir w' path = Some i"
proof -
  define p where "p = wal_payload seq type key val"
  have frame: "wal_frame (seq, type, key, val) = wal_header p @ p" by (simp add: p_def wal_frame.simps Let_def)
  obtain b1 n1 w1 where r1: "write_all i (wal_header p) w = (b1, n1, w1)" by (metis prod_cases3)
  note e1 = write_all_effect [OF r1 wf d]
  show ?thesis
  proof (cases b1)
    case False
    then show ?thesis
      using run fd r1 e1 d
      by (intro exI [of _ n1]) (auto simp: AppendRecord_def p_def [symmetric] frame Let_def)
  next
    case True
    then have n1: "n1 = 8" using e1 by simp
    obtain b2 n2 w2 where r2: "write_all i p w1 = (b2, n2, w2)" by (metis prod_cases3)
    have wf1: "wf_world w1" and d1: "dir w1 path = Some i" using e1 d by auto
    note e2 = write_all_effect [OF r2 wf1 d1]
    have oc: "only_changes {path} w w2" using e1 e2 only_changes_trans [of "{path}" w w1 "{path}" w2] by simp
    have w2: "inodes w2 i = inodes w i @ take (8 + n2) (wal_header p @ p)"
      using e1 e2 n1 by simp
    show ?thesis
    proof (cases "b2 \<and> sync")
      case False
      then show ?thesis
        using run fd r1 True r2 e2 oc w2 n1 d1
        by (intro exI [of _ "8 + n2"]) (auto simp: AppendRecord_def p_def [symmetric] frame Let_def split: if_splits)
    next
      case sync: True
      obtain s3 w3 where r3: "WalWriter_Sync (ww\<lparr>ww_file_size := ww_file_size ww + of_nat n1 + of_nat n2\<rparr>) w2 = (s3, w3)"
        by fastforce
      have w3: "w3 = w2\<lparr>script := tl (script w2)\<rparr>"
        using r3 fd by (simp add: WalWriter_Sync_def sys_fdatasync_def next_outcome_eq)
      show ?thesis
        using run fd r1 True r2 sync r3 w3 e2 oc w2 n1 d1
        by (intro exI [of _ "8 + n2"]) (auto simp: AppendRecord_def p_def [symmetric] frame Let_def)
    qed
  qed
qed

text \<open>A caller that appends records one after the other and stops at the first failure.\<close>

fun append_all :: "WalWriter \<Rightarrow> wal_rec list \<Rightarrow> bool \<Rightarrow> World \<Rightarrow> nat \<times> WalWriter \<times> World" where
  "append_all ww [] sync w = (0, ww, w)"
| "append_all ww ((seq, type, key, val) # recs) sync w =
     (case AppendRecord ww seq type key val sync w of
        (s, ww', w') \<Rightarrow>
          if ok s then let (m, ww'', w'') = append_all ww' recs sync w' in (Suc m, ww'', w'')
          else (0, ww', w'))"

lemma append_all_effect:
  assumes "append_all ww recs sync w = (m, ww', w')"
    and "wf_world w" and "ww_fd ww = Some i" and "dir w path = Some i"
  shows "wf_world w' \<and> only_changes {path} w w' \<and> dir w' path = Some i \<and> m \<le> length recs \<and>
    (if m = length recs then inodes w' i = inodes w i @ wal_log recs
     else \<exists>n \<le> length (wal_frame (recs ! m)).
       inodes w' i = inodes w i @ wal_log (take m recs) @ take n (wal_frame (recs ! m)))"
  using assms
proof (induction ww recs sync w arbitrary: m rule: append_all.induct)
  case (1 ww sync w)
  then show ?case by simp
next
  case (2 ww seq type key val recs sync w)
  obtain s ww1 w1 where run: "AppendRecord ww seq type key val sync w = (s, ww1, w1)"
    by (metis prod_cases3)
  let ?f = "wal_frame (seq, type, key, val)"
  obtain n where n: "n \<le> length ?f" "inodes w1 i = inodes w i @ take n ?f"
      "ok s \<longrightarrow> n = length ?f" "ww_fd ww1 = Some i" "wf_world w1" "only_changes {path} w w1"
      "dir w1 path = Some i"
    using AppendRecord_effect [OF 2(3,4,5) run] by blast
  show ?case
  proof (cases "ok s")
    case False
    then show ?thesis using "2.prems"(1) run n by auto
  next
    case True
    obtain m1 where m1: "append_all ww1 recs sync w1 = (m1, ww', w')" "m = Suc m1"
      using "2.prems"(1) run True by (auto split: prod.splits)
    have *: "wf_world w' \<and> only_changes {path} w1 w' \<and> dir w' path = Some i \<and> m1 \<le> length recs \<and>
      (if m1 = length recs then inodes w' i = inodes w1 i @ wal_log recs
       else \<exists>n \<le> length (wal_frame (recs ! m1)).
         inodes w' i = inodes w1 i @ wal_log (take m1 recs) @ take n (wal_frame (recs ! m1)))"
      using "2.IH" [OF run [symmetric] refl True m1(1)] n by blast
    then show ?thesis
      using n True m1 only_changes_trans [of "{path}" w w1 "{path}" w']
      by (auto split: if_splits)
  qed
qed

section \<open>Properties\<close>


lemma fresh_log:
  obtains ww w1 where "WalWriter_new path world0 = (ww, w1)" "ww_fd ww = Some 0" "wf_world w1"
    "dir w1 path = Some 0" "inodes w1 0 = []" "script w1 = []"
proof -
  obtain ww w1 where new: "WalWriter_new path world0 = (ww, w1)" by fastforce
  then have "ww_fd ww = Some 0 \<and> dir w1 path = Some 0 \<and> inodes w1 0 = [] \<and> script w1 = [] \<and> wf_world w1"
    by (auto simp: WalWriter_new_def sys_open_creat_def sys_fstat_size_def next_outcome_eq world0_def
        outcome_of_def wf_world_def inj_on_def split: if_splits)
  with new that show ?thesis by blast
qed


lemma take_wal_log:
  assumes "n < length (wal_log recs)"
  shows "\<exists>j k. j < length recs \<and> k < length (wal_frame (recs ! j)) \<and>
    take n (wal_log recs) = wal_log (take j recs) @ take k (wal_frame (recs ! j)) \<and>
    n = length (wal_log (take j recs)) + k"
  using assms
proof (induction recs arbitrary: n)
  case (Cons a recs)
  show ?case
  proof (cases "n < length (wal_frame a)")
    case True
    then show ?thesis by (intro exI [of _ 0] exI [of _ n]) simp
  next
    case False
    then have "n - length (wal_frame a) < length (wal_log recs)" using Cons.prems by simp
    from Cons.IH [OF this] obtain j k where "j < length recs" "k < length (wal_frame (recs ! j))"
      "take (n - length (wal_frame a)) (wal_log recs) = wal_log (take j recs) @ take k (wal_frame (recs ! j))"
      "n - length (wal_frame a) = length (wal_log (take j recs)) + k"
      by blast
    then show ?thesis using False by (intro exI [of _ "Suc j"] exI [of _ k]) auto
  qed
qed simp

text \<open>C2: A log cut at any byte, as a crash in the middle of a write leaves it, reads back
  without error as exactly the records whose frames are complete.\<close>

theorem wal_prefix_recovery:
  assumes "list_all rec_fits recs" and "Fail \<notin> set (script w)"
    and "inodes w i = take n (wal_log recs)" and "n \<le> length (wal_log recs)"
  shows "\<exists>j msg w'. read_log True \<lparr>wr_fd = Some i, wr_pos = 0\<rparr> w = (take j recs, ReadErr (NotFound msg), w')
    \<and> j \<le> length recs \<and> length (wal_log (take j recs)) \<le> n
    \<and> (j < length recs \<longrightarrow> n < length (wal_log (take (Suc j) recs)))"
proof (cases "n < length (wal_log recs)")
  case True
  let ?r = "\<lparr>wr_fd = Some i, wr_pos = 0\<rparr>"
  obtain j k where j: "j < length recs" "k < length (wal_frame (recs ! j))"
      "take n (wal_log recs) = wal_log (take j recs) @ take k (wal_frame (recs ! j))"
      "n = length (wal_log (take j recs)) + k"
    using take_wal_log [OF True] by blast
  have fits: "list_all rec_fits (take j recs)" "rec_fits (recs ! j)"
    using assms(1) j(1) by (auto simp: list_all_iff dest: in_set_takeD)
  have "drop (wr_pos ?r) (inodes w i) = wal_log (take j recs) @ take k (wal_frame (recs ! j))"
    using assms(3) j(3) by simp
  from read_log_torn [OF _ assms(2) this fits j(2)] j show ?thesis
    by (intro exI [of _ j]) (auto simp: take_Suc_conv_app_nth)
next
  case False
  have "drop (wr_pos \<lparr>wr_fd = Some i, wr_pos = 0\<rparr>) (inodes w i) =
      wal_log recs @ take 0 (wal_frame (0, 0, [], []))"
    using assms(3) False by simp
  from read_log_torn [OF _ assms(2) this assms(1)] False assms(4) show ?thesis
    by (intro exI [of _ "length recs"]) auto
qed

theorem wal_prefix_recovery_witness:
  "\<exists>j msg w'. read_log True \<lparr>wr_fd = Some 0, wr_pos = 0\<rparr>
       (world0\<lparr>inodes := (\<lambda>_. take 30 (wal_log [(1, 1, [97], [98]), (2, 0, [97], [])])), script := [Short 2]\<rparr>)
     = (take j [(1, 1, [97], [98]), (2, 0, [97], [])], ReadErr (NotFound msg), w')"
  using wal_prefix_recovery [of "[(1, 1, [97], [98]), (2, 0, [97], [])]"
      "world0\<lparr>inodes := (\<lambda>_. take 30 (wal_log [(1, 1, [97], [98]), (2, 0, [97], [])])), script := [Short 2]\<rparr>" 0 30]
  by (auto simp: wal_frame.simps Let_def)

text \<open>C3: A change confined to four consecutive bytes of a record's payload is always caught:
  the records before it are returned, then the reader reports corruption if anything follows
  the damaged record, and a clean end of log if it is the last one.\<close>

theorem wal_burst_detected:
  assumes "list_all rec_fits recs" and "rec_fits (seq, type, key, val)"
    and "Fail \<notin> set (script w)" and "wal_payload seq type key val = x @ b @ y"
    and "length b' = length b" and "length b \<le> 4" and "b' \<noteq> b"
    and "inodes w i = wal_log recs @ wal_header (x @ b @ y) @ (x @ b' @ y) @ rest"
  shows "\<exists>msg w'. read_log True \<lparr>wr_fd = Some i, wr_pos = 0\<rparr> w =
    (recs, ReadErr (if rest \<noteq> [] then Corruption msg else NotFound msg), w')"
proof -
  let ?r = "\<lparr>wr_fd = Some i, wr_pos = 0\<rparr>"
  obtain z where z: "Fail \<notin> set z"
      "drop (length (wal_log recs)) (inodes w i) = wal_header (x @ b @ y) @ (x @ b' @ y) @ rest"
      "read_log True ?r w = (let (more, e, w') =
         read_log True \<lparr>wr_fd = Some i, wr_pos = length (wal_log recs)\<rparr> (w\<lparr>script := z\<rparr>)
       in (recs @ more, e, w'))"
    using read_log_good_prefix [of ?r i w recs _ True, OF _ assms(3) _ assms(1)] assms(8) by auto
  let ?r' = "\<lparr>wr_fd = Some i, wr_pos = length (wal_log recs)\<rparr>"
  have len: "length (x @ b @ y) \<le> 64 * 1024 * 1024" "x @ b @ y \<noteq> []"
    using assms(2,4) length_wal_payload [of seq type key val] by (simp_all, auto)
  have "Crc32 (x @ b' @ y) 0 \<noteq> Crc32 (x @ b @ y) 0"
    using Crc32_burst [of b' b x y 0] assms(5-7) by simp
  then obtain m r' w' where "ReadRecord True ?r' (w\<lparr>script := z\<rparr>) =
      (ReadErr (if rest \<noteq> [] \<or> \<not> True then Corruption m else NotFound m), r', w')"
    using ReadRecord_bad_crc [of ?r' i "w\<lparr>script := z\<rparr>" "x @ b @ y" "x @ b' @ y" rest True] z assms(5) len
    by auto
  from read_log_step [OF this] z(3) show ?thesis by auto
qed

theorem wal_burst_detected_witness:
  "\<exists>msg w'. read_log True \<lparr>wr_fd = Some 0, wr_pos = 0\<rparr>
       (world0\<lparr>inodes := (\<lambda>_. wal_header (butlast (wal_payload 5 1 [97] [98]) @ [98]) @
          (butlast (wal_payload 5 1 [97] [98]) @ [99]) @ [0])\<rparr>)
     = ([], ReadErr (Corruption msg), w')"
proof -
  let ?x = "butlast (wal_payload 5 1 [97] [98])"
  let ?w = "world0\<lparr>inodes := (\<lambda>_. wal_header (?x @ [98]) @ (?x @ [99]) @ [0])\<rparr>"
  have "wal_payload 5 1 [97] [98] = ?x @ [98] @ []"
    by (simp add: wal_payload_eq butlast_append)
  then show ?thesis
    using wal_burst_detected [of "[]" 5 1 "[97]" "[98]" ?w ?x "[98]" "[]" "[99]" 0 "[0]"] by simp
qed

text \<open>C7: The writer acknowledges records that the reader refuses: a record whose payload is
  over 64 MB (and under 4 GB), completely written, is reported as corruption.\<close>

theorem wal_oversized_unreadable:
  assumes "64 * 1024 * 1024 < 17 + length key + length val" and "17 + length key + length val < 2 ^ 32"
    and "Fail \<notin> set (script w)" and "length (inodes w i) < 2 ^ 64"
    and "inodes w i = wal_frame (seq, type, key, val) @ rest"
  shows "\<exists>msg w'. read_log True \<lparr>wr_fd = Some i, wr_pos = 0\<rparr> w = ([], ReadErr (Corruption msg), w')"
proof -
  let ?r = "\<lparr>wr_fd = Some i, wr_pos = 0\<rparr>"
  define p where "p = wal_payload seq type key val"
  have c: "inodes w i = wal_header p @ p @ rest"
    using assms(5) by (simp add: wal_frame.simps Let_def p_def)
  have lp: "64 * 1024 * 1024 < length p" "length p < 2 ^ 32" using assms(1,2) by (simp_all add: p_def)
  then have un: "unat (of_nat (length p) :: u32) = length p" by simp
  have big: "of_nat (length p) > kMaxRecordSize"
    using lp un by (simp add: kMaxRecordSize_def word_less_nat_alt)
  obtain x where x: "read_upto i 0 8 w = (RdAll, wal_header p, w\<lparr>script := x\<rparr>)" "Fail \<notin> set x"
    using read_upto_no_fail [OF assms(3), of i 0 8] by (auto simp: c)
  have st: "sys_fstat_size i (w\<lparr>script := x\<rparr>) = (Some (length (inodes w i)), w\<lparr>script := tl x\<rparr>)"
    using x(2) outcome_of_Fail [of "w\<lparr>script := x\<rparr>"]
    by (auto simp: sys_fstat_size_def next_outcome_eq)
  have "unat (8 + ucast (of_nat (length p) :: u32) :: u64) = 8 + length p"
    using lp(2) un by (simp add: unat_word_ariths)
  moreover have "unat (of_nat (length (inodes w i)) :: u64) = length (inodes w i)"
    using assms(4) by (rule unat_of_nat64)
  moreover have "length (inodes w i) = 8 + length p + length rest" by (simp add: c)
  ultimately have "\<not> (8 + ucast (of_nat (length p) :: u32) :: u64) > of_nat (length (inodes w i))"
    by (simp add: word_less_nat_alt)
  then have "\<exists>r' w'. ReadRecord True ?r w =
      (ReadErr (Corruption ''WAL record length exceeds maximum allowed size: ''), r', w')"
    using x big st by (simp add: ReadRecord_def header_fields Let_def)
  then show ?thesis using read_log_step by blast
qed

theorem wal_oversized_unreadable_witness:
  "\<exists>msg w'. read_log True \<lparr>wr_fd = Some 0, wr_pos = 0\<rparr>
       (world0\<lparr>inodes := (\<lambda>_. wal_frame (1, 1, [107], replicate (64 * 1024 * 1024) 0))\<rparr>)
     = ([], ReadErr (Corruption msg), w')"
proof -
  let ?v = "replicate (64 * 1024 * 1024) 0 :: bytes"
  have "length (wal_frame (1, 1, [107], ?v)) = 8 + (17 + length [107 :: byte] + length ?v)"
    by (simp only: wal_frame.simps Let_def length_append length_wal_header length_wal_payload)
  then show ?thesis
    using wal_oversized_unreadable [of "[107]" ?v
      "world0\<lparr>inodes := (\<lambda>_. wal_frame (1, 1, [107], ?v))\<rparr>" 0 1 1 "[]"]
    by simp
qed

text \<open>C8: The 32-bit length check wraps around: for a payload with a valid checksum whose key
  length field is at least \<open>2 ^ 32 - 17\<close>, \<open>ReadRecord\<close> passes the check and then reads
  outside the payload buffer.\<close>

theorem wal_key_length_wraps:
  assumes "17 \<le> length payload" and "length payload < 2 ^ 31"
    and "2 ^ 32 - 17 \<le> unat (DecodeFixed32 (drop 9 payload))"
  shows "parse_payload payload = ReadUndefined"
proof -
  let ?k = "DecodeFixed32 (drop 9 payload)"
  have "unat (17 + ?k) = (17 + unat ?k) mod 2 ^ 32" by (simp add: unat_word_ariths)
  also have "\<dots> = 17 + unat ?k - 2 ^ 32"
    using assms(3) unat_lt32 [of ?k] by (simp add: mod_if)
  finally have "unat (17 + ?k) < 17" using unat_lt32 [of ?k] by simp
  then have "\<not> length payload < unat (1 + 8 + 4 + ?k + 4)" using assms(1) by simp
  moreover have "length payload < 13 + unat ?k + 4" using assms(2,3) by simp
  ultimately show ?thesis using assms(1) by (simp add: parse_payload_def Let_def)
qed

theorem wal_key_length_wraps_witness:
  "parse_payload ([1] @ EncodeFixed64 9 @ EncodeFixed32 0xFFFFFFFF @ [0, 0, 0, 0]) = ReadUndefined"
proof -
  have "drop 9 ([1 :: byte] @ EncodeFixed64 9 @ EncodeFixed32 0xFFFFFFFF @ [0, 0, 0, 0])
      = EncodeFixed32 0xFFFFFFFF @ [0, 0, 0, 0]" by (simp add: numeral_eq_Suc)
  then show ?thesis
    using wal_key_length_wraps [of "[1] @ EncodeFixed64 9 @ EncodeFixed32 0xFFFFFFFF @ [0, 0, 0, 0]"]
    by simp
qed

end
