(* ===== verification/Bloom.thy ===== *)
theory Bloom
  imports Coding
begin

text \<open>
  The Bloom filter of a table (src/bloom_filter.cc): the 32-bit Murmur hash, the
  construction of the bit array by double hashing, and the membership test.  The lemmas
  follow one bit through the construction; the properties are that a key that was added is
  never ruled out, and the size of what is written.

  The number of probes is \<^verbatim>\<open>static_cast<int>(bits_per_key * 0.69)\<close> cut to 1..30.  For
  1 to 99 bits per key the exact product is at least 1/100 away from an integer unless it is
  one, so the rounding of the double cannot change its integer part, and from 44 on the result
  is cut to 30: the integer quotient used here is the value the code computes.
\<close>

section \<open>Murmur hash\<close>

definition murmur_scramble :: "u32 \<Rightarrow> u32" where
  "murmur_scramble k0 =
     (let k1 = k0 * 0xcc9e2d51;
          k2 = push_bit 15 k1 OR drop_bit 17 k1
      in k2 * 0x1b873593)"

definition murmur_round :: "bytes \<Rightarrow> nat \<Rightarrow> u32 \<Rightarrow> u32" where
  "murmur_round data i h =
     (let k = murmur_scramble (DecodeFixed32 (drop (i * 4) data));
          h1 = h XOR k;
          h2 = push_bit 13 h1 OR drop_bit 19 h1
      in h2 * 5 + 0xe6546b64)"

definition murmur_tail :: "bytes \<Rightarrow> u32 \<Rightarrow> u32" where
  "murmur_tail tail h =
     (case length tail of
        0 \<Rightarrow> h
      | Suc 0 \<Rightarrow> h XOR murmur_scramble (ucast (tail ! 0))
      | Suc (Suc 0) \<Rightarrow> h XOR murmur_scramble (push_bit 8 (ucast (tail ! 1)) XOR ucast (tail ! 0))
      | _ \<Rightarrow> h XOR murmur_scramble
               (push_bit 16 (ucast (tail ! 2)) XOR push_bit 8 (ucast (tail ! 1)) XOR ucast (tail ! 0)))"

definition MurmurHash3 :: "bytes \<Rightarrow> u32 \<Rightarrow> u32" where
  "MurmurHash3 data seed =
     (let nblocks = length data div 4;
          h1 = fold (murmur_round data) [0..<nblocks] seed;
          h2 = murmur_tail (drop (nblocks * 4) data) h1;
          h3 = h2 XOR of_nat (length data);
          h4 = h3 XOR drop_bit 16 h3;
          h5 = h4 * 0x85ebca6b;
          h6 = h5 XOR drop_bit 13 h5;
          h7 = h6 * 0xc2b2ae35
      in h7 XOR drop_bit 16 h7)"

section \<open>Filter\<close>

definition bloom_k :: "int \<Rightarrow> nat" where
  "bloom_k bits_per_key =
     (let k = (bits_per_key * 69) div 100
      in nat (if k < 1 then 1 else if k > 30 then 30 else k))"

definition bloom_bytes :: "nat \<Rightarrow> int \<Rightarrow> u64" where
  "bloom_bytes n bits_per_key =
     (let bits = of_nat n * of_int bits_per_key;
          bits' = (if bits < 64 then 64 else bits)
      in (bits' + 7) div 8)"

definition bloom_hash :: "bytes \<Rightarrow> u32" where
  "bloom_hash key = MurmurHash3 key 0xbc9f1d34"

definition bloom_delta :: "u32 \<Rightarrow> u32" where
  "bloom_delta h = drop_bit 17 h OR push_bit 15 h"

definition bitpos :: "u64 \<Rightarrow> u32 \<Rightarrow> nat" where
  "bitpos bits h = unat (ucast ((ucast h :: u64) mod bits) :: u32)"

definition set_bit_at :: "nat \<Rightarrow> bytes \<Rightarrow> bytes" where
  "set_bit_at p array = array[p div 8 := array ! (p div 8) OR push_bit (p mod 8) 1]"

definition test_bit_at :: "nat \<Rightarrow> bytes \<Rightarrow> bool" where
  "test_bit_at p array \<longleftrightarrow> array ! (p div 8) AND push_bit (p mod 8) 1 \<noteq> 0"

primrec set_probes :: "u64 \<Rightarrow> u32 \<Rightarrow> nat \<Rightarrow> u32 \<Rightarrow> bytes \<Rightarrow> bytes" where
  "set_probes bits delta 0 h array = array"
| "set_probes bits delta (Suc j) h array =
     set_probes bits delta j (h + delta) (set_bit_at (bitpos bits h) array)"

primrec test_probes :: "u64 \<Rightarrow> u32 \<Rightarrow> nat \<Rightarrow> u32 \<Rightarrow> bytes \<Rightarrow> bool" where
  "test_probes bits delta 0 h array = True"
| "test_probes bits delta (Suc j) h array =
     (if \<not> test_bit_at (bitpos bits h) array then False
      else test_probes bits delta j (h + delta) array)"

definition add_key :: "u64 \<Rightarrow> nat \<Rightarrow> bytes \<Rightarrow> bytes \<Rightarrow> bytes" where
  "add_key bits k key array =
     (let h = bloom_hash key in set_probes bits (bloom_delta h) k h array)"

definition CreateFilter :: "bytes list \<Rightarrow> int \<Rightarrow> bytes \<Rightarrow> bytes" where
  "CreateFilter keys bits_per_key dst =
     (let nbytes = bloom_bytes (length keys) bits_per_key;
          bits = nbytes * 8;
          k = bloom_k bits_per_key;
          array = fold (add_key bits k) keys (replicate (unat nbytes) 0)
      in dst @ array @ [of_nat k])"

definition KeyMayMatch :: "bytes \<Rightarrow> bytes \<Rightarrow> bool" where
  "KeyMayMatch key flt =
     (let len = length flt
      in if len < 2 then True
         else let bits = of_nat (len - 1) * 8;
                  k = unat (flt ! (len - 1))
           in if k > 30 then True
              else let h = bloom_hash key
                in test_probes bits (bloom_delta h) k h flt)"

section \<open>Bits that stay set\<close>

lemma length_set_bit_at [simp]: "length (set_bit_at p array) = length array"
  by (simp add: set_bit_at_def)

lemma test_bit_at_iff: "test_bit_at p array \<longleftrightarrow> bit (array ! (p div 8)) (p mod 8)"
proof -
  have "p mod 8 < 8" by simp
  then show ?thesis
    by (auto simp: test_bit_at_def bit_iff_and_push_bit_not_eq_0)
qed

lemma test_set_same: "p div 8 < length array \<Longrightarrow> test_bit_at p (set_bit_at p array)"
  by (simp add: test_bit_at_iff set_bit_at_def bit_simps)

lemma test_set_mono: "test_bit_at q array \<Longrightarrow> test_bit_at q (set_bit_at p array)"
proof (cases "p div 8 < length array")
  case True
  then show "test_bit_at q array \<Longrightarrow> test_bit_at q (set_bit_at p array)"
    by (cases "q div 8 = p div 8") (auto simp: test_bit_at_iff set_bit_at_def bit_simps)
qed (simp add: set_bit_at_def list_update_beyond)

lemma length_set_probes [simp]: "length (set_probes bits delta k h array) = length array"
  by (induction k arbitrary: h array) simp_all

lemma test_set_probes_mono:
  "test_bit_at q array \<Longrightarrow> test_bit_at q (set_probes bits delta k h array)"
  by (induction k arbitrary: h array) (simp_all add: test_set_mono)

lemma test_probes_mono:
  assumes "\<And>q. test_bit_at q array \<Longrightarrow> test_bit_at q array'"
  shows "test_probes bits delta k h array \<Longrightarrow> test_probes bits delta k h array'"
  using assms by (induction k arbitrary: h) (auto split: if_splits)

lemma bitpos_bound:
  assumes "bits \<noteq> 0"
  shows "bitpos bits h < unat bits"
proof -
  have "bitpos bits h = unat ((ucast h :: u64) mod bits) mod 2 ^ 32"
    by (simp add: bitpos_def unsigned_ucast_eq take_bit_eq_mod)
  also have "\<dots> \<le> unat ((ucast h :: u64) mod bits)" by simp
  also have "\<dots> = unat (ucast h :: u64) mod unat bits" by (simp add: unat_mod_distrib)
  also have "\<dots> < unat bits" using assms by (simp add: unat_gt_0)
  finally show ?thesis .
qed

lemma test_set_probes:
  assumes "bits \<noteq> 0" and "unat bits \<le> 8 * length array"
  shows "test_probes bits delta k h (set_probes bits delta k h array)"
  using assms
proof (induction k arbitrary: h array)
  case (Suc k)
  let ?p = "bitpos bits h"
  have "?p div 8 < length array" using bitpos_bound [OF Suc.prems(1), of h] Suc.prems(2) by linarith
  then have "test_bit_at ?p (set_probes bits delta k (h + delta) (set_bit_at ?p array))"
    by (intro test_set_probes_mono test_set_same)
  with Suc show ?case by simp
qed simp

lemma length_add_keys [simp]:
  "length (fold (add_key bits k) keys array) = length array"
  by (induction keys arbitrary: array) (simp_all add: add_key_def Let_def)

lemma add_keys_mono:
  "test_bit_at q array \<Longrightarrow> test_bit_at q (fold (add_key bits k) keys array)"
  by (induction keys arbitrary: array) (simp_all add: add_key_def Let_def test_set_probes_mono)

lemma test_added_keys:
  assumes "bits \<noteq> 0" and "unat bits \<le> 8 * length array" and "key \<in> set keys"
  shows "test_probes bits (bloom_delta (bloom_hash key)) k (bloom_hash key)
    (fold (add_key bits k) keys array)"
  using assms
proof (induction keys arbitrary: array)
  case (Cons a keys)
  show ?case
  proof (cases "key = a")
    case True
    let ?h = "bloom_hash key"
    have "test_probes bits (bloom_delta ?h) k ?h (add_key bits k a array)"
      using Cons.prems True by (simp add: add_key_def Let_def test_set_probes)
    then show ?thesis by (auto intro: test_probes_mono [OF add_keys_mono])
  qed (use Cons in \<open>simp add: add_key_def Let_def\<close>)
qed simp

lemma test_bit_at_append:
  "p div 8 < length array \<Longrightarrow> test_bit_at p (array @ rest) = test_bit_at p array"
  by (simp add: test_bit_at_def nth_append)

lemma test_probes_append:
  assumes "bits \<noteq> 0" and "unat bits \<le> 8 * length array"
  shows "test_probes bits delta k h (array @ rest) = test_probes bits delta k h array"
proof (induction k arbitrary: h)
  case (Suc k)
  have "bitpos bits h div 8 < length array" using bitpos_bound [OF assms(1), of h] assms(2) by linarith
  with Suc show ?case by (simp add: test_bit_at_append)
qed simp

section \<open>Sizes\<close>

lemma bloom_k_bounds: "1 \<le> bloom_k b" "bloom_k b \<le> 30"
  by (auto simp: bloom_k_def Let_def)

lemma unat_bloom_bytes:
  assumes "0 \<le> b" and "n * nat b < 2 ^ 64 - 7"
  shows "unat (bloom_bytes n b) = (max 64 (n * nat b) + 7) div 8"
proof -
  let ?bits = "of_nat n * of_int b :: u64"
  have "?bits = of_nat (n * nat b)" using assms(1) by simp
  moreover have "unat (of_nat (n * nat b) :: u64) = n * nat b"
    using assms(2) by (intro unat_of_nat64) simp
  ultimately have u: "unat ?bits = n * nat b" by (simp only:)
  define bits' where "bits' = (if ?bits < 64 then 64 else ?bits)"
  have b': "unat bits' = max 64 (n * nat b)"
    using u by (auto simp: bits'_def word_less_nat_alt max_def)
  have "unat (bits' + 7) = max 64 (n * nat b) + 7"
    using assms(2) b' by (simp add: unat_word_ariths)
  then show ?thesis by (simp add: bloom_bytes_def Let_def bits'_def unat_div_distrib)
qed

lemma unat_bloom_bits:
  assumes "0 \<le> b" and "n * nat b < 2 ^ 64 - 7"
  shows "unat (bloom_bytes n b * 8) = 8 * unat (bloom_bytes n b)" "8 \<le> unat (bloom_bytes n b)"
proof -
  have "unat (bloom_bytes n b) * 8 \<le> max 64 (n * nat b) + 7"
    by (simp add: unat_bloom_bytes [OF assms])
  then have "unat (bloom_bytes n b) * 8 < 2 ^ 64" using assms(2) by simp
  then show "unat (bloom_bytes n b * 8) = 8 * unat (bloom_bytes n b)"
    by (simp add: unat_word_ariths)
  show "8 \<le> unat (bloom_bytes n b)" by (simp add: unat_bloom_bytes [OF assms])
qed

lemma unat_bloom_k [simp]: "unat (of_nat (bloom_k b) :: byte) = bloom_k b"
  using bloom_k_bounds [of b] by (simp add: unat_of_nat_small)

lemma length_CreateFilter [simp]:
  "length (CreateFilter keys b dst) = length dst + unat (bloom_bytes (length keys) b) + 1"
  by (simp add: CreateFilter_def Let_def)

lemma CreateFilter_no_false_negative:
  assumes "0 \<le> b" and "length keys * nat b < 2 ^ 64 - 7" and "key \<in> set keys"
  shows "KeyMayMatch key (CreateFilter keys b [])"
proof -
  define nbytes where "nbytes = bloom_bytes (length keys) b"
  define array where "array = fold (add_key (nbytes * 8) (bloom_k b)) keys (replicate (unat nbytes) 0)"
  have f: "CreateFilter keys b [] = array @ [of_nat (bloom_k b)]"
    by (simp add: CreateFilter_def Let_def array_def nbytes_def)
  have len: "length array = unat nbytes" by (simp add: array_def)
  note bits = unat_bloom_bits [OF assms(1,2), folded nbytes_def]
  have nz: "nbytes * 8 \<noteq> 0" using bits by (metis le_zero_eq mult_eq_0_iff unat_0 zero_neq_numeral)
  have "test_probes (nbytes * 8) (bloom_delta (bloom_hash key)) (bloom_k b) (bloom_hash key) array"
    unfolding array_def by (rule test_added_keys) (use nz bits assms(3) in simp_all)
  then have "test_probes (nbytes * 8) (bloom_delta (bloom_hash key)) (bloom_k b) (bloom_hash key)
      (array @ [of_nat (bloom_k b)])"
    by (subst test_probes_append) (use nz bits len in simp_all)
  then show ?thesis
    using bits(2) bloom_k_bounds(2) [of b]
    by (simp add: KeyMayMatch_def f len Let_def nth_append mult.commute)
qed

lemma bloom_k_Suc: "\<exists>j. bloom_k b = Suc j"
  using bloom_k_bounds(1) [of b] by (cases "bloom_k b") auto

lemma CreateFilter_empty_rejects:
  assumes "0 \<le> b"
  shows "\<not> KeyMayMatch key (CreateFilter [] b [])"
proof -
  note bits = unat_bloom_bits [OF assms, of 0, simplified]
  define n where "n = unat (bloom_bytes 0 b)"
  have n: "n = 8" using unat_bloom_bytes [OF assms, of 0] by (simp add: n_def)
  have f: "CreateFilter [] b [] = replicate 8 0 @ [of_nat (bloom_k b)]"
    using n by (simp add: CreateFilter_def Let_def n_def)
  obtain j where j: "bloom_k b = Suc j" using bloom_k_Suc by blast
  have "bitpos 64 h div 8 < 8" for h
    using bitpos_bound [of 64 h] by simp
  then have "\<not> test_bit_at (bitpos 64 h) (replicate 8 0 @ [x])" for h x
    by (simp add: test_bit_at_iff nth_append)
  then have "\<not> test_probes 64 d (bloom_k b) h (replicate 8 0 @ [x])" for d h x
    by (simp add: j)
  then show ?thesis
    using bloom_k_bounds(2) [of b] by (simp add: KeyMayMatch_def f Let_def nth_append)
qed

section \<open>Properties\<close>

text \<open>C9: A Bloom filter has no false negatives: every key it was built from may match it, for
  every number of bits per key that the sizes of the source can represent.\<close>

theorem bloom_no_false_negative:
  assumes "0 \<le> bits_per_key" and "length keys * nat bits_per_key < 2 ^ 64 - 7" and "key \<in> set keys"
  shows "KeyMayMatch key (CreateFilter keys bits_per_key [])"
  using assms by (rule CreateFilter_no_false_negative)

theorem bloom_no_false_negative_witness:
  "KeyMayMatch [107, 49] (CreateFilter [[97], [107, 49], []] 10 [])"
  by (rule bloom_no_false_negative) simp_all

text \<open>C10: The filter that \<^verbatim>\<open>CreateFilter\<close> appends has one byte for every eight bits, at least
  64 bits, then the number of probes, between 1 and 30; and a filter no key was added to
  rejects every key.\<close>

theorem bloom_filter_layout:
  assumes "0 \<le> bits_per_key" and "length keys * nat bits_per_key < 2 ^ 64 - 7"
  shows "length (CreateFilter keys bits_per_key dst)
           = length dst + (max 64 (length keys * nat bits_per_key) + 7) div 8 + 1
       \<and> 1 \<le> last (CreateFilter keys bits_per_key dst) \<and> last (CreateFilter keys bits_per_key dst) \<le> 30
       \<and> \<not> KeyMayMatch key (CreateFilter [] bits_per_key [])"
proof -
  have "1 \<le> (of_nat (bloom_k bits_per_key) :: byte)" "(of_nat (bloom_k bits_per_key) :: byte) \<le> 30"
    using bloom_k_bounds [of bits_per_key] by (simp_all add: word_le_nat_alt)
  moreover have "last (CreateFilter keys bits_per_key dst) = of_nat (bloom_k bits_per_key)"
    by (simp add: CreateFilter_def Let_def)
  moreover have "\<not> KeyMayMatch key (CreateFilter [] bits_per_key [])"
    using CreateFilter_empty_rejects assms(1) by simp
  ultimately show ?thesis by (simp add: unat_bloom_bytes [OF assms])
qed

theorem bloom_filter_layout_witness:
  "length (CreateFilter [[97], [107, 49], []] 10 []) = 9 \<and> \<not> KeyMayMatch [97] (CreateFilter [] 10 [])"
  using bloom_filter_layout [of 10 "[[97], [107, 49], []]" "[]" "[97]"] by simp

end
