(* ===== verification/Internal_Iterator.thy ===== *)
theory Internal_Iterator
  imports Slice_Format Status
begin

text \<open>
  Entries and the contract of an internal iterator (src/iterator_internal.h,
  include/strata/iterator.h).  An entry is the struct the memtable stores; the same four
  fields travel through blocks, tables and iterators.  The locale \<open>forward_iterator\<close> states
  what \<^verbatim>\<open>InternalIterator\<close> promises to a client that only moves forward: the iterator
  stands at a position of a fixed list of entries, and each operation moves it to the position
  its comment in the source names.  \<open>bidirectional_iterator\<close> adds the backward moves.

  Operations thread an environment: the files and the block cache that a table iterator
  reads, nothing for a memtable.
\<close>

record MemtableEntry =
  e_key :: bytes
  e_seq :: SequenceNumber
  e_type :: ValueType
  e_value :: bytes

abbreviation ikey :: "MemtableEntry \<Rightarrow> bytes \<times> SequenceNumber" where
  "ikey e \<equiv> (e_key e, e_seq e)"

abbreviation entry_less :: "MemtableEntry \<Rightarrow> MemtableEntry \<Rightarrow> bool" where
  "entry_less a b \<equiv> ikey_less (ikey a) (ikey b)"

text \<open>Sorted by internal key, and by user key alone.\<close>

definition sorted_entries :: "MemtableEntry list \<Rightarrow> bool" where
  "sorted_entries es \<longleftrightarrow> sorted_wrt entry_less es"

definition keys_sorted :: "MemtableEntry list \<Rightarrow> bool" where
  "keys_sorted es \<longleftrightarrow> sorted (map e_key es)"

lemma sorted_entries_Nil [simp]: "sorted_entries []"
  by (simp add: sorted_entries_def)

lemma sorted_entries_Cons [simp]:
  "sorted_entries (e # es) \<longleftrightarrow> (\<forall>x \<in> set es. entry_less e x) \<and> sorted_entries es"
  by (simp add: sorted_entries_def)

lemma sorted_entries_append:
  "sorted_entries (xs @ ys) \<longleftrightarrow>
     sorted_entries xs \<and> sorted_entries ys \<and> (\<forall>x \<in> set xs. \<forall>y \<in> set ys. entry_less x y)"
  by (auto simp: sorted_entries_def sorted_wrt_append)

lemma sorted_entries_distinct: "sorted_entries es \<Longrightarrow> distinct (map ikey es)"
  by (induction es) (auto simp: ikey_less_def)

lemma sorted_entries_unique:
  "sorted_entries xs \<Longrightarrow> sorted_entries ys \<Longrightarrow> set xs = set ys \<Longrightarrow> xs = ys"
proof (induction xs arbitrary: ys)
  case (Cons x xs)
  then obtain y ys' where ys: "ys = y # ys'" by (cases ys) auto
  have "x \<in> set ys" "y \<in> set (x # xs)" using Cons.prems(3) ys by auto
  then have "x = y" using Cons.prems(1,2) ikey_less_asym unfolding ys by auto
  moreover have "x \<notin> set xs" "y \<notin> set ys'" using Cons.prems(1,2) ys by auto
  ultimately have "set xs = set ys'" using Cons.prems(3) ys by (metis insert_ident list.simps(15))
  then show ?case using Cons ys \<open>x = y\<close> by simp
qed simp

lemma sorted_entries_keys: "sorted_entries es \<Longrightarrow> keys_sorted es"
  by (induction es) (auto simp: keys_sorted_def ikey_less_def)

lemma keys_sorted_nth: "keys_sorted es \<Longrightarrow> i \<le> j \<Longrightarrow> j < length es \<Longrightarrow> e_key (es ! i) \<le> e_key (es ! j)"
  using sorted_nth_mono [of "map e_key es" i j] by (simp add: keys_sorted_def)

text \<open>The position a seek goes to: past every entry with a smaller user key.\<close>

definition seek_pos :: "bytes \<Rightarrow> MemtableEntry list \<Rightarrow> nat" where
  "seek_pos target es = length (takeWhile (\<lambda>e. e_key e < target) es)"

lemma seek_pos_le: "seek_pos target es \<le> length es"
  by (simp add: seek_pos_def length_takeWhile_le)

lemma before_seek_pos: "i < seek_pos target es \<Longrightarrow> e_key (es ! i) < target"
  unfolding seek_pos_def
  by (metis (mono_tags, lifting) nth_mem set_takeWhileD takeWhile_nth)

lemma at_seek_pos: "seek_pos target es < length es \<Longrightarrow> target \<le> e_key (es ! seek_pos target es)"
  unfolding seek_pos_def using nth_length_takeWhile [of "\<lambda>e. e_key e < target" es] by simp

lemma seek_pos_valid: "seek_pos target es < length es \<longleftrightarrow> (\<exists>e \<in> set es. target \<le> e_key e)"
  using at_seek_pos [of target es] before_seek_pos [of _ target es]
  by (metis in_set_conv_nth leD le_neq_implies_less nth_mem seek_pos_le)

lemma seek_posI:
  assumes "i \<le> length es" and "\<And>j. j < i \<Longrightarrow> e_key (es ! j) < target"
    and "i < length es \<Longrightarrow> target \<le> e_key (es ! i)"
  shows "seek_pos target es = i"
proof (rule antisym)
  show "seek_pos target es \<le> i"
    using assms(1,3) before_seek_pos [of i target es] seek_pos_le [of target es]
    by (metis leD le_neq_implies_less not_le)
  show "i \<le> seek_pos target es"
    using assms(1,2) at_seek_pos [of target es] by (metis leD not_le order_less_le_trans)
qed

section \<open>What a lookup finds\<close>

text \<open>
  What a lookup returns: \<open>None\<close> is \<^verbatim>\<open>false\<close>; \<open>Some (s, v)\<close> is \<^verbatim>\<open>true\<close> with the
  status \<open>s\<close> and, when it was assigned, the value.
\<close>

type_synonym lookup_result = "(Status \<times> bytes option) option"

text \<open>
  The versions of a key a reader at sequence number \<open>seq\<close> may see, and the answer the first of
  them gives.
\<close>

definition readable :: "bytes \<Rightarrow> SequenceNumber \<Rightarrow> MemtableEntry \<Rightarrow> bool" where
  "readable key seq e \<longleftrightarrow> e_key e = key \<and> e_seq e \<le> seq \<and> (e_type e = kTypeValue \<or> e_type e = kTypeDeletion)"

definition found_result :: "MemtableEntry option \<Rightarrow> lookup_result" where
  "found_result f = (case f of None \<Rightarrow> None
     | Some e \<Rightarrow> Some (if e_type e = kTypeValue then (OK, Some (e_value e)) else (NotFound '''', None)))"

lemma found_result_None [simp]: "found_result None = None"
  by (simp add: found_result_def)

lemma find_none: "(\<And>e. e \<in> set es \<Longrightarrow> \<not> P e) \<Longrightarrow> find P es = None"
  by (simp add: find_None_iff)

lemma find_append: "find P (xs @ ys) = (case find P xs of None \<Rightarrow> find P ys | Some x \<Rightarrow> Some x)"
  by (induction xs) simp_all

section \<open>The iterator contract\<close>

locale forward_iterator =
  fixes env_ok :: "'env \<Rightarrow> bool"
    and at :: "'it \<Rightarrow> MemtableEntry list \<Rightarrow> nat \<Rightarrow> bool"
    and Valid :: "'it \<Rightarrow> bool"
    and Entry :: "'it \<Rightarrow> MemtableEntry"
    and SeekToFirst :: "'it \<Rightarrow> 'env \<Rightarrow> 'it \<times> 'env"
    and Seek :: "bytes \<Rightarrow> 'it \<Rightarrow> 'env \<Rightarrow> 'it \<times> 'env"
    and Next :: "'it \<Rightarrow> 'env \<Rightarrow> 'it \<times> 'env"
  assumes at_sorted: "at it es i \<Longrightarrow> keys_sorted es \<and> i \<le> length es"
    and valid_iff: "at it es i \<Longrightarrow> Valid it \<longleftrightarrow> i < length es"
    and entry_at: "at it es i \<Longrightarrow> i < length es \<Longrightarrow> Entry it = es ! i"
    and first_at: "at it es i \<Longrightarrow> env_ok env \<Longrightarrow> SeekToFirst it env = (it', env')
      \<Longrightarrow> at it' es 0 \<and> env_ok env'"
    and seek_at: "at it es i \<Longrightarrow> env_ok env \<Longrightarrow> Seek target it env = (it', env')
      \<Longrightarrow> at it' es (seek_pos target es) \<and> env_ok env'"
    and next_at: "at it es i \<Longrightarrow> i < length es \<Longrightarrow> env_ok env \<Longrightarrow> Next it env = (it', env')
      \<Longrightarrow> at it' es (Suc i) \<and> env_ok env'"

context forward_iterator
begin

text \<open>\<open>n\<close> steps forward from the first entry.\<close>

lemma walk:
  assumes "at it es i" and "env_ok env" and "n \<le> length es"
  shows "case ((\<lambda>(it, env). Next it env) ^^ n) (SeekToFirst it env) of (it', env') \<Rightarrow> at it' es n \<and> env_ok env'"
  using assms(3)
proof (induction n)
  case 0
  then show ?case using first_at [OF assms(1,2)] by (auto split: prod.split)
next
  case (Suc n)
  then show ?case using next_at by (auto split: prod.splits)
qed

end

locale bidirectional_iterator = forward_iterator +
  fixes SeekToLast :: "'a \<Rightarrow> 'b \<Rightarrow> 'a \<times> 'b"
    and Prev :: "'a \<Rightarrow> 'b \<Rightarrow> 'a \<times> 'b"
  assumes last_at: "at it es i \<Longrightarrow> env_ok env \<Longrightarrow> SeekToLast it env = (it', env')
      \<Longrightarrow> at it' es (if es = [] then 0 else length es - 1) \<and> env_ok env'"
    and prev_at: "at it es i \<Longrightarrow> i < length es \<Longrightarrow> env_ok env \<Longrightarrow> Prev it env = (it', env')
      \<Longrightarrow> at it' es (if i = 0 then length es else i - 1) \<and> env_ok env'"

end
