(* ===== verification/Block.thy ===== *)
theory Block
  imports Coding Internal_Iterator
begin

text \<open>
  Blocks of a table (src/block.h, src/block.cc): block handles, the builder that lays entries
  out and records a restart point every \<^verbatim>\<open>restart_interval\<close> entries, and the iterator
  with its binary search over the restart points.

  Offsets are \<^verbatim>\<open>uint32_t\<close> in the source; here they are natural numbers, with
  \<open>mod 2 ^ 32\<close> at each narrowing cast.  The bounds that \<^verbatim>\<open>ParseEntryAt\<close> checks in 64 bits
  cannot overflow there, and they keep every later 32-bit sum below \<^verbatim>\<open>restarts_offset_\<close>.
  \<^verbatim>\<open>Seek\<close> reads keys at restart points without checking them, so its model is a partial
  function: \<open>None\<close> is a read outside the block.  The loops of \<^verbatim>\<open>SeekToLast\<close> and \<^verbatim>\<open>Prev\<close>
  need not end on a damaged block; there \<open>None\<close> is not returning.  Assertions are
  preconditions of the lemmas.
\<close>

section \<open>Block handles\<close>

record BlockHandle =
  bh_offset :: u64
  bh_size :: u64

definition BlockHandle_EncodeTo :: "BlockHandle \<Rightarrow> bytes \<Rightarrow> bytes" where
  "BlockHandle_EncodeTo h dst = PutFixed64 (PutFixed64 dst (bh_offset h)) (bh_size h)"

definition BlockHandle_DecodeFrom :: "bytes \<Rightarrow> Status + BlockHandle \<times> bytes" where
  "BlockHandle_DecodeFrom input =
     (if length input < 16 then Inl (Corruption ''Bad block handle'')
      else Inr (\<lparr>bh_offset = DecodeFixed64 input, bh_size = DecodeFixed64 (drop 8 input)\<rparr>, drop 16 input))"

lemma BlockHandle_roundtrip [simp]:
  "BlockHandle_DecodeFrom (BlockHandle_EncodeTo h [] @ rest) = Inr (h, rest)"
  "BlockHandle_DecodeFrom (BlockHandle_EncodeTo h []) = Inr (h, [])"
  by (simp_all add: BlockHandle_DecodeFrom_def BlockHandle_EncodeTo_def PutFixed64_def)

lemma length_BlockHandle_EncodeTo [simp]: "length (BlockHandle_EncodeTo h dst) = length dst + 16"
  by (simp add: BlockHandle_EncodeTo_def PutFixed64_def)

section \<open>Builder\<close>

record BlockBuilder =
  bb_restart_interval :: int
  bb_buffer :: bytes
  bb_restarts :: "u32 list"
  bb_counter :: int
  bb_finished :: bool

definition BlockBuilder_new :: "int \<Rightarrow> BlockBuilder" where
  "BlockBuilder_new restart_interval =
     \<lparr>bb_restart_interval = restart_interval, bb_buffer = [], bb_restarts = [0], bb_counter = 0,
      bb_finished = False\<rparr>"

definition BlockBuilder_Reset :: "BlockBuilder \<Rightarrow> BlockBuilder" where
  "BlockBuilder_Reset bb =
     bb\<lparr>bb_buffer := [], bb_restarts := [0], bb_counter := 0, bb_finished := False\<rparr>"

definition BlockBuilder_Add ::
  "SequenceNumber \<Rightarrow> ValueType \<Rightarrow> bytes \<Rightarrow> bytes \<Rightarrow> BlockBuilder \<Rightarrow> BlockBuilder" where
  "BlockBuilder_Add seq type key val bb0 =
     (let bb = (if bb_counter bb0 \<ge> bb_restart_interval bb0
                then bb0\<lparr>bb_restarts := bb_restarts bb0 @ [of_nat (length (bb_buffer bb0))],
                         bb_counter := 0\<rparr>
                else bb0);
          b1 = PutFixed32 (bb_buffer bb) (of_nat (length key)) @ key;
          b2 = PutFixed64 b1 seq @ [type];
          b3 = PutFixed32 b2 (of_nat (length val)) @ val
      in bb\<lparr>bb_buffer := b3, bb_counter := bb_counter bb + 1\<rparr>)"

definition BlockBuilder_Finish :: "BlockBuilder \<Rightarrow> BlockBuilder" where
  "BlockBuilder_Finish bb =
     bb\<lparr>bb_buffer := PutFixed32 (fold (\<lambda>r dst. PutFixed32 dst r) (bb_restarts bb) (bb_buffer bb))
                      (of_nat (length (bb_restarts bb))),
        bb_finished := True\<rparr>"

definition CurrentSizeEstimate :: "BlockBuilder \<Rightarrow> nat" where
  "CurrentSizeEstimate bb = length (bb_buffer bb) + length (bb_restarts bb) * 4 + 4"

definition BlockBuilder_Empty :: "BlockBuilder \<Rightarrow> bool" where
  "BlockBuilder_Empty bb \<longleftrightarrow> bb_buffer bb = []"

section \<open>Block and iterator\<close>

record Block =
  blk_data :: bytes
  blk_restarts_offset :: nat
  blk_num_restarts :: nat

definition Block_new :: "bytes \<Rightarrow> Block" where
  "Block_new data =
     (if length data \<ge> 4
      then let num_restarts = unat (DecodeFixed32 (drop (length data - 4) data));
               max_restarts = (length data - 4) div 4
        in if num_restarts \<le> max_restarts
           then \<lparr>blk_data = data,
                 blk_restarts_offset = (length data - (1 + num_restarts) mod 2 ^ 32 * 4) mod 2 ^ 32,
                 blk_num_restarts = num_restarts\<rparr>
           else \<lparr>blk_data = data, blk_restarts_offset = 0, blk_num_restarts = 0\<rparr>
      else \<lparr>blk_data = data, blk_restarts_offset = 0, blk_num_restarts = 0\<rparr>)"

record BlockIter =
  bi_data :: bytes
  bi_restarts_offset :: nat
  bi_num_restarts :: nat
  bi_current :: nat
  bi_next_offset :: nat
  bi_key :: bytes
  bi_seq :: SequenceNumber
  bi_type :: ValueType
  bi_value :: bytes
  bi_status :: Status

definition BlockIter_new :: "Block \<Rightarrow> BlockIter" where
  "BlockIter_new b =
     \<lparr>bi_data = blk_data b, bi_restarts_offset = blk_restarts_offset b,
      bi_num_restarts = blk_num_restarts b, bi_current = blk_restarts_offset b,
      bi_next_offset = 0, bi_key = [], bi_seq = 0, bi_type = kTypeValue, bi_value = [],
      bi_status = OK\<rparr>"

definition BlockIter_Valid :: "BlockIter \<Rightarrow> bool" where
  "BlockIter_Valid it \<longleftrightarrow> bi_current it < bi_restarts_offset it"

definition GetRestartOffset :: "BlockIter \<Rightarrow> nat \<Rightarrow> nat" where
  "GetRestartOffset it index =
     unat (DecodeFixed32 (drop (bi_restarts_offset it + index * 4) (bi_data it)))"

abbreviation invalidate :: "BlockIter \<Rightarrow> BlockIter" where
  "invalidate it \<equiv> it\<lparr>bi_current := bi_restarts_offset it\<rparr>"

definition ParseEntryAt :: "nat \<Rightarrow> BlockIter \<Rightarrow> BlockIter" where
  "ParseEntryAt offset it =
     (let data = bi_data it; restarts_offset = bi_restarts_offset it
      in if offset \<ge> restarts_offset then invalidate it
         else if offset + 17 > restarts_offset
         then invalidate (it\<lparr>bi_status := Corruption ''Truncated block entry''\<rparr>)
         else let klen = unat (DecodeFixed32 (drop offset data))
           in if offset + 17 + klen > restarts_offset
              then invalidate (it\<lparr>bi_status := Corruption ''Truncated block entry key''\<rparr>)
              else let it1 = it\<lparr>bi_key := sub (offset + 4) klen data,
                                bi_seq := DecodeFixed64 (drop (offset + 4 + klen) data),
                                bi_type := data ! (offset + 4 + klen + 8)\<rparr>;
                       vlen = unat (DecodeFixed32 (drop (offset + 4 + klen + 9) data))
                in if offset + 17 + klen + vlen > restarts_offset
                   then invalidate (it1\<lparr>bi_status := Corruption ''Truncated block entry value''\<rparr>)
                   else it1\<lparr>bi_value := sub (offset + 4 + klen + 13) vlen data,
                            bi_current := offset,
                            bi_next_offset := offset + 17 + klen + vlen\<rparr>)"

definition BlockIter_SeekToFirst :: "BlockIter \<Rightarrow> BlockIter" where
  "BlockIter_SeekToFirst it =
     (if bi_num_restarts it = 0 then invalidate it else ParseEntryAt 0 it)"

text \<open>
  \<^verbatim>\<open>while (true) { ParseEntryAt(offset); if (next_offset_ >= limit) break; offset = next_offset_; }\<close>
\<close>

partial_function (option) parse_until :: "nat \<Rightarrow> nat \<Rightarrow> BlockIter \<Rightarrow> BlockIter option" where
  "parse_until limit offset it =
     (let it1 = ParseEntryAt offset it
      in if bi_next_offset it1 \<ge> limit then Some it1
         else parse_until limit (bi_next_offset it1) it1)"

declare parse_until.simps [code]

lemma parse_until_induct:
  assumes "parse_until limit offset it = Some y"
    and "\<And>rec limit offset it y. (\<And>limit offset it y. rec limit offset it = Some y \<Longrightarrow> P limit offset it y)
      \<Longrightarrow> (let it1 = ParseEntryAt offset it in if bi_next_offset it1 \<ge> limit then Some it1
            else rec limit (bi_next_offset it1) it1) = Some y \<Longrightarrow> P limit offset it y"
  shows "P limit offset it y"
  using assms(2,1) by (rule parse_until.raw_induct)

definition BlockIter_SeekToLast :: "BlockIter \<Rightarrow> BlockIter option" where
  "BlockIter_SeekToLast it =
     (if bi_num_restarts it = 0 then Some (invalidate it)
      else parse_until (bi_restarts_offset it) (GetRestartOffset it (bi_num_restarts it - 1)) it)"

definition to_int32 :: "nat \<Rightarrow> int" where
  "to_int32 n = (if n < 2 ^ 31 then int n else int n - 2 ^ 32)"

text \<open>The binary searches of \<^verbatim>\<open>Seek\<close> and \<^verbatim>\<open>Prev\<close>, with the test at a restart point as argument.\<close>

function restart_search :: "(nat \<Rightarrow> bool option) \<Rightarrow> int \<Rightarrow> int \<Rightarrow> nat \<Rightarrow> nat option" where
  "restart_search before left right target_restart =
     (if left \<le> right
      then let mid = left + (right - left) div 2
        in case before (nat mid) of
             None \<Rightarrow> None
           | Some True \<Rightarrow> restart_search before (mid + 1) right (nat mid)
           | Some False \<Rightarrow> restart_search before left (mid - 1) target_restart
      else Some target_restart)"
  by pat_completeness auto
termination
  by (relation "measure (\<lambda>(_, l, r, _). nat (r - l + 1))") auto

declare restart_search.simps [simp del]

definition restart_key_less :: "BlockIter \<Rightarrow> bytes \<Rightarrow> nat \<Rightarrow> bool option" where
  "restart_key_less it target mid =
     (let offset = GetRestartOffset it mid
      in if length (bi_data it) < offset + 4 then None
         else let klen = unat (DecodeFixed32 (drop offset (bi_data it)))
           in if length (bi_data it) < offset + 4 + klen then None
              else Some (sub (offset + 4) klen (bi_data it) < target))"

lemma ParseEntryAt_frame [simp]:
  "bi_data (ParseEntryAt offset it) = bi_data it"
  "bi_restarts_offset (ParseEntryAt offset it) = bi_restarts_offset it"
  "bi_num_restarts (ParseEntryAt offset it) = bi_num_restarts it"
  by (simp_all add: ParseEntryAt_def Let_def)

lemma ParseEntryAt_valid:
  assumes "BlockIter_Valid (ParseEntryAt offset it)"
  shows "bi_current (ParseEntryAt offset it) = offset"
    and "offset + 17 \<le> bi_next_offset (ParseEntryAt offset it)"
    and "bi_next_offset (ParseEntryAt offset it) \<le> bi_restarts_offset it"
  using assms by (auto simp: ParseEntryAt_def BlockIter_Valid_def Let_def split: if_splits)

function seek_scan :: "bytes \<Rightarrow> nat \<Rightarrow> BlockIter \<Rightarrow> BlockIter" where
  "seek_scan target offset it =
     (if offset < bi_restarts_offset it
      then let it1 = ParseEntryAt offset it
        in if \<not> BlockIter_Valid it1 then invalidate it1
           else if bi_key it1 \<ge> target then it1
           else seek_scan target (bi_next_offset it1) it1
      else invalidate it)"
  by pat_completeness auto
termination
  by (relation "measure (\<lambda>(_, offset, it). bi_restarts_offset it - offset)")
    (auto dest: ParseEntryAt_valid)

declare seek_scan.simps [simp del]

definition BlockIter_Seek :: "bytes \<Rightarrow> BlockIter \<Rightarrow> BlockIter option" where
  "BlockIter_Seek target it =
     (if bi_num_restarts it = 0 then Some (invalidate it)
      else case restart_search (restart_key_less it target) 0 (to_int32 (bi_num_restarts it) - 1) 0 of
        None \<Rightarrow> None
      | Some target_restart \<Rightarrow> Some (seek_scan target (GetRestartOffset it target_restart) it))"

definition BlockIter_Next :: "BlockIter \<Rightarrow> BlockIter" where
  "BlockIter_Next it = ParseEntryAt (bi_next_offset it) it"

definition BlockIter_Prev :: "BlockIter \<Rightarrow> BlockIter option" where
  "BlockIter_Prev it =
     (let original = bi_current it
      in case restart_search (\<lambda>mid. Some (GetRestartOffset it mid < original)) 0
                (to_int32 (bi_num_restarts it) - 1) 0 of
           None \<Rightarrow> None
         | Some target_restart \<Rightarrow>
             (let offset = GetRestartOffset it target_restart
              in if offset \<ge> original then Some (invalidate it)
                 else parse_until original offset it))"

definition BlockIter_Entry :: "BlockIter \<Rightarrow> MemtableEntry" where
  "BlockIter_Entry it =
     \<lparr>e_key = bi_key it, e_seq = bi_seq it, e_type = bi_type it, e_value = bi_value it\<rparr>"

section \<open>Layout\<close>

definition entry_bytes :: "MemtableEntry \<Rightarrow> bytes" where
  "entry_bytes e = EncodeFixed32 (of_nat (length (e_key e))) @ e_key e @ EncodeFixed64 (e_seq e) @ [e_type e]
     @ EncodeFixed32 (of_nat (length (e_value e))) @ e_value e"

definition block_body :: "MemtableEntry list \<Rightarrow> bytes" where
  "block_body es = concat (map entry_bytes es)"

definition offs :: "MemtableEntry list \<Rightarrow> nat \<Rightarrow> nat" where
  "offs es i = length (block_body (take i es))"

lemma length_entry_bytes [simp]: "length (entry_bytes e) = 17 + length (e_key e) + length (e_value e)"
  by (simp add: entry_bytes_def)

lemma block_body_simps [simp]:
  "block_body [] = []" "block_body (e # es) = entry_bytes e @ block_body es"
  "block_body (xs @ ys) = block_body xs @ block_body ys"
  by (simp_all add: block_body_def)

lemma offs_0 [simp]: "offs es 0 = 0"
  by (simp add: offs_def)

lemma offs_length [simp]: "offs es (length es) = length (block_body es)"
  by (simp add: offs_def)

lemma offs_Suc: "i < length es \<Longrightarrow> offs es (Suc i) = offs es i + length (entry_bytes (es ! i))"
  by (simp add: offs_def take_Suc_conv_app_nth)

lemma offs_append [simp]: "i \<le> length es \<Longrightarrow> offs (es @ xs) i = offs es i"
  by (simp add: offs_def)

lemma offs_mono: "i \<le> j \<Longrightarrow> j \<le> length es \<Longrightarrow> offs es i \<le> offs es j"
  by (induction j) (auto simp: offs_Suc le_Suc_eq)

lemma offs_strict: "i < j \<Longrightarrow> j \<le> length es \<Longrightarrow> offs es i + 17 \<le> offs es j"
  using offs_mono [of "Suc i" j es] by (simp add: offs_Suc)

lemma offs_less_iff: "i \<le> length es \<Longrightarrow> j \<le> length es \<Longrightarrow> offs es i < offs es j \<longleftrightarrow> i < j"
  using offs_strict [of i j es] offs_mono [of j i es] by (cases "i < j") auto

lemma offs_less_body: "i < length es \<Longrightarrow> offs es i + 17 \<le> length (block_body es)"
  using offs_strict [of i "length es" es] by simp

lemma drop_offs:
  assumes "i < length es"
  shows "drop (offs es i) (block_body es @ rest) =
    entry_bytes (es ! i) @ block_body (drop (Suc i) es) @ rest"
proof -
  have "block_body es = block_body (take i es) @ entry_bytes (es ! i) @ block_body (drop (Suc i) es)"
    using arg_cong [OF id_take_nth_drop [OF assms], of block_body] by simp
  then show ?thesis by (simp add: offs_def)
qed

section \<open>Reading one entry\<close>

lemma drop_plus: "drop a xs = ys \<Longrightarrow> drop (a + n) xs = drop n ys"
  by (metis add.commute drop_drop)

lemma nth_plus: "drop a xs = ys \<Longrightarrow> a + n < length xs \<Longrightarrow> xs ! (a + n) = ys ! n"
  by auto

lemma entry_fields:
  fixes e rest
  defines "D \<equiv> entry_bytes e @ rest" and "k \<equiv> length (e_key e)"
  assumes "length (entry_bytes e) < 2 ^ 32"
  shows "unat (DecodeFixed32 D) = k" "sub 4 k D = e_key e" "DecodeFixed64 (drop (4 + k) D) = e_seq e"
    "D ! (4 + k + 8) = e_type e" "unat (DecodeFixed32 (drop (4 + k + 9) D)) = length (e_value e)"
    "sub (4 + k + 13) (length (e_value e)) D = e_value e"
proof -
  have k: "k < 2 ^ 32" and v: "length (e_value e) < 2 ^ 32" using assms(3) by (simp_all add: k_def)
  show "unat (DecodeFixed32 D) = k" using k by (simp add: D_def k_def entry_bytes_def)
  show "sub 4 k D = e_key e" by (simp add: D_def k_def entry_bytes_def sub_def)
  show "DecodeFixed64 (drop (4 + k) D) = e_seq e" by (simp add: D_def k_def entry_bytes_def)
  show "D ! (4 + k + 8) = e_type e" by (simp add: D_def k_def entry_bytes_def nth_append)
  show "unat (DecodeFixed32 (drop (4 + k + 9) D)) = length (e_value e)"
    using v by (simp add: D_def k_def entry_bytes_def)
  show "sub (4 + k + 13) (length (e_value e)) D = e_value e"
    by (simp add: D_def k_def entry_bytes_def sub_def)
qed

definition load_entry :: "MemtableEntry \<Rightarrow> nat \<Rightarrow> nat \<Rightarrow> BlockIter \<Rightarrow> BlockIter" where
  "load_entry e cur nxt it = it\<lparr>bi_key := e_key e, bi_seq := e_seq e, bi_type := e_type e,
     bi_value := e_value e, bi_current := cur, bi_next_offset := nxt\<rparr>"

lemma ParseEntryAt_entry:
  assumes D: "drop offset (bi_data it) = entry_bytes e @ rest"
    and fits: "offset + length (entry_bytes e) \<le> bi_restarts_offset it"
    and size: "bi_restarts_offset it \<le> length (bi_data it)" "length (bi_data it) < 2 ^ 32"
  shows "ParseEntryAt offset it = load_entry e offset (offset + length (entry_bytes e)) it"
proof -
  let ?D = "entry_bytes e @ rest" and ?k = "length (e_key e)"
  have "length (entry_bytes e) < 2 ^ 32" using fits size by linarith
  note f = entry_fields [OF this, of rest]
  have 1: "unat (DecodeFixed32 (drop offset (bi_data it))) = ?k" using f(1) D by simp
  have 2: "sub (offset + 4) ?k (bi_data it) = e_key e"
    using f(2) drop_plus [OF D, of 4] by (simp add: sub_def)
  have 3: "DecodeFixed64 (drop (offset + 4 + ?k) (bi_data it)) = e_seq e"
    using f(3) drop_plus [OF D, of "4 + ?k"] by (simp add: add.assoc)
  have 4: "bi_data it ! (offset + 4 + ?k + 8) = e_type e"
    using f(4) nth_plus [OF D, of "4 + ?k + 8"] fits size by (simp add: add.assoc)
  have 5: "unat (DecodeFixed32 (drop (offset + 4 + ?k + 9) (bi_data it))) = length (e_value e)"
    using f(5) drop_plus [OF D, of "4 + ?k + 9"] by (simp add: add.assoc)
  have 6: "sub (offset + 4 + ?k + 13) (length (e_value e)) (bi_data it) = e_value e"
    using f(6) drop_plus [OF D, of "4 + ?k + 13"] by (simp add: sub_def add.assoc)
  show ?thesis
    unfolding ParseEntryAt_def Let_def 1 2 3 4 5 6
    using fits by (simp add: load_entry_def)
qed

section \<open>Well-formed blocks\<close>

text \<open>
  \<open>block_rep b es ps\<close>: block \<open>b\<close> holds the entries \<open>es\<close>, with restart points at the
  positions \<open>ps\<close>.
\<close>

definition block_rep :: "Block \<Rightarrow> MemtableEntry list \<Rightarrow> nat list \<Rightarrow> bool" where
  "block_rep b es ps \<longleftrightarrow>
     take (length (block_body es)) (blk_data b) = block_body es \<and>
     length (block_body es) + 4 \<le> length (blk_data b) \<and> length (blk_data b) < 2 ^ 32 \<and>
     blk_restarts_offset b = length (block_body es) \<and> blk_num_restarts b = length ps \<and>
     ps \<noteq> [] \<and> length ps < 2 ^ 31 \<and> ps ! 0 = 0 \<and> (\<forall>p \<in> set ps. p = 0 \<or> p < length es) \<and>
     (\<forall>j < length ps. unat (DecodeFixed32 (drop (length (block_body es) + j * 4) (blk_data b)))
        = offs es (ps ! j))"

definition bi_block :: "BlockIter \<Rightarrow> Block" where
  "bi_block it = \<lparr>blk_data = bi_data it, blk_restarts_offset = bi_restarts_offset it,
     blk_num_restarts = bi_num_restarts it\<rparr>"

lemma bi_block_simps [simp]:
  "blk_data (bi_block it) = bi_data it" "blk_restarts_offset (bi_block it) = bi_restarts_offset it"
  "blk_num_restarts (bi_block it) = bi_num_restarts it"
  "bi_block (BlockIter_new b) = b" "bi_block (load_entry e c n it) = bi_block it"
  "bi_block (it\<lparr>bi_current := c\<rparr>) = bi_block it"
  "bi_block (ParseEntryAt off it) = bi_block it"
  by (simp_all add: bi_block_def BlockIter_new_def load_entry_def)

text \<open>The iterator stands at entry \<open>i\<close>, or at no entry when \<open>i\<close> is the number of entries.\<close>

definition iter_at :: "BlockIter \<Rightarrow> MemtableEntry list \<Rightarrow> nat \<Rightarrow> bool" where
  "iter_at it es i \<longleftrightarrow> (\<exists>ps. block_rep (bi_block it) es ps) \<and> bi_status it = OK \<and> i \<le> length es \<and>
     bi_current it = offs es i \<and>
     (i < length es \<longrightarrow> bi_next_offset it = offs es (Suc i) \<and> BlockIter_Entry it = es ! i)"

lemma block_repD:
  assumes "block_rep (bi_block it) es ps"
  shows "bi_restarts_offset it = length (block_body es)" "length (bi_data it) < 2 ^ 32"
    "bi_restarts_offset it + 4 \<le> length (bi_data it)" "bi_num_restarts it = length ps" "ps \<noteq> []"
    "length ps < 2 ^ 31"
    "\<And>j. j < length ps \<Longrightarrow> GetRestartOffset it j = offs es (ps ! j)"
    "\<And>j. j < length ps \<Longrightarrow> ps ! j = 0 \<or> ps ! j < length es" "ps ! 0 = 0"
  using assms by (auto simp: block_rep_def GetRestartOffset_def)

lemma ParseEntryAt_offs:
  assumes "block_rep (bi_block it) es ps" and "i < length es"
  shows "ParseEntryAt (offs es i) it = load_entry (es ! i) (offs es i) (offs es (Suc i)) it"
proof -
  note r = block_repD [OF assms(1)]
  obtain rest where "bi_data it = block_body es @ rest"
    using assms(1) by (metis append_take_drop_id bi_block_simps(1) block_rep_def)
  then have D: "drop (offs es i) (bi_data it) =
      entry_bytes (es ! i) @ block_body (drop (Suc i) es) @ rest"
    by (simp add: drop_offs assms(2) del: drop_append)
  have fits: "offs es i + length (entry_bytes (es ! i)) \<le> bi_restarts_offset it"
    using offs_mono [of "Suc i" "length es" es] assms(2) r(1) by (simp add: offs_Suc)
  show ?thesis
    using ParseEntryAt_entry [OF D fits] r assms(2) by (simp add: offs_Suc)
qed

lemma ParseEntryAt_end:
  "block_rep (bi_block it) es ps \<Longrightarrow> ParseEntryAt (offs es (length es)) it = invalidate it"
  using block_repD(1) by (simp add: ParseEntryAt_def)

lemma iter_at_load:
  "block_rep (bi_block it) es ps \<Longrightarrow> bi_status it = OK \<Longrightarrow> i < length es
     \<Longrightarrow> iter_at (load_entry (es ! i) (offs es i) (offs es (Suc i)) it) es i"
  by (auto simp: iter_at_def load_entry_def BlockIter_Entry_def bi_block_def)

lemma iter_at_invalidate:
  "block_rep (bi_block it) es ps \<Longrightarrow> bi_status it = OK \<Longrightarrow> iter_at (invalidate it) es (length es)"
  using block_repD(1) by (auto simp: iter_at_def)

lemma iter_at_parse:
  assumes "block_rep (bi_block it) es ps" and "bi_status it = OK" and "i \<le> length es"
  shows "iter_at (ParseEntryAt (offs es i) it) es i"
proof (cases "i < length es")
  case True
  then show ?thesis using ParseEntryAt_offs [OF assms(1) True] iter_at_load [OF assms(1,2)] by simp
next
  case False
  then have "i = length es" using assms(3) by simp
  then show ?thesis
    using ParseEntryAt_end [OF assms(1)] iter_at_invalidate [OF assms(1,2)] by simp
qed

lemma iter_at_new: "block_rep b es ps \<Longrightarrow> iter_at (BlockIter_new b) es (length es)"
  by (auto simp: iter_at_def) (auto simp: BlockIter_new_def block_rep_def)

lemma iter_atE:
  assumes "iter_at it es i"
  obtains ps where "block_rep (bi_block it) es ps" "bi_status it = OK" "i \<le> length es"
  using assms by (auto simp: iter_at_def)

section \<open>The operations on a well-formed block\<close>

lemma iter_valid:
  assumes "iter_at it es i"
  shows "BlockIter_Valid it \<longleftrightarrow> i < length es"
proof -
  obtain ps where "block_rep (bi_block it) es ps" "bi_current it = offs es i" "i \<le> length es"
    using assms by (auto simp: iter_at_def)
  then show ?thesis
    using block_repD(1) offs_less_iff [of i es "length es"] by (simp add: BlockIter_Valid_def)
qed

lemma iter_entry: "iter_at it es i \<Longrightarrow> i < length es \<Longrightarrow> BlockIter_Entry it = es ! i"
  by (simp add: iter_at_def)

lemma iter_first: "iter_at it es i \<Longrightarrow> iter_at (BlockIter_SeekToFirst it) es 0"
  by (erule iter_atE, frule block_repD(4), frule block_repD(5))
    (use iter_at_parse [of it es _ 0] in \<open>auto simp: BlockIter_SeekToFirst_def\<close>)

lemma iter_next: "iter_at it es i \<Longrightarrow> i < length es \<Longrightarrow> iter_at (BlockIter_Next it) es (Suc i)"
  using iter_at_parse [of it es _ "Suc i"] by (auto simp: BlockIter_Next_def iter_at_def)

lemma parse_until_reaches:
  assumes "block_rep (bi_block it) es ps" and "bi_status it = OK" and "i \<le> j" and "j < length es"
  shows "\<exists>it'. parse_until (offs es (Suc j)) (offs es i) it = Some it' \<and> iter_at it' es j"
  using assms
proof (induction "j - i" arbitrary: i it)
  case 0
  then have "i = j" by simp
  with 0 show ?case
    by (subst parse_until.simps)
      (use ParseEntryAt_offs [OF 0(2), of j] iter_at_load [OF 0(2)] in \<open>simp add: load_entry_def\<close>)
next
  case (Suc n)
  let ?it1 = "load_entry (es ! i) (offs es i) (offs es (Suc i)) it"
  have i: "i < length es" "Suc i \<le> j" using Suc.hyps(2) Suc.prems(4) by linarith+
  have p: "ParseEntryAt (offs es i) it = ?it1" by (rule ParseEntryAt_offs [OF Suc.prems(1) i(1)])
  have less: "bi_next_offset ?it1 < offs es (Suc j)"
    using i Suc.prems(4) by (simp add: load_entry_def offs_less_iff)
  have "\<exists>it'. parse_until (offs es (Suc j)) (offs es (Suc i)) ?it1 = Some it' \<and> iter_at it' es j"
    by (rule Suc.hyps(1)) (use Suc.hyps(2) Suc.prems i in \<open>simp_all add: load_entry_def bi_block_def\<close>)
  then show ?case
    using less by (subst parse_until.simps) (simp add: p load_entry_def)
qed

lemma iter_last:
  assumes "iter_at it es i"
  shows "\<exists>it'. BlockIter_SeekToLast it = Some it' \<and> iter_at it' es (if es = [] then 0 else length es - 1)"
  using assms
proof (rule iter_atE)
  fix ps assume r: "block_rep (bi_block it) es ps" and ok: "bi_status it = OK"
  note R = block_repD [OF r]
  define p where "p = ps ! (length ps - 1)"
  have p: "GetRestartOffset it (bi_num_restarts it - 1) = offs es p" "p = 0 \<or> p < length es"
    using R(4,5) R(7,8) [of "length ps - 1"] by (auto simp: p_def)
  show ?thesis
  proof (cases "es = []")
    case True
    then have "parse_until (bi_restarts_offset it) (offs es p) it = Some (invalidate it)"
      using R(1) p by (subst parse_until.simps) (simp add: ParseEntryAt_def)
    then show ?thesis
      using True R p iter_at_invalidate [OF r ok] by (simp add: BlockIter_SeekToLast_def)
  next
    case False
    then have "p \<le> length es - 1" "length es - 1 < length es" using p by auto
    from parse_until_reaches [OF r ok this] False show ?thesis
      using R p by (simp add: BlockIter_SeekToLast_def)
  qed
qed

lemma restart_search_result:
  assumes "\<And>m. left \<le> int m \<Longrightarrow> int m \<le> right \<Longrightarrow> before m \<noteq> None" and "0 \<le> left"
  shows "\<exists>r. restart_search before left right t = Some r
    \<and> (r = t \<or> before r = Some True \<and> int r \<le> right)"
  using assms
proof (induction before left right t rule: restart_search.induct)
  case (1 before left right t)
  show ?case
  proof (cases "left \<le> right")
    case True
    define mid where "mid = left + (right - left) div 2"
    have mid: "left \<le> mid" "mid \<le> right" "0 \<le> mid" using True 1(4) by (auto simp: mid_def)
    obtain b where b: "before (nat mid) = Some b" using 1(3) [of "nat mid"] mid by auto
    show ?thesis
    proof (cases b)
      case True
      have "\<exists>r. restart_search before (mid + 1) right (nat mid) = Some r
          \<and> (r = nat mid \<or> before r = Some True \<and> int r \<le> right)"
        by (rule 1(1) [OF \<open>left \<le> right\<close> mid_def, of True])
          (use b True mid 1(3) in auto)
      with b True mid \<open>left \<le> right\<close> show ?thesis
        by (subst restart_search.simps) (auto simp: mid_def Let_def)
    next
      case False
      have "\<exists>r. restart_search before left (mid - 1) t = Some r
          \<and> (r = t \<or> before r = Some True \<and> int r \<le> mid - 1)"
        by (rule 1(2) [OF \<open>left \<le> right\<close> mid_def, of False])
          (use b False mid 1(3,4) in auto)
      with b False mid \<open>left \<le> right\<close> show ?thesis
        by (subst restart_search.simps) (auto simp: mid_def Let_def)
    qed
  qed (subst restart_search.simps, simp)
qed

lemma restart_key_less_eq:
  assumes r: "block_rep (bi_block it) es ps" and j: "j < length ps"
  shows "restart_key_less it target j =
    Some (if es = [] then [] < target else e_key (es ! (ps ! j)) < target)"
proof -
  note R = block_repD [OF r]
  show ?thesis
  proof (cases "es = []")
    case True
    then have "ps ! j = 0" "bi_restarts_offset it = 0" using R(8) [OF j] R(1) by auto
    then have "GetRestartOffset it j = 0" "GetRestartOffset it 0 = 0" using R(5,7,9) j by auto
    then show ?thesis
      using True R(1,3) by (simp add: restart_key_less_def Let_def GetRestartOffset_def)
  next
    case False
    define i where "i = ps ! j"
    have i: "i < length es" using R(8) [OF j] False by (auto simp: i_def)
    obtain rest where D: "bi_data it = block_body es @ rest"
      using r by (metis append_take_drop_id bi_block_simps(1) block_rep_def)
    let ?t = "block_body (drop (Suc i) es) @ rest"
    have drp: "drop (offs es i) (bi_data it) = entry_bytes (es ! i) @ ?t"
      using D i by (simp add: drop_offs del: drop_append)
    have len: "length (bi_data it) = offs es i + length (entry_bytes (es ! i)) + length ?t"
      using arg_cong [OF drp, of length] offs_less_body [OF i] D by simp
    have "length (entry_bytes (es ! i)) < 2 ^ 32" using R(2) len by linarith
    note f = entry_fields [OF this, of ?t]
    have "sub (offs es i + 4) (length (e_key (es ! i))) (bi_data it) = e_key (es ! i)"
      using f(2) drop_plus [OF drp, of 4] by (simp add: sub_def)
    then show ?thesis
      using False len f(1) drp R(7) [OF j] by (simp add: restart_key_less_def Let_def i_def)
  qed
qed

lemma seek_scan_at:
  assumes "block_rep (bi_block it) es ps" and "bi_status it = OK" and "i \<le> length es"
    and "\<And>j. j < i \<Longrightarrow> e_key (es ! j) < target"
  shows "iter_at (seek_scan target (offs es i) it) es (seek_pos target es)"
  using assms
proof (induction "length es - i" arbitrary: i it)
  case 0
  then have i: "i = length es" by simp
  then have "seek_pos target es = length es" using 0(5) by (intro seek_posI) auto
  with i show ?case
    using iter_at_invalidate [OF 0(2,3)] block_repD(1) [OF 0(2)] by (subst seek_scan.simps) simp
next
  case (Suc n)
  then have i: "i < length es" by linarith
  let ?it1 = "load_entry (es ! i) (offs es i) (offs es (Suc i)) it"
  have p: "ParseEntryAt (offs es i) it = ?it1" by (rule ParseEntryAt_offs [OF Suc.prems(1) i])
  have at: "iter_at ?it1 es i" by (rule iter_at_load [OF Suc.prems(1,2) i])
  have less: "offs es i < bi_restarts_offset it"
    using block_repD(1) [OF Suc.prems(1)] offs_less_body [OF i] by simp
  have key: "bi_key ?it1 = e_key (es ! i)" by (simp add: load_entry_def)
  show ?case
  proof (cases "target \<le> e_key (es ! i)")
    case True
    then have "seek_pos target es = i" using Suc.prems(3,4) by (intro seek_posI) auto
    with True at less key iter_valid [OF at] i show ?thesis
      by (subst seek_scan.simps) (simp add: p Let_def)
  next
    case False
    have "iter_at (seek_scan target (offs es (Suc i)) ?it1) es (seek_pos target es)"
      by (rule Suc.hyps(1)) (use Suc.hyps(2) Suc.prems i False in
        \<open>auto simp: less_Suc_eq load_entry_def bi_block_def\<close>)
    with False less key iter_valid [OF at] i show ?thesis
      by (subst seek_scan.simps) (simp add: p Let_def load_entry_def)
  qed
qed

lemma to_int32_small: "n < 2 ^ 31 \<Longrightarrow> to_int32 n = int n"
  by (simp add: to_int32_def)

lemma iter_seek:
  assumes "iter_at it es i" and "keys_sorted es"
  shows "\<exists>it'. BlockIter_Seek target it = Some it' \<and> iter_at it' es (seek_pos target es)"
proof -
  obtain ps where r: "block_rep (bi_block it) es ps" and ok: "bi_status it = OK"
    using assms(1) by (rule iter_atE)
  note R = block_repD [OF r]
  have "\<exists>t. restart_search (restart_key_less it target) 0 (int (length ps) - 1) 0 = Some t
      \<and> (t = 0 \<or> restart_key_less it target t = Some True \<and> int t \<le> int (length ps) - 1)"
    by (rule restart_search_result) (auto simp: restart_key_less_eq [OF r])
  then obtain t where t: "restart_search (restart_key_less it target) 0 (int (length ps) - 1) 0 = Some t"
    "t = 0 \<or> restart_key_less it target t = Some True \<and> t < length ps" by force
  have tl: "t < length ps" using t(2) R(5) by auto
  have p: "ps ! t \<le> length es" using R(8) [OF tl] by auto
  have "e_key (es ! j) < target" if "j < ps ! t" for j
  proof -
    have "ps ! t < length es" "t \<noteq> 0" using that R(8) [OF tl] R(9) by (auto intro!: gr0I)
    then have "e_key (es ! (ps ! t)) < target"
      using t(2) restart_key_less_eq [OF r tl, of target] by (auto split: if_splits)
    moreover have "e_key (es ! j) \<le> e_key (es ! (ps ! t))"
      using keys_sorted_nth [OF assms(2)] that \<open>ps ! t < length es\<close> by simp
    ultimately show ?thesis by simp
  qed
  from seek_scan_at [OF r ok p this] show ?thesis
    using R(4,5,6) R(7) [OF tl] t(1) by (simp add: BlockIter_Seek_def to_int32_small)
qed

lemma iter_prev:
  assumes "iter_at it es i" and "i < length es"
  shows "\<exists>it'. BlockIter_Prev it = Some it' \<and> iter_at it' es (if i = 0 then length es else i - 1)"
proof -
  obtain ps where r: "block_rep (bi_block it) es ps" and ok: "bi_status it = OK"
    using assms(1) by (rule iter_atE)
  note R = block_repD [OF r]
  have cur: "bi_current it = offs es i" using assms(1) by (simp add: iter_at_def)
  let ?f = "\<lambda>m. Some (GetRestartOffset it m < offs es i)"
  have "\<exists>t. restart_search ?f 0 (int (length ps) - 1) 0 = Some t
      \<and> (t = 0 \<or> ?f t = Some True \<and> int t \<le> int (length ps) - 1)"
    by (rule restart_search_result) auto
  then obtain t where t: "restart_search ?f 0 (int (length ps) - 1) 0 = Some t"
    "t = 0 \<or> GetRestartOffset it t < offs es i \<and> t < length ps" by force
  have tl: "t < length ps" using t(2) R(5) by auto
  define p where "p = ps ! t"
  have p: "GetRestartOffset it t = offs es p" "p \<le> length es" "t = 0 \<Longrightarrow> p = 0"
    using R(7) [OF tl] R(8) [OF tl] R(9) by (auto simp: p_def)
  have eq: "BlockIter_Prev it = (if offs es p \<ge> offs es i then Some (invalidate it)
      else parse_until (offs es i) (offs es p) it)"
    using R(4,6) t(1) p(1) cur by (simp add: BlockIter_Prev_def to_int32_small Let_def)
  show ?thesis
  proof (cases "i = 0")
    case True
    then show ?thesis using eq iter_at_invalidate [OF r ok] by simp
  next
    case False
    have "p < i" using False t(2) p assms(2) offs_less_iff [of p es i] by auto
    then have "p \<le> i - 1" "i - 1 < length es" "offs es p < offs es i"
      using assms(2) offs_less_iff [of p es i] by auto
    then show ?thesis
      using parse_until_reaches [OF r ok, of p "i - 1"] False eq by simp
  qed
qed

interpretation block_iterator: bidirectional_iterator
  "\<lambda>_ :: unit. True" "\<lambda>it es i. iter_at it es i \<and> keys_sorted es" BlockIter_Valid BlockIter_Entry
  "\<lambda>it u. (BlockIter_SeekToFirst it, u)" "\<lambda>target it u. (the (BlockIter_Seek target it), u)"
  "\<lambda>it u. (BlockIter_Next it, u)" "\<lambda>it u. (the (BlockIter_SeekToLast it), u)"
  "\<lambda>it u. (the (BlockIter_Prev it), u)"
proof unfold_locales
  fix it es i it' env env' target
  assume at: "iter_at it es i \<and> keys_sorted es"
  show "keys_sorted es \<and> i \<le> length es" "BlockIter_Valid it \<longleftrightarrow> i < length es"
    using at iter_valid by (auto elim: iter_atE)
  show "i < length es \<Longrightarrow> BlockIter_Entry it = es ! i" using at iter_entry by blast
  show "(BlockIter_SeekToFirst it, env) = (it', env') \<Longrightarrow> (iter_at it' es 0 \<and> keys_sorted es) \<and> True"
    using at iter_first by auto
  show "(the (BlockIter_Seek target it), env) = (it', env') \<Longrightarrow>
      (iter_at it' es (seek_pos target es) \<and> keys_sorted es) \<and> True"
    using at iter_seek [of it es i target] by auto
  show "i < length es \<Longrightarrow> (BlockIter_Next it, env) = (it', env') \<Longrightarrow>
      (iter_at it' es (Suc i) \<and> keys_sorted es) \<and> True"
    using at iter_next by auto
  show "(the (BlockIter_SeekToLast it), env) = (it', env') \<Longrightarrow>
      (iter_at it' es (if es = [] then 0 else length es - 1) \<and> keys_sorted es) \<and> True"
    using at iter_last [of it es i] by auto
  show "i < length es \<Longrightarrow> (the (BlockIter_Prev it), env) = (it', env') \<Longrightarrow>
      (iter_at it' es (if i = 0 then length es else i - 1) \<and> keys_sorted es) \<and> True"
    using at iter_prev [of it es i] by auto
qed

section \<open>What the builder writes\<close>

definition bb_rep :: "BlockBuilder \<Rightarrow> MemtableEntry list \<Rightarrow> nat list \<Rightarrow> bool" where
  "bb_rep bb es ps \<longleftrightarrow>
     bb_buffer bb = block_body es \<and> bb_restarts bb = map (\<lambda>p. of_nat (offs es p)) ps \<and>
     ps \<noteq> [] \<and> ps ! 0 = 0 \<and> (\<forall>p \<in> set ps. p = 0 \<or> p < length es) \<and>
     bb_counter bb = int (length es) - int (last ps) \<and> 1 \<le> bb_restart_interval bb"

abbreviation block_add :: "MemtableEntry \<Rightarrow> BlockBuilder \<Rightarrow> BlockBuilder" where
  "block_add e \<equiv> BlockBuilder_Add (e_seq e) (e_type e) (e_key e) (e_value e)"

lemma bb_rep_new: "1 \<le> ri \<Longrightarrow> bb_rep (BlockBuilder_new ri) [] [0]"
  by (simp add: bb_rep_def BlockBuilder_new_def)

lemma bb_rep_Reset: "bb_rep bb es ps \<Longrightarrow> bb_rep (BlockBuilder_Reset bb) [] [0]"
  by (simp add: bb_rep_def BlockBuilder_Reset_def)

lemma bb_rep_Empty: "bb_rep bb es ps \<Longrightarrow> BlockBuilder_Empty bb \<longleftrightarrow> es = []"
  by (cases es) (auto simp: bb_rep_def BlockBuilder_Empty_def entry_bytes_def EncodeFixed32_def)

lemma bb_rep_Add:
  assumes "bb_rep bb es ps"
  shows "\<exists>ps'. bb_rep (block_add e bb) (es @ [e]) ps'"
proof -
  have bytes: "PutFixed32 (PutFixed64 (PutFixed32 b (of_nat (length (e_key e))) @ e_key e) (e_seq e)
      @ [e_type e]) (of_nat (length (e_value e))) @ e_value e = b @ entry_bytes e" for b
    by (simp add: PutFixed32_def PutFixed64_def entry_bytes_def)
  have old: "map (\<lambda>p. of_nat (offs es p) :: u32) ps = map (\<lambda>p. of_nat (offs (es @ [e]) p)) ps"
    using assms by (auto simp: bb_rep_def)
  show ?thesis
  proof (cases "bb_counter bb \<ge> bb_restart_interval bb")
    case True
    with assms old have "bb_rep (block_add e bb) (es @ [e]) (ps @ [length es])"
      by (auto simp: bb_rep_def BlockBuilder_Add_def Let_def bytes nth_append)
    then show ?thesis by blast
  next
    case False
    with assms old have "bb_rep (block_add e bb) (es @ [e]) ps"
      by (auto simp: bb_rep_def BlockBuilder_Add_def Let_def bytes)
    then show ?thesis by blast
  qed
qed

lemma fold_PutFixed32: "fold (\<lambda>r dst. dst @ EncodeFixed32 r) rs b = b @ concat (map EncodeFixed32 rs)"
  by (induction rs arbitrary: b) simp_all

lemma length_concat_Encode32 [simp]: "length (concat (map EncodeFixed32 rs)) = 4 * length rs"
  by (induction rs) simp_all

lemma drop_concat_Encode32:
  "j < length rs \<Longrightarrow> drop (j * 4) (concat (map EncodeFixed32 rs) @ t) =
     EncodeFixed32 (rs ! j) @ concat (map EncodeFixed32 (drop (Suc j) rs)) @ t"
proof (induction rs arbitrary: j)
  case (Cons r rs)
  then show ?case by (cases j) simp_all
qed simp

lemma Finish_bytes:
  "bb_rep bb es ps \<Longrightarrow> bb_buffer (BlockBuilder_Finish bb) = block_body es @
     concat (map (\<lambda>p. EncodeFixed32 (of_nat (offs es p))) ps) @ EncodeFixed32 (of_nat (length ps))"
  by (simp add: bb_rep_def BlockBuilder_Finish_def fold_PutFixed32 PutFixed32_def comp_def)

lemma length_Finish:
  "length (bb_buffer (BlockBuilder_Finish bb)) = CurrentSizeEstimate bb"
  by (simp add: BlockBuilder_Finish_def CurrentSizeEstimate_def fold_PutFixed32 PutFixed32_def)

lemma block_rep_Finish:
  assumes bb: "bb_rep bb es ps" and size: "CurrentSizeEstimate bb < 2 ^ 32"
  shows "block_rep (Block_new (bb_buffer (BlockBuilder_Finish bb))) es ps"
proof -
  let ?data = "bb_buffer (BlockBuilder_Finish bb)" and ?n = "length (block_body es)"
  define rs where "rs = map (\<lambda>p. of_nat (offs es p) :: u32) ps"
  have rs: "length rs = length ps" "\<And>j. j < length ps \<Longrightarrow> rs ! j = of_nat (offs es (ps ! j))"
    by (simp_all add: rs_def)
  have data: "?data = block_body es @ concat (map EncodeFixed32 rs) @ EncodeFixed32 (of_nat (length ps))"
    using Finish_bytes [OF bb] by (simp add: comp_def rs_def)
  have len: "length ?data = ?n + 4 * length ps + 4" by (simp add: data rs)
  have small: "length ?data < 2 ^ 32" using size by (simp add: length_Finish)
  have ps: "length ps < 2 ^ 30" using len small by simp
  have "drop (length ?data - 4) ?data = EncodeFixed32 (of_nat (length ps))"
    unfolding len by (simp add: data rs)
  then have num: "unat (DecodeFixed32 (drop (length ?data - 4) ?data)) = length ps"
    using ps by simp
  have off: "(length ?data - (1 + length ps) mod 2 ^ 32 * 4) mod 2 ^ 32 = ?n"
    using len small ps by simp
  have blk: "Block_new ?data = \<lparr>blk_data = ?data, blk_restarts_offset = ?n, blk_num_restarts = length ps\<rparr>"
  proof -
    have "length ps \<le> (length ?data - 4) div 4" "4 \<le> length ?data" using len by simp_all
    then show ?thesis unfolding Block_new_def Let_def num off by simp
  qed
  have "unat (DecodeFixed32 (drop (?n + j * 4) ?data)) = offs es (ps ! j)" if j: "j < length ps" for j
  proof -
    have "drop (?n + j * 4) ?data = drop (j * 4) (concat (map EncodeFixed32 rs) @ EncodeFixed32 (of_nat (length ps)))"
      by (simp add: data)
    then have "unat (DecodeFixed32 (drop (?n + j * 4) ?data)) = unat (of_nat (offs es (ps ! j)) :: u32)"
      using drop_concat_Encode32 [of j rs] j by (simp add: rs del: drop_append)
    moreover have "ps ! j \<le> length es" using bb nth_mem [OF j] by (fastforce simp: bb_rep_def)
    then have "offs es (ps ! j) < 2 ^ 32" using offs_mono [of "ps ! j" "length es" es] len small by simp
    ultimately show ?thesis by simp
  qed
  then show ?thesis
    using bb len small ps by (simp add: block_rep_def blk) (simp add: data bb_rep_def)
qed

definition build_block :: "int \<Rightarrow> MemtableEntry list \<Rightarrow> bytes" where
  "build_block ri es = bb_buffer (BlockBuilder_Finish (fold block_add es (BlockBuilder_new ri)))"

lemma bb_rep_fold: "bb_rep bb xs ps \<Longrightarrow> \<exists>ps'. bb_rep (fold block_add es bb) (xs @ es) ps'"
proof (induction es arbitrary: bb xs ps)
  case (Cons e es)
  obtain qs where "bb_rep (block_add e bb) (xs @ [e]) qs" using bb_rep_Add [OF Cons.prems] by blast
  from Cons.IH [OF this] show ?case by simp
qed auto

lemma block_rep_build:
  assumes "1 \<le> ri" and "length (build_block ri es) < 2 ^ 32"
  shows "\<exists>ps. block_rep (Block_new (build_block ri es)) es ps"
  using bb_rep_fold [OF bb_rep_new [OF assms(1)], of es] block_rep_Finish assms(2)
  by (auto simp: build_block_def length_Finish)

section \<open>Properties\<close>

text \<open>C11: A block returns what was put into it: for any entries whose block stays under 4 GB and any
  restart interval, \<^verbatim>\<open>SeekToFirst\<close> followed by \<^verbatim>\<open>Next\<close> visits exactly those entries in
  order and then becomes invalid, with status OK throughout.\<close>

theorem block_iteration:
  fixes es :: "MemtableEntry list" and ri :: int
  defines "it \<equiv> \<lambda>i. (BlockIter_Next ^^ i) (BlockIter_SeekToFirst (BlockIter_new (Block_new (build_block ri es))))"
  assumes "1 \<le> ri" and "length (build_block ri es) < 2 ^ 32" and "i \<le> length es"
  shows "bi_status (it i) = OK \<and> (BlockIter_Valid (it i) \<longleftrightarrow> i < length es)
    \<and> (i < length es \<longrightarrow> BlockIter_Entry (it i) = es ! i)"
proof -
  obtain ps where "block_rep (Block_new (build_block ri es)) es ps"
    using block_rep_build [OF assms(2,3)] by blast
  from iter_first [OF iter_at_new [OF this]] have first: "iter_at (it 0) es 0" by (simp add: it_def)
  have at: "iter_at (it i) es i"
    using assms(4)
  proof (induction i)
    case (Suc i)
    then have "iter_at (BlockIter_Next (it i)) es (Suc i)" by (intro iter_next) simp_all
    then show ?case by (simp add: it_def)
  qed (rule first)
  then have "bi_status (it i) = OK" by (simp add: iter_at_def)
  with iter_valid [OF at] iter_entry [OF at] show ?thesis by blast
qed

definition sample_entries :: "MemtableEntry list" where
  "sample_entries = [\<lparr>e_key = [97], e_seq = 4, e_type = 1, e_value = [1, 2]\<rparr>,
     \<lparr>e_key = [98], e_seq = 7, e_type = 0, e_value = []\<rparr>,
     \<lparr>e_key = [98], e_seq = 2, e_type = 1, e_value = [3]\<rparr>]"

lemma length_sample [simp]: "length sample_entries = 3" "sample_entries \<noteq> []"
  by (simp_all add: sample_entries_def)

lemma length_build_sample: "length (build_block 2 sample_entries) < 2 ^ 32"
  by (simp add: build_block_def sample_entries_def length_Finish CurrentSizeEstimate_def
      BlockBuilder_Add_def BlockBuilder_new_def PutFixed32_def PutFixed64_def)

theorem block_iteration_witness:
  "BlockIter_Entry ((BlockIter_Next ^^ 1) (BlockIter_SeekToFirst
     (BlockIter_new (Block_new (build_block 2 sample_entries))))) = sample_entries ! 1"
  using block_iteration [of 2 sample_entries 1] length_build_sample by simp

text \<open>C12: \<^verbatim>\<open>Seek\<close> is correct: on a block of entries in key order it never reads outside the
  block and stops at the first entry whose user key is at least the target, or becomes invalid
  when there is none.\<close>

theorem block_seek:
  assumes "1 \<le> ri" and "length (build_block ri es) < 2 ^ 32" and "keys_sorted es"
  shows "\<exists>it. BlockIter_Seek target (BlockIter_new (Block_new (build_block ri es))) = Some it
    \<and> (BlockIter_Valid it \<longleftrightarrow> (\<exists>e \<in> set es. target \<le> e_key e))
    \<and> (BlockIter_Valid it \<longrightarrow> (\<exists>i < length es. BlockIter_Entry it = es ! i \<and> target \<le> e_key (es ! i)
         \<and> (\<forall>j < i. e_key (es ! j) < target)))"
proof -
  obtain ps where "block_rep (Block_new (build_block ri es)) es ps"
    using block_rep_build [OF assms(1,2)] by blast
  from iter_seek [OF iter_at_new [OF this] assms(3), of target] obtain it where
    it: "BlockIter_Seek target (BlockIter_new (Block_new (build_block ri es))) = Some it"
      "iter_at it es (seek_pos target es)" by blast
  show ?thesis
    using it seek_pos_valid [of target es] iter_valid [OF it(2)] iter_entry [OF it(2)] at_seek_pos [of target es] before_seek_pos
    by auto
qed

theorem block_seek_witness:
  "\<exists>it. BlockIter_Seek [98] (BlockIter_new (Block_new (build_block 2 sample_entries))) = Some it
     \<and> BlockIter_Valid it"
proof -
  have "keys_sorted sample_entries" "\<exists>e \<in> set sample_entries. [98] \<le> e_key e"
    by (simp_all add: keys_sorted_def sample_entries_def)
  then show ?thesis using block_seek [of 2 sample_entries "[98]"] length_build_sample by auto
qed

text \<open>C13: The iterator walks backwards too: \<^verbatim>\<open>SeekToLast\<close> returns and stands at the last entry,
  and from any entry but the first \<^verbatim>\<open>Prev\<close> returns and stands at the entry before it.\<close>

theorem block_backward:
  assumes "1 \<le> ri" and "length (build_block ri es) < 2 ^ 32" and "es \<noteq> []" and "Suc i < length es"
    and "it = (BlockIter_Next ^^ Suc i) (BlockIter_SeekToFirst (BlockIter_new (Block_new (build_block ri es))))"
  shows "(\<exists>it'. BlockIter_Prev it = Some it' \<and> BlockIter_Valid it' \<and> BlockIter_Entry it' = es ! i)
    \<and> (\<exists>it'. BlockIter_SeekToLast it = Some it' \<and> BlockIter_Valid it' \<and> BlockIter_Entry it' = last es)"
proof -
  obtain ps where "block_rep (Block_new (build_block ri es)) es ps"
    using block_rep_build [OF assms(1,2)] by blast
  note first = iter_first [OF iter_at_new [OF this]]
  have "iter_at ((BlockIter_Next ^^ k) (BlockIter_SeekToFirst (BlockIter_new (Block_new (build_block ri es))))) es k"
    if "k \<le> length es" for k
    using that by (induction k) (use first iter_next in auto)
  from this [of "Suc i"] have at: "iter_at it es (Suc i)" using assms(4,5) by simp
  obtain it1 where p: "BlockIter_Prev it = Some it1" "iter_at it1 es i"
    using iter_prev [OF at assms(4)] by auto
  obtain it2 where l: "BlockIter_SeekToLast it = Some it2" "iter_at it2 es (length es - 1)"
    using iter_last [OF at] assms(3) by auto
  show ?thesis
    using p l assms(3,4) iter_valid [OF p(2)] iter_entry [OF p(2)] iter_valid [OF l(2)] iter_entry [OF l(2)]
    by (auto simp: last_conv_nth)
qed

theorem block_backward_witness:
  "\<exists>it'. BlockIter_Prev ((BlockIter_Next ^^ 2) (BlockIter_SeekToFirst (BlockIter_new
     (Block_new (build_block 2 sample_entries))))) = Some it' \<and> BlockIter_Entry it' = sample_entries ! 1"
  using block_backward [of 2 sample_entries 1, OF _ length_build_sample _ _ refl]
  by (auto simp: numeral_2_eq_2)

text \<open>C14: \<^verbatim>\<open>SeekToLast\<close> never returns on a block whose last restart point is its first entry and
  whose first entry is cut short: \<^verbatim>\<open>ParseEntryAt\<close> leaves \<^verbatim>\<open>next_offset_\<close> as it was, and
  the loop parses the same offset again.\<close>

theorem block_seek_to_last_diverges:
  assumes "bi_num_restarts it \<noteq> 0" and "GetRestartOffset it (bi_num_restarts it - 1) = 0"
    and "bi_next_offset it = 0" and "0 < bi_restarts_offset it" and "bi_restarts_offset it < 17"
  shows "BlockIter_SeekToLast it = None"
proof -
  have stuck: "\<not> (x = 0 \<and> bi_next_offset it = 0 \<and> lim = bi_restarts_offset it \<and> 0 < lim \<and> lim < 17)"
    if "parse_until lim x it = Some y" for lim x it y
    using that
  proof (rule parse_until_induct)
    fix rec lim x it y
    let ?it = "ParseEntryAt x it"
    assume IH: "\<And>lim x it y. rec lim x it = Some y \<Longrightarrow>
        \<not> (x = 0 \<and> bi_next_offset it = 0 \<and> lim = bi_restarts_offset it \<and> 0 < lim \<and> lim < 17)"
      and body: "(let it1 = ?it in if bi_next_offset it1 \<ge> lim then Some it1
        else rec lim (bi_next_offset it1) it1) = Some y"
    show "\<not> (x = 0 \<and> bi_next_offset it = 0 \<and> lim = bi_restarts_offset it \<and> 0 < lim \<and> lim < 17)"
    proof
      assume a: "x = 0 \<and> bi_next_offset it = 0 \<and> lim = bi_restarts_offset it \<and> 0 < lim \<and> lim < 17"
      then have it: "bi_next_offset ?it = 0" "bi_restarts_offset ?it = lim"
        by (auto simp: ParseEntryAt_def)
      then have "rec lim 0 ?it = Some y" using body a by (simp add: Let_def)
      from IH [OF this] it a show False by auto
    qed
  qed
  show ?thesis
    using stuck [of "bi_restarts_offset it" 0 it] assms
    by (cases "parse_until (bi_restarts_offset it) 0 it") (auto simp: BlockIter_SeekToLast_def)
qed

theorem block_seek_to_last_diverges_witness:
  "BlockIter_SeekToLast (BlockIter_new (Block_new ([7] @ EncodeFixed32 0 @ EncodeFixed32 1))) = None"
proof -
  let ?data = "7 # EncodeFixed32 0 @ EncodeFixed32 1"
  have "drop 5 ?data = EncodeFixed32 1" "drop 1 ?data = EncodeFixed32 0 @ EncodeFixed32 1"
    by (simp_all add: drop_Cons')
  then have "Block_new ([7] @ EncodeFixed32 0 @ EncodeFixed32 1)
        = \<lparr>blk_data = ?data, blk_restarts_offset = 1, blk_num_restarts = 1\<rparr>"
    and "DecodeFixed32 (drop 1 ?data) = 0"
    by (simp_all add: Block_new_def)
  then show ?thesis
    by (intro block_seek_to_last_diverges) (simp_all add: BlockIter_new_def GetRestartOffset_def)
qed

end
