(* ===== verification/Block_Cache.thy ===== *)
theory Block_Cache
  imports Block
begin

text \<open>
  The least-recently-used block cache (src/block_cache.h, src/block_cache.cc).  As in the
  source there are two structures that have to agree: the list of entries, most recently
  used first, and the hash table from keys to list nodes.  A list iterator is the identity of
  a node, which stays the same while the node moves in the list.  Charges and the capacity
  are natural numbers; the invariant shows that the running total is never decreased below
  zero.

  The locale \<open>cache_spec\<close> is what the table reader relies on: a lookup changes nothing that can
  be found, an insertion makes its block findable and may forget others, so whatever holds of
  every cached block keeps holding.
\<close>

record CacheKey =
  ck_file_number :: u64
  ck_offset :: u64

record CacheEntry =
  ce_key :: CacheKey
  ce_block :: Block
  ce_charge :: nat

record BlockCache =
  bc_capacity :: nat
  bc_total_charge :: nat
  bc_lru_list :: "nat list"
  bc_nodes :: "nat \<Rightarrow> CacheEntry"
  bc_next_node :: nat
  bc_table :: "CacheKey \<rightharpoonup> nat"

definition BlockCache_new :: "nat \<Rightarrow> BlockCache" where
  "BlockCache_new capacity_bytes =
     \<lparr>bc_capacity = capacity_bytes, bc_total_charge = 0, bc_lru_list = [],
      bc_nodes = (\<lambda>_. \<lparr>ce_key = \<lparr>ck_file_number = 0, ck_offset = 0\<rparr>, ce_block = Block_new [], ce_charge = 0\<rparr>),
      bc_next_node = 0, bc_table = Map.empty\<rparr>"

definition Cache_Lookup :: "CacheKey \<Rightarrow> BlockCache \<Rightarrow> Block option \<times> BlockCache" where
  "Cache_Lookup key c =
     (case bc_table c key of
        None \<Rightarrow> (None, c)
      | Some it \<Rightarrow> (Some (ce_block (bc_nodes c it)),
                    c\<lparr>bc_lru_list := it # remove1 it (bc_lru_list c)\<rparr>))"

text \<open>Unlinking one entry: the same three statements in \<^verbatim>\<open>Insert\<close> and \<^verbatim>\<open>Erase\<close>.\<close>

definition Cache_Erase :: "CacheKey \<Rightarrow> BlockCache \<Rightarrow> BlockCache" where
  "Cache_Erase key c =
     (case bc_table c key of
        None \<Rightarrow> c
      | Some it \<Rightarrow> c\<lparr>bc_total_charge := bc_total_charge c - ce_charge (bc_nodes c it),
                     bc_lru_list := remove1 it (bc_lru_list c),
                     bc_table := (bc_table c)(key := None)\<rparr>)"

function evict :: "nat \<Rightarrow> BlockCache \<Rightarrow> BlockCache" where
  "evict charge c =
     (if bc_total_charge c + charge > bc_capacity c \<and> bc_lru_list c \<noteq> []
      then let lst = last (bc_lru_list c)
        in evict charge (c\<lparr>bc_total_charge := bc_total_charge c - ce_charge (bc_nodes c lst),
                           bc_table := (bc_table c)(ce_key (bc_nodes c lst) := None),
                           bc_lru_list := butlast (bc_lru_list c)\<rparr>)
      else c)"
  by pat_completeness auto
termination
  by (relation "measure (\<lambda>(charge, c). length (bc_lru_list c))") auto

declare evict.simps [simp del]

definition Cache_Insert :: "CacheKey \<Rightarrow> Block \<Rightarrow> nat \<Rightarrow> BlockCache \<Rightarrow> BlockCache" where
  "Cache_Insert key block charge c =
     (let c1 = Cache_Erase key c;
          c2 = evict charge c1;
          node = bc_next_node c2
      in c2\<lparr>bc_nodes := (bc_nodes c2)(node := \<lparr>ce_key = key, ce_block = block, ce_charge = charge\<rparr>),
            bc_next_node := Suc node,
            bc_lru_list := node # bc_lru_list c2,
            bc_table := (bc_table c2)(key \<mapsto> node),
            bc_total_charge := bc_total_charge c2 + charge\<rparr>)"

definition Cache_Clear :: "BlockCache \<Rightarrow> BlockCache" where
  "Cache_Clear c = c\<lparr>bc_lru_list := [], bc_table := Map.empty, bc_total_charge := 0\<rparr>"

section \<open>The invariant\<close>

definition cached :: "BlockCache \<Rightarrow> CacheKey \<rightharpoonup> Block" where
  "cached c key = map_option (\<lambda>n. ce_block (bc_nodes c n)) (bc_table c key)"

abbreviation charge_of :: "BlockCache \<Rightarrow> nat \<Rightarrow> nat" where
  "charge_of c n \<equiv> ce_charge (bc_nodes c n)"

definition cache_inv :: "BlockCache \<Rightarrow> bool" where
  "cache_inv c \<longleftrightarrow> distinct (bc_lru_list c) \<and> (\<forall>n \<in> set (bc_lru_list c). n < bc_next_node c) \<and>
     (\<forall>k n. bc_table c k = Some n \<longleftrightarrow> n \<in> set (bc_lru_list c) \<and> ce_key (bc_nodes c n) = k) \<and>
     bc_total_charge c = sum_list (map (charge_of c) (bc_lru_list c))"

lemma cache_invD:
  assumes "cache_inv c"
  shows "distinct (bc_lru_list c)" "\<And>n. n \<in> set (bc_lru_list c) \<Longrightarrow> n < bc_next_node c"
    "\<And>k n. bc_table c k = Some n \<longleftrightarrow> n \<in> set (bc_lru_list c) \<and> ce_key (bc_nodes c n) = k"
    "bc_total_charge c = sum_list (map (charge_of c) (bc_lru_list c))"
  using assms by (auto simp: cache_inv_def)

lemma cache_inv_new [simp]: "cache_inv (BlockCache_new n)"
  by (simp add: cache_inv_def BlockCache_new_def)

lemma cache_inv_Clear: "cache_inv (Cache_Clear c)"
  by (simp add: cache_inv_def Cache_Clear_def)

lemma cache_inv_Lookup:
  assumes "cache_inv c" and "Cache_Lookup key c = (r, c')"
  shows "cache_inv c'" "r = cached c key" "cached c' = cached c" "bc_capacity c' = bc_capacity c"
    "bc_total_charge c' = bc_total_charge c"
proof -
  have "cache_inv c' \<and> r = cached c key \<and> cached c' = cached c \<and> bc_capacity c' = bc_capacity c
    \<and> bc_total_charge c' = bc_total_charge c"
  proof (cases "bc_table c key")
    case None
    then show ?thesis using assms by (simp add: Cache_Lookup_def cached_def)
  next
    case (Some it)
    then have it: "it \<in> set (bc_lru_list c)" using cache_invD(3) [OF assms(1)] by blast
    have c': "c' = c\<lparr>bc_lru_list := it # remove1 it (bc_lru_list c)\<rparr>" "r = Some (ce_block (bc_nodes c it))"
      using assms(2) Some by (simp_all add: Cache_Lookup_def)
    have "set (it # remove1 it (bc_lru_list c)) = set (bc_lru_list c)"
      using it cache_invD(1) [OF assms(1)] by auto
    moreover have "distinct (it # remove1 it (bc_lru_list c))"
      using cache_invD(1) [OF assms(1)] by simp
    moreover have "sum_list (map (charge_of c) (it # remove1 it (bc_lru_list c)))
        = sum_list (map (charge_of c) (bc_lru_list c))"
      using sum_list_map_remove1 [OF it, of "charge_of c"] by simp
    ultimately have "cache_inv c'"
      using cache_invD [OF assms(1)] by (simp add: cache_inv_def c')
    then show ?thesis by (auto simp: c' cached_def Some)
  qed
  then show "cache_inv c'" "r = cached c key" "cached c' = cached c" "bc_capacity c' = bc_capacity c"
    "bc_total_charge c' = bc_total_charge c" by simp_all
qed

text \<open>Unlinking a node of the list.\<close>

lemma cache_inv_unlink:
  assumes "cache_inv c" and "n \<in> set (bc_lru_list c)"
    and "c' = c\<lparr>bc_total_charge := bc_total_charge c - charge_of c n,
                bc_table := (bc_table c)(ce_key (bc_nodes c n) := None),
                bc_lru_list := remove1 n (bc_lru_list c)\<rparr>"
  shows "cache_inv c'" "charge_of c n \<le> bc_total_charge c"
    "cached c' = (cached c)(ce_key (bc_nodes c n) := None)"
proof -
  note I = cache_invD [OF assms(1)]
  have sum: "bc_total_charge c = charge_of c n + sum_list (map (charge_of c) (remove1 n (bc_lru_list c)))"
    using I(4) sum_list_map_remove1 [OF assms(2), of "charge_of c"] by simp
  then show "charge_of c n \<le> bc_total_charge c" by simp
  have uniq: "m = n" if "m \<in> set (bc_lru_list c)" "ce_key (bc_nodes c m) = ce_key (bc_nodes c n)" for m
    using that I(3) [of "ce_key (bc_nodes c n)" m] I(3) [of "ce_key (bc_nodes c n)" n] assms(2) by simp
  have set: "set (remove1 n (bc_lru_list c)) = set (bc_lru_list c) - {n}"
    using I(1) by simp
  have tab: "bc_table c' k = Some m \<longleftrightarrow> m \<in> set (bc_lru_list c') \<and> ce_key (bc_nodes c' m) = k" for k m
    using uniq I(3) [of k m] by (auto simp: assms(3) set)
  show "cache_inv c'"
    unfolding cache_inv_def using I(1,2) sum set tab by (auto simp: assms(3))
  show "cached c' = (cached c)(ce_key (bc_nodes c n) := None)"
    by (auto simp: cached_def assms(3) fun_eq_iff)
qed

lemma cache_inv_Erase:
  assumes "cache_inv c"
  shows "cache_inv (Cache_Erase key c)" "cached (Cache_Erase key c) = (cached c)(key := None)"
    "set (bc_lru_list (Cache_Erase key c)) \<subseteq> set (bc_lru_list c)"
    "bc_capacity (Cache_Erase key c) = bc_capacity c"
proof -
  have "cache_inv (Cache_Erase key c) \<and> cached (Cache_Erase key c) = (cached c)(key := None)"
  proof (cases "bc_table c key")
    case None
    then show ?thesis using assms by (auto simp: Cache_Erase_def cached_def fun_eq_iff)
  next
    case (Some it)
    then have it: "it \<in> set (bc_lru_list c)" "ce_key (bc_nodes c it) = key"
      using cache_invD(3) [OF assms] by auto
    have "Cache_Erase key c = c\<lparr>bc_total_charge := bc_total_charge c - charge_of c it,
        bc_table := (bc_table c)(ce_key (bc_nodes c it) := None),
        bc_lru_list := remove1 it (bc_lru_list c)\<rparr>"
      using Some it(2) by (simp add: Cache_Erase_def)
    from cache_inv_unlink [OF assms it(1) this] it(2) show ?thesis by simp
  qed
  then show "cache_inv (Cache_Erase key c)" "cached (Cache_Erase key c) = (cached c)(key := None)"
    by simp_all
  show "set (bc_lru_list (Cache_Erase key c)) \<subseteq> set (bc_lru_list c)"
    using set_remove1_subset by (fastforce simp: Cache_Erase_def split: option.splits)
  show "bc_capacity (Cache_Erase key c) = bc_capacity c"
    by (simp add: Cache_Erase_def split: option.splits)
qed

lemma evict_effect:
  assumes "cache_inv c"
  shows "cache_inv (evict charge c)" "cached (evict charge c) \<subseteq>\<^sub>m cached c"
    "\<exists>m. bc_lru_list (evict charge c) = take m (bc_lru_list c) \<and> (m < length (bc_lru_list c) \<longrightarrow>
       bc_capacity c < bc_total_charge (evict charge c) + charge_of c (bc_lru_list c ! m) + charge)"
    "bc_total_charge (evict charge c) + charge \<le> bc_capacity c \<or> bc_lru_list (evict charge c) = []"
    "bc_capacity (evict charge c) = bc_capacity c" "bc_nodes (evict charge c) = bc_nodes c"
    "bc_next_node (evict charge c) = bc_next_node c"
proof -
  have "cache_inv (evict charge c) \<and> cached (evict charge c) \<subseteq>\<^sub>m cached c
    \<and> (\<exists>m. bc_lru_list (evict charge c) = take m (bc_lru_list c) \<and> (m < length (bc_lru_list c) \<longrightarrow>
       bc_capacity c < bc_total_charge (evict charge c) + charge_of c (bc_lru_list c ! m) + charge))
    \<and> (bc_total_charge (evict charge c) + charge \<le> bc_capacity c \<or> bc_lru_list (evict charge c) = [])
    \<and> bc_capacity (evict charge c) = bc_capacity c \<and> bc_nodes (evict charge c) = bc_nodes c
    \<and> bc_next_node (evict charge c) = bc_next_node c"
    using assms
  proof (induction charge c rule: evict.induct)
    case (1 charge c)
    show ?case
    proof (cases "bc_total_charge c + charge > bc_capacity c \<and> bc_lru_list c \<noteq> []")
      case False
      then show ?thesis
        using "1.prems" by (subst (1 2 3 4 5 6 7 8 9) evict.simps)
          (auto intro: exI [of _ "length (bc_lru_list c)"])
    next
      case True
      define n where "n = last (bc_lru_list c)"
      define c1 where "c1 = c\<lparr>bc_total_charge := bc_total_charge c - charge_of c n,
        bc_table := (bc_table c)(ce_key (bc_nodes c n) := None), bc_lru_list := butlast (bc_lru_list c)\<rparr>"
      have n: "n \<in> set (bc_lru_list c)" and lst: "bc_lru_list c = butlast (bc_lru_list c) @ [n]"
        using True by (simp_all add: n_def)
      have "remove1 n (bc_lru_list c) = butlast (bc_lru_list c)"
        using cache_invD(1) [OF "1.prems"] lst
        by (metis append_Nil2 distinct_append list.set_intros(1) disjoint_insert(1) list.simps(15)
            remove1.simps(2) remove1_append)
      then have c1: "c1 = c\<lparr>bc_total_charge := bc_total_charge c - charge_of c n,
        bc_table := (bc_table c)(ce_key (bc_nodes c n) := None), bc_lru_list := remove1 n (bc_lru_list c)\<rparr>"
        by (simp add: c1_def)
      note u = cache_inv_unlink [OF "1.prems" n c1]
      have ev: "evict charge c = evict charge c1"
        using True by (subst evict.simps) (simp add: c1_def n_def Let_def)
      note IH = "1.IH" [OF True n_def, folded c1_def, OF u(1)]
      have fields: "bc_capacity c1 = bc_capacity c" "bc_nodes c1 = bc_nodes c"
          "bc_next_node c1 = bc_next_node c" "bc_lru_list c1 = butlast (bc_lru_list c)"
          "bc_total_charge c1 + charge_of c n = bc_total_charge c"
        using u(2) by (simp_all add: c1_def)
      obtain m where m: "bc_lru_list (evict charge c1) = take m (bc_lru_list c1)"
          "m < length (bc_lru_list c1) \<longrightarrow> bc_capacity c1 <
             bc_total_charge (evict charge c1) + charge_of c1 (bc_lru_list c1 ! m) + charge"
        using IH by blast
      show ?thesis
      proof (cases "m < length (bc_lru_list c1)")
        case True
        have "bc_lru_list c = bc_lru_list c1 @ [n]" using lst fields(4) by simp
        then have "take m (bc_lru_list c1) = take m (bc_lru_list c)" "bc_lru_list c1 ! m = bc_lru_list c ! m"
          using True by (simp_all add: nth_append)
        with m True fields have "bc_lru_list (evict charge c1) = take m (bc_lru_list c)"
          "bc_capacity c < bc_total_charge (evict charge c1) + charge_of c (bc_lru_list c ! m) + charge"
          by simp_all
        moreover have "cached c1 \<subseteq>\<^sub>m cached c" using u(3) by (auto simp: map_le_def)
        ultimately show ?thesis
          using IH fields unfolding ev by (metis map_le_trans)
      next
        case False
        then have all: "bc_lru_list (evict charge c1) = bc_lru_list c1" using m(1) by simp
        then have "bc_total_charge (evict charge c1) = bc_total_charge c1"
          using cache_invD(4) [OF u(1)] cache_invD(4) [of "evict charge c1"] IH by simp
        moreover have "bc_lru_list c ! length (bc_lru_list c1) = n"
          using lst fields(4) by (metis nth_append_length)
        ultimately have "bc_lru_list (evict charge c1) = take (length (bc_lru_list c1)) (bc_lru_list c)"
          "bc_capacity c < bc_total_charge (evict charge c1)
             + charge_of c (bc_lru_list c ! length (bc_lru_list c1)) + charge"
          using all fields True by (simp_all add: butlast_conv_take)
        moreover have "cached c1 \<subseteq>\<^sub>m cached c" using u(3) by (auto simp: map_le_def)
        ultimately show ?thesis
          using IH fields unfolding ev by (metis map_le_trans)
      qed
    qed
  qed
  then show "cache_inv (evict charge c)" "cached (evict charge c) \<subseteq>\<^sub>m cached c"
    "\<exists>m. bc_lru_list (evict charge c) = take m (bc_lru_list c) \<and> (m < length (bc_lru_list c) \<longrightarrow>
       bc_capacity c < bc_total_charge (evict charge c) + charge_of c (bc_lru_list c ! m) + charge)"
    "bc_total_charge (evict charge c) + charge \<le> bc_capacity c \<or> bc_lru_list (evict charge c) = []"
    "bc_capacity (evict charge c) = bc_capacity c" "bc_nodes (evict charge c) = bc_nodes c"
    "bc_next_node (evict charge c) = bc_next_node c"
    by simp_all
qed

lemma cache_inv_Insert:
  assumes "cache_inv c"
  shows "cache_inv (Cache_Insert key block charge c)"
    "cached (Cache_Insert key block charge c) \<subseteq>\<^sub>m (cached c)(key \<mapsto> block)"
    "cached (Cache_Insert key block charge c) key = Some block"
    "bc_total_charge (Cache_Insert key block charge c) \<le> bc_capacity c
       \<or> length (bc_lru_list (Cache_Insert key block charge c)) = 1"
    "bc_capacity (Cache_Insert key block charge c) = bc_capacity c"
proof -
  define c1 where "c1 = Cache_Erase key c"
  define c2 where "c2 = evict charge c1"
  define n where "n = bc_next_node c2"
  let ?c' = "Cache_Insert key block charge c"
  have c': "?c' = c2\<lparr>bc_nodes := (bc_nodes c2)(n := \<lparr>ce_key = key, ce_block = block, ce_charge = charge\<rparr>),
      bc_next_node := Suc n, bc_lru_list := n # bc_lru_list c2, bc_table := (bc_table c2)(key \<mapsto> n),
      bc_total_charge := bc_total_charge c2 + charge\<rparr>"
    by (simp add: Cache_Insert_def Let_def c1_def c2_def n_def)
  note e1 = cache_inv_Erase [OF assms, of key, folded c1_def]
  note e2 = evict_effect [OF e1(1), of charge, folded c2_def]
  note I = cache_invD [OF e2(1)]
  have fresh: "n \<notin> set (bc_lru_list c2)" using I(2) by (auto simp: n_def)
  have "cached c1 key = None" using e1(2) by simp
  then have "cached c2 key = None" using e2(2) by (metis domIff map_le_def)
  then have none: "bc_table c2 key = None" by (simp add: cached_def)
  then have nokey: "ce_key (bc_nodes c2 m) \<noteq> key" if "m \<in> set (bc_lru_list c2)" for m
    using that I(3) [of key m] by auto
  have charges: "map (charge_of ?c') (bc_lru_list c2) = map (charge_of c2) (bc_lru_list c2)"
    using fresh by (auto simp: c')
  have tab: "bc_table ?c' k = Some m \<longleftrightarrow> m \<in> set (bc_lru_list ?c') \<and> ce_key (bc_nodes ?c' m) = k" for k m
    using fresh nokey I(3) [of k m] by (auto simp: c')
  have "bc_total_charge ?c' = charge_of ?c' n + sum_list (map (charge_of c2) (bc_lru_list c2))"
    using I(4) by (simp add: c')
  also have "\<dots> = sum_list (map (charge_of ?c') (bc_lru_list ?c'))"
    unfolding charges [symmetric] by (simp add: c')
  finally have total: "bc_total_charge ?c' = sum_list (map (charge_of ?c') (bc_lru_list ?c'))" .
  have "distinct (bc_lru_list ?c')" "\<forall>m \<in> set (bc_lru_list ?c'). m < bc_next_node ?c'"
    using fresh I(1,2) by (auto simp: c' n_def less_Suc_eq)
  with tab total show "cache_inv ?c'" unfolding cache_inv_def by blast
  have "cached ?c' k = ((cached c2)(key \<mapsto> block)) k" for k
  proof (cases "bc_table c2 k")
    case (Some m)
    then have "m \<noteq> n" using I(3) [of k m] fresh by auto
    with Some show ?thesis by (simp add: cached_def c')
  qed (simp add: cached_def c')
  then have "cached ?c' = (cached c2)(key \<mapsto> block)" by blast
  moreover have "cached c1 \<subseteq>\<^sub>m cached c" using e1(2) by (auto simp: map_le_def)
  then have "cached c2 \<subseteq>\<^sub>m cached c" using e2(2) by (rule map_le_trans [rotated])
  ultimately show "cached ?c' \<subseteq>\<^sub>m (cached c)(key \<mapsto> block)" "cached ?c' key = Some block"
    by (auto simp: map_le_def)
  show "bc_total_charge ?c' \<le> bc_capacity c \<or> length (bc_lru_list ?c') = 1"
    using e2(4) e1(4) by (auto simp: c')
  show "bc_capacity ?c' = bc_capacity c" using e2(5) e1(4) by (simp add: c')
qed

section \<open>The cache interface\<close>

locale cache_spec =
  fixes inv :: "'c \<Rightarrow> bool"
    and contents :: "'c \<Rightarrow> 'k \<rightharpoonup> 'b"
    and lookup :: "'k \<Rightarrow> 'c \<Rightarrow> 'b option \<times> 'c"
    and insert_block :: "'k \<Rightarrow> 'b \<Rightarrow> nat \<Rightarrow> 'c \<Rightarrow> 'c"
  assumes lookup_law: "inv c \<Longrightarrow> lookup k c = (r, c')
      \<Longrightarrow> inv c' \<and> r = contents c k \<and> contents c' = contents c"
    and insert_law: "inv c \<Longrightarrow> inv (insert_block k b n c)
      \<and> contents (insert_block k b n c) \<subseteq>\<^sub>m (contents c)(k \<mapsto> b)"
begin

text \<open>A property of every cached block survives lookups and the insertion of a block that has it.\<close>

definition coherent :: "('k \<Rightarrow> 'b \<Rightarrow> bool) \<Rightarrow> 'c \<Rightarrow> bool" where
  "coherent P c \<longleftrightarrow> inv c \<and> (\<forall>k b. contents c k = Some b \<longrightarrow> P k b)"

lemma coherent_lookup:
  "coherent P c \<Longrightarrow> lookup k c = (r, c') \<Longrightarrow> coherent P c' \<and> (\<forall>b. r = Some b \<longrightarrow> P k b)"
  using lookup_law by (fastforce simp: coherent_def)

lemma coherent_insert:
  assumes "coherent P c" and "P k b"
  shows "coherent P (insert_block k b n c)"
proof -
  have inv: "inv c" using assms(1) by (simp add: coherent_def)
  have "P k' b'" if k': "contents (insert_block k b n c) k' = Some b'" for k' b'
  proof -
    have "((contents c)(k \<mapsto> b)) k' = Some b'"
      using k' insert_law [OF inv, of k b n] unfolding map_le_def by (metis domI)
    then show ?thesis using assms by (auto simp: coherent_def split: if_splits)
  qed
  then show ?thesis using insert_law [OF inv] by (simp add: coherent_def)
qed

end

interpretation block_cache: cache_spec cache_inv cached Cache_Lookup Cache_Insert
  by unfold_locales (simp_all add: cache_inv_Lookup cache_inv_Insert)

section \<open>Properties\<close>

datatype cache_op = LookupOp CacheKey | InsertOp CacheKey Block nat | EraseOp CacheKey | ClearOp

fun apply_cache_op :: "cache_op \<Rightarrow> BlockCache \<Rightarrow> BlockCache" where
  "apply_cache_op (LookupOp k) c = snd (Cache_Lookup k c)"
| "apply_cache_op (InsertOp k b n) c = Cache_Insert k b n c"
| "apply_cache_op (EraseOp k) c = Cache_Erase k c"
| "apply_cache_op ClearOp c = Cache_Clear c"

text \<open>The same operations on an unbounded map: the specification the cache approximates.\<close>

fun spec_cache_op :: "cache_op \<Rightarrow> (CacheKey \<rightharpoonup> Block) \<Rightarrow> (CacheKey \<rightharpoonup> Block)" where
  "spec_cache_op (LookupOp k) m = m"
| "spec_cache_op (InsertOp k b n) m = m(k \<mapsto> b)"
| "spec_cache_op (EraseOp k) m = m(k := None)"
| "spec_cache_op ClearOp m = Map.empty"

definition within_capacity :: "BlockCache \<Rightarrow> bool" where
  "within_capacity c \<longleftrightarrow> bc_total_charge c \<le> bc_capacity c \<or> length (bc_lru_list c) = 1"

lemma Cache_Erase_total: "bc_total_charge (Cache_Erase k c) \<le> bc_total_charge c"
  "length (bc_lru_list (Cache_Erase k c)) \<le> length (bc_lru_list c)"
  by (auto simp: Cache_Erase_def length_remove1 split: option.splits)

lemma within_capacity_Erase:
  assumes "cache_inv c" and "within_capacity c"
  shows "within_capacity (Cache_Erase k c)"
proof -
  have "bc_lru_list (Cache_Erase k c) = [] \<Longrightarrow> bc_total_charge (Cache_Erase k c) = 0"
    using cache_invD(4) [OF cache_inv_Erase(1) [OF assms(1)]] by simp
  moreover have "bc_capacity (Cache_Erase k c) = bc_capacity c" by (rule cache_inv_Erase(4) [OF assms(1)])
  ultimately show ?thesis
    using assms(2) Cache_Erase_total [of k c]
    by (cases "bc_lru_list (Cache_Erase k c)") (auto simp: within_capacity_def)
qed

lemma apply_cache_op_step:
  assumes "cache_inv c" and "within_capacity c" and "cached c \<subseteq>\<^sub>m m"
  shows "cache_inv (apply_cache_op op c) \<and> within_capacity (apply_cache_op op c)
    \<and> cached (apply_cache_op op c) \<subseteq>\<^sub>m spec_cache_op op m
    \<and> bc_capacity (apply_cache_op op c) = bc_capacity c"
proof (cases op)
  case (LookupOp k)
  obtain r c' where l: "Cache_Lookup k c = (r, c')" by fastforce
  have "length (bc_lru_list c') = length (bc_lru_list c)"
    using l cache_invD(3) [OF assms(1)]
    by (auto simp: Cache_Lookup_def length_remove1 split: option.splits)
      (metis Suc_pred length_pos_if_in_set)
  then show ?thesis
    using LookupOp l assms cache_inv_Lookup [OF assms(1) l] by (simp add: within_capacity_def)
next
  case (InsertOp k b n)
  note e = cache_inv_Insert [OF assms(1), of k b n]
  have "(cached c)(k \<mapsto> b) \<subseteq>\<^sub>m m(k \<mapsto> b)" using assms(3) by (rule map_le_upd)
  then show ?thesis
    using InsertOp e map_le_trans [OF e(2)] by (auto simp: within_capacity_def)
next
  case (EraseOp k)
  then show ?thesis
    using cache_inv_Erase [OF assms(1), of k] within_capacity_Erase [OF assms(1,2), of k] assms(3)
    by (auto simp: map_le_def)
next
  case ClearOp
  then show ?thesis
    using cache_inv_Clear [of c] by (simp add: within_capacity_def) (simp add: Cache_Clear_def cached_def map_le_def)
qed

lemma apply_cache_ops:
  "cache_inv c \<Longrightarrow> within_capacity c \<Longrightarrow> cached c \<subseteq>\<^sub>m m \<Longrightarrow>
     cache_inv (fold apply_cache_op ops c) \<and> within_capacity (fold apply_cache_op ops c)
     \<and> cached (fold apply_cache_op ops c) \<subseteq>\<^sub>m fold spec_cache_op ops m
     \<and> bc_capacity (fold apply_cache_op ops c) = bc_capacity c"
proof (induction ops arbitrary: c m)
  case (Cons op ops)
  note step = apply_cache_op_step [OF Cons.prems, of op]
  show ?case
    using Cons.IH [of "apply_cache_op op c" "spec_cache_op op m"] step by simp
qed simp

text \<open>C15: After any sequence of operations on a new cache, a lookup returns either nothing or
  exactly the block an unbounded map would hold for that key: never a block that was replaced,
  erased or cleared.\<close>

theorem cache_never_stale:
  "fst (Cache_Lookup key (fold apply_cache_op ops (BlockCache_new capacity)))
     \<in> {None, fold spec_cache_op ops Map.empty key}"
proof -
  let ?c = "fold apply_cache_op ops (BlockCache_new capacity)"
  have "cached (BlockCache_new capacity) = Map.empty" "within_capacity (BlockCache_new capacity)"
    by (auto simp: cached_def BlockCache_new_def within_capacity_def)
  then have inv: "cache_inv ?c" and le: "cached ?c \<subseteq>\<^sub>m fold spec_cache_op ops Map.empty"
    using apply_cache_ops [of "BlockCache_new capacity" Map.empty ops] by auto
  obtain r c' where l: "Cache_Lookup key ?c = (r, c')" by fastforce
  have "r = cached ?c key" by (rule cache_inv_Lookup(2) [OF inv l])
  moreover have "cached ?c key = None \<or> cached ?c key = fold spec_cache_op ops Map.empty key"
    using le by (metis domIff map_le_def)
  ultimately show ?thesis using l by auto
qed




end
