(* ===== verification/SSTable_Builder.thy ===== *)
theory SSTable_Builder
  imports Env Block Bloom Crc32
begin

text \<open>
  Writing a sorted table (src/sstable_builder.h, src/sstable_builder.cc).  The builder collects
  entries in a data block, writes the block with its checksum when it has grown to the block
  size, records in the index block the last key of each data block with the handle of the
  block, and finishes with the filter block, the index block and a 48-byte footer.

  The layout section defines the file that a list of data blocks makes (\<open>table_bytes\<close>); the
  lemmas follow the builder through \<^verbatim>\<open>Add\<close>, \<^verbatim>\<open>FlushBlock\<close> and \<^verbatim>\<open>Finish\<close> and
  show that a builder that reports OK has written exactly such a file, whatever short, interrupted
  or failed system calls happened on the way.
\<close>

definition kTableMagicNumber :: u64 where "kTableMagicNumber = 0x5354524154413031"

record SSTableBuilder =
  sb_options :: Options
  sb_filename :: string
  sb_fd :: fd
  sb_offset :: u64
  sb_num_entries :: u64
  sb_data_block :: BlockBuilder
  sb_index_block :: BlockBuilder
  sb_keys_for_filter :: "bytes list"
  sb_last_key_in_block :: bytes
  sb_smallest_key :: bytes
  sb_largest_key :: bytes
  sb_status :: Status
  sb_closed :: bool

definition SSTableBuilder_new :: "Options \<Rightarrow> string \<Rightarrow> World \<Rightarrow> SSTableBuilder \<times> World" where
  "SSTableBuilder_new options filename w =
     (let (fd, w1) = sys_open_creat True filename w
      in (\<lparr>sb_options = options, sb_filename = filename, sb_fd = fd, sb_offset = 0, sb_num_entries = 0,
           sb_data_block = BlockBuilder_new 16, sb_index_block = BlockBuilder_new 1,
           sb_keys_for_filter = [], sb_last_key_in_block = [], sb_smallest_key = [], sb_largest_key = [],
           sb_status = (if fd = None then IOError ''Failed to create file: '' else OK),
           sb_closed = False\<rparr>, w1))"

definition WriteRawBlock ::
  "bytes \<Rightarrow> SSTableBuilder \<Rightarrow> World \<Rightarrow> Status \<times> BlockHandle \<times> SSTableBuilder \<times> World" where
  "WriteRawBlock block_contents b w =
     (let handle = \<lparr>bh_offset = sb_offset b, bh_size = of_nat (length block_contents)\<rparr>
      in case sb_fd b of
           None \<Rightarrow> (IOError ''Failed to write block: '', handle, b, w)
         | Some i \<Rightarrow>
             (let (good1, n1, w1) = write_all i block_contents w;
                  b1 = b\<lparr>sb_offset := sb_offset b + of_nat n1\<rparr>
              in if \<not> good1 then (IOError ''Failed to write block: '', handle, b1, w1)
                 else let crc = Crc32 block_contents 0;
                          (good2, n2, w2) = write_all i (EncodeFixed32 crc) w1;
                          b2 = b1\<lparr>sb_offset := sb_offset b1 + of_nat n2\<rparr>
                   in if \<not> good2 then (IOError ''Failed to write block trailer: '', handle, b2, w2)
                      else (OK, handle, b2, w2)))"

definition FlushBlock :: "SSTableBuilder \<Rightarrow> World \<Rightarrow> SSTableBuilder \<times> World" where
  "FlushBlock b w =
     (if BlockBuilder_Empty (sb_data_block b) then (b, w)
      else let fin = BlockBuilder_Finish (sb_data_block b);
               (s, handle, b1, w1) = WriteRawBlock (bb_buffer fin) (b\<lparr>sb_data_block := fin\<rparr>) w;
               b2 = b1\<lparr>sb_status := s\<rparr>
        in if \<not> ok s then (b2, w1)
           else (b2\<lparr>sb_index_block := BlockBuilder_Add 0 kTypeValue (sb_last_key_in_block b2)
                      (BlockHandle_EncodeTo handle []) (sb_index_block b2),
                    sb_data_block := BlockBuilder_Reset (sb_data_block b2)\<rparr>, w1))"

definition SSTableBuilder_Add ::
  "SequenceNumber \<Rightarrow> ValueType \<Rightarrow> bytes \<Rightarrow> bytes \<Rightarrow> SSTableBuilder \<Rightarrow> World \<Rightarrow> SSTableBuilder \<times> World"
where
  "SSTableBuilder_Add seq type key val b w =
     (if \<not> ok (sb_status b) then (b, w)
      else let b1 = b\<lparr>sb_smallest_key := (if sb_num_entries b = 0 then key else sb_smallest_key b),
                      sb_largest_key := key,
                      sb_keys_for_filter := sb_keys_for_filter b @ [key],
                      sb_last_key_in_block := key,
                      sb_data_block := BlockBuilder_Add seq type key val (sb_data_block b),
                      sb_num_entries := sb_num_entries b + 1\<rparr>
        in if CurrentSizeEstimate (sb_data_block b1) \<ge> block_size (sb_options b1)
           then FlushBlock b1 w else (b1, w))"

definition table_footer :: "BlockHandle \<Rightarrow> BlockHandle \<Rightarrow> bytes" where
  "table_footer filter_handle index_handle =
     BlockHandle_EncodeTo filter_handle [] @ BlockHandle_EncodeTo index_handle []
       @ replicate 8 0 @ EncodeFixed64 kTableMagicNumber"

definition SSTableBuilder_Finish ::
  "SSTableBuilder \<Rightarrow> World \<Rightarrow> Status \<times> SSTableBuilder \<times> World" where
  "SSTableBuilder_Finish b w =
     (if \<not> ok (sb_status b) then (sb_status b, b\<lparr>sb_closed := sb_closed b \<or> sb_fd b \<noteq> None\<rparr>, w)
      else let (b0, w0) = FlushBlock b w;
               filter_data = CreateFilter (sb_keys_for_filter b0) (bloom_bits_per_key (sb_options b0)) [];
               (s1, filter_handle, b1, w1) = WriteRawBlock filter_data b0 w0;
               b1 = b1\<lparr>sb_status := s1\<rparr>
        in if \<not> ok s1 then (s1, b1, w1)
           else let fin = BlockBuilder_Finish (sb_index_block b1);
                    (s2, index_handle, b2, w2) = WriteRawBlock (bb_buffer fin) (b1\<lparr>sb_index_block := fin\<rparr>) w1;
                    b2 = b2\<lparr>sb_status := s2\<rparr>
             in if \<not> ok s2 then (s2, b2, w2)
                else case sb_fd b2 of
                  None \<Rightarrow> (IOError ''Failed to write footer: '', b2, w2)
                | Some i \<Rightarrow>
                    (let (good, n, w3) = write_all i (table_footer filter_handle index_handle) w2;
                         b3 = b2\<lparr>sb_offset := sb_offset b2 + of_nat n\<rparr>
                     in if \<not> good then (IOError ''Failed to write footer: '', b3, w3)
                        else let (s, w4) = FsyncFile (Some i) w3
                          in (s, b3\<lparr>sb_status := s, sb_closed := True\<rparr>, w4)))"

section \<open>Layout of a table file\<close>

text \<open>A table is given by its chunks: the entries of each data block, in order.\<close>

definition raw_block :: "bytes \<Rightarrow> bytes" where
  "raw_block c = c @ EncodeFixed32 (Crc32 c 0)"

definition data_blocks :: "MemtableEntry list list \<Rightarrow> bytes" where
  "data_blocks chunks = concat (map (\<lambda>es. raw_block (build_block 16 es)) chunks)"

definition chunk_handle :: "MemtableEntry list list \<Rightarrow> nat \<Rightarrow> BlockHandle" where
  "chunk_handle chunks i = \<lparr>bh_offset = of_nat (length (data_blocks (take i chunks))),
     bh_size = of_nat (length (build_block 16 (chunks ! i)))\<rparr>"

definition index_entry :: "MemtableEntry list list \<Rightarrow> nat \<Rightarrow> MemtableEntry" where
  "index_entry chunks i = \<lparr>e_key = e_key (last (chunks ! i)), e_seq = 0, e_type = kTypeValue,
     e_value = BlockHandle_EncodeTo (chunk_handle chunks i) []\<rparr>"

definition index_entries :: "MemtableEntry list list \<Rightarrow> MemtableEntry list" where
  "index_entries chunks = map (index_entry chunks) [0..<length chunks]"

definition table_filter :: "int \<Rightarrow> MemtableEntry list list \<Rightarrow> bytes" where
  "table_filter bits chunks = CreateFilter (map e_key (concat chunks)) bits []"

definition table_index :: "MemtableEntry list list \<Rightarrow> bytes" where
  "table_index chunks = build_block 1 (index_entries chunks)"

definition filter_handle :: "int \<Rightarrow> MemtableEntry list list \<Rightarrow> BlockHandle" where
  "filter_handle bits chunks = \<lparr>bh_offset = of_nat (length (data_blocks chunks)),
     bh_size = of_nat (length (table_filter bits chunks))\<rparr>"

definition index_handle :: "int \<Rightarrow> MemtableEntry list list \<Rightarrow> BlockHandle" where
  "index_handle bits chunks =
     \<lparr>bh_offset = of_nat (length (data_blocks chunks @ raw_block (table_filter bits chunks))),
      bh_size = of_nat (length (table_index chunks))\<rparr>"

definition table_bytes :: "int \<Rightarrow> MemtableEntry list list \<Rightarrow> bytes" where
  "table_bytes bits chunks =
     data_blocks chunks @ raw_block (table_filter bits chunks) @ raw_block (table_index chunks)
       @ table_footer (filter_handle bits chunks) (index_handle bits chunks)"

lemma length_raw_block [simp]: "length (raw_block c) = length c + 4"
  by (simp add: raw_block_def)

lemma length_table_footer [simp]: "length (table_footer fh ih) = 48"
  by (simp add: table_footer_def)

lemma data_blocks_simps [simp]:
  "data_blocks [] = []" "data_blocks (c # cs) = raw_block (build_block 16 c) @ data_blocks cs"
  "data_blocks (cs @ ds) = data_blocks cs @ data_blocks ds"
  by (simp_all add: data_blocks_def)

lemma length_index_entries [simp]: "length (index_entries chunks) = length chunks"
  by (simp add: index_entries_def)

lemma index_entries_nth [simp]: "i < length chunks \<Longrightarrow> index_entries chunks ! i = index_entry chunks i"
  by (simp add: index_entries_def)

lemma index_entries_snoc:
  "index_entries (chunks @ [c]) = index_entries chunks @
     [\<lparr>e_key = e_key (last c), e_seq = 0, e_type = kTypeValue, e_value = BlockHandle_EncodeTo
        \<lparr>bh_offset = of_nat (length (data_blocks chunks)), bh_size = of_nat (length (build_block 16 c))\<rparr> []\<rparr>]"
  by (rule nth_equalityI) (auto simp: index_entry_def chunk_handle_def nth_append less_Suc_eq)

section \<open>What the builder writes\<close>

text \<open>The world after calls that only append to one file.\<close>

definition writes_only :: "nat \<Rightarrow> World \<Rightarrow> World \<Rightarrow> bool" where
  "writes_only i w w' \<longleftrightarrow> (\<exists>x c. w' = w\<lparr>script := x, inodes := (inodes w)(i := c)\<rparr> \<and> set x \<subseteq> set (script w))"

lemma writes_only_refl [simp]: "writes_only i w w"
  unfolding writes_only_def by (intro exI [of _ "script w"] exI [of _ "inodes w i"]) simp

lemma writes_only_trans:
  assumes "writes_only i w w'" and "writes_only i w' w''"
  shows "writes_only i w w''"
proof -
  obtain x c y d where "w' = w\<lparr>script := x, inodes := (inodes w)(i := c)\<rparr>" "set x \<subseteq> set (script w)"
    "w'' = w'\<lparr>script := y, inodes := (inodes w')(i := d)\<rparr>" "set y \<subseteq> set (script w')"
    using assms unfolding writes_only_def by blast
  then have "w'' = w\<lparr>script := y, inodes := (inodes w)(i := d)\<rparr>" "set y \<subseteq> set (script w)" by auto
  then show ?thesis unfolding writes_only_def by blast
qed

lemma writes_only_frame:
  "writes_only i w w' \<Longrightarrow> dir w' = dir w \<and> next_inode w' = next_inode w
     \<and> (\<forall>j. j \<noteq> i \<longrightarrow> inodes w' j = inodes w j) \<and> set (script w') \<subseteq> set (script w)"
  by (auto simp: writes_only_def)

lemma WriteRawBlock_effect:
  assumes "sb_fd b = Some i" and "WriteRawBlock c b w = (s, h, b', w')"
  shows "\<exists>n. writes_only i w w' \<and> inodes w' i = inodes w i @ take n (raw_block c)
    \<and> h = \<lparr>bh_offset = sb_offset b, bh_size = of_nat (length c)\<rparr> \<and> b' = b\<lparr>sb_offset := sb_offset b + of_nat n\<rparr>
    \<and> (s = OK \<and> n = length (raw_block c) \<or> \<not> ok s \<and> n < length (raw_block c) \<and> Fail \<in> set (script w))"
proof -
  obtain g1 n1 w1 where 1: "write_all i c w = (g1, n1, w1)" by (metis prod_cases3)
  obtain x1 where x1: "w1 = w\<lparr>script := x1, inodes := (inodes w)(i := inodes w i @ take n1 c)\<rparr>"
      "set x1 \<subseteq> set (script w)" "n1 \<le> length c" "g1 \<longleftrightarrow> n1 = length c" "Fail \<notin> set (script w) \<longrightarrow> g1"
    using write_all_inode [OF 1] by blast
  have wo1: "writes_only i w w1" using x1 by (auto simp: writes_only_def)
  let ?h = "\<lparr>bh_offset = sb_offset b, bh_size = of_nat (length c)\<rparr>"
  show ?thesis
  proof (cases g1)
    case False
    then show ?thesis
      using assms 1 wo1 x1 by (intro exI [of _ n1]) (auto simp: WriteRawBlock_def raw_block_def)
  next
    case True
    let ?t = "EncodeFixed32 (Crc32 c 0)"
    obtain g2 n2 w2 where 2: "write_all i ?t w1 = (g2, n2, w2)" by (metis prod_cases3)
    obtain x2 where x2: "w2 = w1\<lparr>script := x2, inodes := (inodes w1)(i := inodes w1 i @ take n2 ?t)\<rparr>"
        "set x2 \<subseteq> set (script w1)" "n2 \<le> length ?t" "g2 \<longleftrightarrow> n2 = length ?t" "Fail \<notin> set (script w1) \<longrightarrow> g2"
      using write_all_inode [OF 2] by blast
    have "writes_only i w1 w2" using x2 by (auto simp: writes_only_def)
    with wo1 have wo: "writes_only i w w2" by (rule writes_only_trans)
    have n1: "n1 = length c" using True x1(4) by simp
    have "inodes w2 i = inodes w i @ take (length c + n2) (raw_block c)"
      using x1(1) x2(1) n1 by (simp add: raw_block_def)
    moreover have "s = (if g2 then OK else IOError ''Failed to write block trailer: '')"
      "h = ?h" "b' = b\<lparr>sb_offset := sb_offset b + of_nat (length c + n2)\<rparr>" "w' = w2"
      using assms 1 2 True n1 by (auto simp: WriteRawBlock_def Let_def add.assoc split: if_splits)
    moreover have "Fail \<in> set (script w)" if "\<not> g2" using that x1(1,2) x2(5) by auto
    ultimately show ?thesis
      using wo x2(3,4) by (intro exI [of _ "length c + n2"]) auto
  qed
qed

text \<open>The state of a builder that has written \<open>chunks\<close> and holds \<open>cur\<close> in its data block.\<close>

definition sb_rep ::
  "SSTableBuilder \<Rightarrow> World \<Rightarrow> nat \<Rightarrow> MemtableEntry list list \<Rightarrow> MemtableEntry list \<Rightarrow> bool" where
  "sb_rep b w i chunks cur \<longleftrightarrow>
     sb_fd b = Some i \<and> sb_status b = OK \<and> inodes w i = data_blocks chunks \<and>
     sb_offset b = of_nat (length (data_blocks chunks)) \<and>
     sb_data_block b = fold block_add cur (BlockBuilder_new 16) \<and>
     sb_index_block b = fold block_add (index_entries chunks) (BlockBuilder_new 1) \<and>
     sb_keys_for_filter b = map e_key (concat chunks @ cur) \<and>
     (cur \<noteq> [] \<longrightarrow> sb_last_key_in_block b = e_key (last cur)) \<and>
     sb_num_entries b = of_nat (length (concat chunks @ cur)) \<and>
     (concat chunks @ cur \<noteq> [] \<longrightarrow> sb_smallest_key b = e_key (hd (concat chunks @ cur))
        \<and> sb_largest_key b = e_key (last (concat chunks @ cur))) \<and>
     (\<forall>c \<in> set chunks. c \<noteq> [])"

lemma Reset_data_block:
  "BlockBuilder_Reset (BlockBuilder_Finish (fold block_add cur (BlockBuilder_new ri))) = BlockBuilder_new ri"
proof -
  have "bb_restart_interval (fold block_add cur bb) = bb_restart_interval bb" for bb
    by (induction cur arbitrary: bb) (simp_all add: BlockBuilder_Add_def Let_def)
  from this [of "BlockBuilder_new ri"] show ?thesis
    by (cases "fold block_add cur (BlockBuilder_new ri)")
      (simp add: BlockBuilder_Reset_def BlockBuilder_Finish_def BlockBuilder_new_def)
qed

lemma data_block_empty: "BlockBuilder_Empty (fold block_add cur (BlockBuilder_new 16)) \<longleftrightarrow> cur = []"
  using bb_rep_fold [OF bb_rep_new [of 16], of cur] bb_rep_Empty by auto

lemma FlushBlock_effect:
  assumes r: "sb_rep b w i chunks cur" and f: "FlushBlock b w = (b', w')"
  shows "writes_only i w w' \<and> sb_options b' = sb_options b \<and>
    (sb_rep b' w' i (if cur = [] then chunks else chunks @ [cur]) []
     \<or> \<not> ok (sb_status b') \<and> Fail \<in> set (script w))"
proof (cases "cur = []")
  case True
  then show ?thesis using r f data_block_empty [of cur] by (auto simp: FlushBlock_def sb_rep_def)
next
  case False
  define bld where "bld = BlockBuilder_Finish (sb_data_block b)"
  have buf: "bb_buffer bld = build_block 16 cur" using r by (simp add: bld_def sb_rep_def build_block_def)
  have ne: "\<not> BlockBuilder_Empty (sb_data_block b)" using r False data_block_empty by (simp add: sb_rep_def)
  obtain s h b1 w1 where wr: "WriteRawBlock (bb_buffer bld) (b\<lparr>sb_data_block := bld\<rparr>) w = (s, h, b1, w1)"
    by (metis prod_cases4)
  have fd: "sb_fd (b\<lparr>sb_data_block := bld\<rparr>) = Some i" using r by (simp add: sb_rep_def)
  obtain n where n: "writes_only i w w1" "inodes w1 i = inodes w i @ take n (raw_block (bb_buffer bld))"
      "h = \<lparr>bh_offset = sb_offset b, bh_size = of_nat (length (bb_buffer bld))\<rparr>"
      "b1 = b\<lparr>sb_data_block := bld, sb_offset := sb_offset b + of_nat n\<rparr>"
      "s = OK \<and> n = length (raw_block (bb_buffer bld)) \<or> \<not> ok s \<and> n < length (raw_block (bb_buffer bld))
         \<and> Fail \<in> set (script w)"
    using WriteRawBlock_effect [OF fd wr] by auto
  have fl: "FlushBlock b w = (if \<not> ok s then (b1\<lparr>sb_status := s\<rparr>, w1)
      else (b1\<lparr>sb_status := s, sb_index_block := BlockBuilder_Add 0 kTypeValue (sb_last_key_in_block b1)
              (BlockHandle_EncodeTo h []) (sb_index_block b1),
            sb_data_block := BlockBuilder_Reset (sb_data_block b1)\<rparr>, w1))"
    using wr ne by (simp add: FlushBlock_def Let_def bld_def)
  show ?thesis
  proof (cases "ok s")
    case False
    with n fl f show ?thesis by auto
  next
    case True
    then have "s = OK" "n = length (raw_block (build_block 16 cur))" using n(5) buf by auto
    moreover have "BlockBuilder_Reset bld = BlockBuilder_new 16"
      using r Reset_data_block by (simp add: bld_def sb_rep_def)
    ultimately show ?thesis
      using r n(1-4) fl f True False buf
      by (auto simp: sb_rep_def index_entries_snoc)
  qed
qed

lemma sb_rep_Add:
  assumes r: "sb_rep b w i chunks cur" and a: "SSTableBuilder_Add (e_seq e) (e_type e) (e_key e) (e_value e) b w = (b', w')"
    and small: "length (concat chunks @ cur) < 2 ^ 64"
  shows "writes_only i w w' \<and> sb_options b' = sb_options b \<and>
    ((\<exists>chunks' cur'. sb_rep b' w' i chunks' cur' \<and> concat chunks' @ cur' = concat chunks @ cur @ [e])
     \<or> \<not> ok (sb_status b') \<and> Fail \<in> set (script w))"
proof -
  define b1 where "b1 = b\<lparr>sb_smallest_key := (if sb_num_entries b = 0 then e_key e else sb_smallest_key b),
    sb_largest_key := e_key e, sb_keys_for_filter := sb_keys_for_filter b @ [e_key e],
    sb_last_key_in_block := e_key e, sb_data_block := block_add e (sb_data_block b),
    sb_num_entries := sb_num_entries b + 1\<rparr>"
  have ok: "sb_status b = OK" using r by (simp add: sb_rep_def)
  have zero: "sb_num_entries b = 0 \<longleftrightarrow> concat chunks @ cur = []"
  proof -
    have "sb_num_entries b = of_nat (length (concat chunks @ cur))" using r by (simp add: sb_rep_def)
    then have "unat (sb_num_entries b) = length (concat chunks @ cur)" using small unat_of_nat64 by metis
    then show ?thesis by (metis length_0_conv unat_eq_zero)
  qed
  have "concat chunks @ cur \<noteq> [] \<Longrightarrow> sb_smallest_key b = e_key (hd (concat chunks @ cur))"
    using r unfolding sb_rep_def by blast
  then have small1: "sb_smallest_key b1 = e_key (hd ((concat chunks @ cur) @ [e]))"
    using zero by (cases "concat chunks @ cur = []") (simp_all only: b1_def hd_append, simp_all)
  have r1: "sb_rep b1 w i chunks (cur @ [e])"
    using r small1 by (simp add: sb_rep_def b1_def)
  have "SSTableBuilder_Add (e_seq e) (e_type e) (e_key e) (e_value e) b w =
      (if CurrentSizeEstimate (sb_data_block b1) \<ge> block_size (sb_options b1) then FlushBlock b1 w else (b1, w))"
    using ok by (simp add: SSTableBuilder_Add_def b1_def Let_def)
  then consider "FlushBlock b1 w = (b', w')" | "b' = b1" "w' = w" using a by (auto split: if_splits)
  then show ?thesis
  proof cases
    case 1
    have "concat (chunks @ [cur @ [e]]) @ [] = concat chunks @ cur @ [e]" by simp
    moreover have "sb_options b1 = sb_options b" by (simp add: b1_def)
    moreover have "writes_only i w w'" "sb_options b' = sb_options b1"
      "sb_rep b' w' i (chunks @ [cur @ [e]]) [] \<or> \<not> ok (sb_status b') \<and> Fail \<in> set (script w)"
      using FlushBlock_effect [OF r1 1] by simp_all
    ultimately show ?thesis by metis
  next
    case 2
    then show ?thesis using r1 unfolding 2 by (intro conjI disjI1 exI) (simp_all add: b1_def)
  qed
qed

text \<open>Adding a list of entries, as the loops of the flush and of the compaction do.\<close>

fun add_entries :: "MemtableEntry list \<Rightarrow> SSTableBuilder \<Rightarrow> World \<Rightarrow> SSTableBuilder \<times> World" where
  "add_entries [] b w = (b, w)"
| "add_entries (e # es) b w =
     (let (b1, w1) = SSTableBuilder_Add (e_seq e) (e_type e) (e_key e) (e_value e) b w in add_entries es b1 w1)"

lemma Add_not_ok: "\<not> ok (sb_status b) \<Longrightarrow> SSTableBuilder_Add seq type key val b w = (b, w)"
  by (simp add: SSTableBuilder_Add_def)

lemma add_entries_not_ok: "\<not> ok (sb_status b) \<Longrightarrow> add_entries es b w = (b, w)"
  by (induction es) (simp_all add: Add_not_ok)

lemma add_entries_effect:
  assumes "sb_rep b w i chunks cur" and "add_entries es b w = (b', w')"
    and "length (concat chunks @ cur) + length es < 2 ^ 64"
  shows "writes_only i w w' \<and> sb_options b' = sb_options b \<and>
    ((\<exists>chunks' cur'. sb_rep b' w' i chunks' cur' \<and> concat chunks' @ cur' = concat chunks @ cur @ es)
     \<or> \<not> ok (sb_status b') \<and> Fail \<in> set (script w))"
  using assms
proof (induction es arbitrary: b w chunks cur)
  case (Cons e es)
  obtain b1 w1 where 1: "SSTableBuilder_Add (e_seq e) (e_type e) (e_key e) (e_value e) b w = (b1, w1)" by fastforce
  have 2: "add_entries es b1 w1 = (b', w')" using Cons.prems(2) 1 by simp
  have A: "writes_only i w w1" "sb_options b1 = sb_options b"
    "(\<exists>chunks' cur'. sb_rep b1 w1 i chunks' cur' \<and> concat chunks' @ cur' = concat chunks @ cur @ [e])
     \<or> \<not> ok (sb_status b1) \<and> Fail \<in> set (script w)"
    using sb_rep_Add [OF Cons.prems(1) 1] Cons.prems(3) by auto
  show ?case
  proof (cases "ok (sb_status b1)")
    case False
    then have "\<not> sb_rep b1 w1 i c d" for c d by (auto simp: sb_rep_def)
    then show ?thesis using A 2 add_entries_not_ok [OF False, of es w1] False by auto
  next
    case True
    then obtain chunks' cur' where r: "sb_rep b1 w1 i chunks' cur'" "concat chunks' @ cur' = concat chunks @ cur @ [e]"
      using A(3) by blast
    have len: "length (concat chunks' @ cur') + length es < 2 ^ 64"
      using Cons.prems(3) unfolding r(2) by simp
    have eq: "concat chunks' @ cur' @ es = concat chunks @ cur @ e # es"
      using arg_cong [OF r(2), of "\<lambda>x. x @ es"] by simp
    show ?thesis
      using Cons.IH [OF r(1) 2 len, unfolded eq] A(2) writes_only_trans [OF A(1), of w']
        writes_only_frame [OF A(1)] by (auto dest: subsetD)
  qed
next
  case Nil
  then have "b' = b" "w' = w" by simp_all
  then show ?case using Nil.prems(1) unfolding append_Nil2 by (intro conjI disjI1 exI) simp_all
qed

lemma FsyncFile_effect:
  "FsyncFile (Some i) w = (s, w') \<Longrightarrow> w' = w\<lparr>script := tl (script w)\<rparr> \<and> (ok s \<longrightarrow> s = OK)"
  by (auto simp: FsyncFile_def sys_fdatasync_def next_outcome_eq split: if_splits)

lemma writes_only_script:
  assumes "writes_only i w w'"
  shows "writes_only i w (w'\<lparr>script := tl (script w')\<rparr>)"
proof -
  obtain x c where x: "w' = w\<lparr>script := x, inodes := (inodes w)(i := c)\<rparr>" "set x \<subseteq> set (script w)"
    using assms unfolding writes_only_def by blast
  then have "w'\<lparr>script := tl (script w')\<rparr> = w\<lparr>script := tl x, inodes := (inodes w)(i := c)\<rparr>" by simp
  moreover have "set (tl x) \<subseteq> set (script w)" using x(2) by (cases x) auto
  ultimately show ?thesis unfolding writes_only_def by blast
qed

lemma write_all_full:
  assumes "Fail \<notin> set (script w)"
  shows "\<exists>w'. write_all i p w = (True, length p, w') \<and> writes_only i w w' \<and> inodes w' i = inodes w i @ p"
proof -
  obtain g n w' where 1: "write_all i p w = (g, n, w')" by (metis prod_cases3)
  with write_all_inode [OF 1] assms show ?thesis by (auto simp: writes_only_def)
qed

lemma WriteRawBlock_full:
  assumes "sb_fd b = Some i" and "Fail \<notin> set (script w)"
  shows "\<exists>w'. WriteRawBlock c b w = (OK, \<lparr>bh_offset = sb_offset b, bh_size = of_nat (length c)\<rparr>,
      b\<lparr>sb_offset := sb_offset b + of_nat (length (raw_block c))\<rparr>, w')
    \<and> writes_only i w w' \<and> inodes w' i = inodes w i @ raw_block c"
proof -
  obtain s h b' w' where 1: "WriteRawBlock c b w = (s, h, b', w')" by (metis prod_cases4)
  from WriteRawBlock_effect [OF assms(1) 1] 1 assms(2) show ?thesis by auto
qed

text \<open>The three writes that end a table, from any state with a given index block.\<close>

lemma Finish_tail:
  assumes fd: "sb_fd b0 = Some i" and nf: "Fail \<notin> set (script w0)"
    and flush: "FlushBlock b w = (b0, w0)" and ok: "ok (sb_status b)"
    and idx: "bb_buffer (BlockBuilder_Finish (sb_index_block b0)) = idx"
    and flt: "CreateFilter (sb_keys_for_filter b0) (bloom_bits_per_key (sb_options b0)) [] = flt"
    and fin: "SSTableBuilder_Finish b w = (s, b', w')"
  shows "writes_only i w0 w' \<and>
    inodes w' i = inodes w0 i @ raw_block flt @ raw_block idx @ table_footer
      \<lparr>bh_offset = sb_offset b0, bh_size = of_nat (length flt)\<rparr>
      \<lparr>bh_offset = sb_offset b0 + of_nat (length (raw_block flt)), bh_size = of_nat (length idx)\<rparr>
    \<and> sb_offset b' = sb_offset b0 + of_nat (length (raw_block flt) + length (raw_block idx) + 48)
    \<and> sb_smallest_key b' = sb_smallest_key b0 \<and> sb_largest_key b' = sb_largest_key b0
    \<and> (s = OK \<or> \<not> ok s \<and> Eintr \<in> set (script w0))"
proof -
  obtain w1 where 1: "WriteRawBlock flt b0 w0 = (OK, \<lparr>bh_offset = sb_offset b0, bh_size = of_nat (length flt)\<rparr>,
      b0\<lparr>sb_offset := sb_offset b0 + of_nat (length (raw_block flt))\<rparr>, w1)"
      "writes_only i w0 w1" "inodes w1 i = inodes w0 i @ raw_block flt"
    using WriteRawBlock_full [OF fd nf] by blast
  define b1 where "b1 = b0\<lparr>sb_offset := sb_offset b0 + of_nat (length (raw_block flt)), sb_status := OK\<rparr>"
  define b1' where "b1' = b1\<lparr>sb_index_block := BlockBuilder_Finish (sb_index_block b1)\<rparr>"
  have nf1: "Fail \<notin> set (script w1)" using writes_only_frame [OF 1(2)] nf by auto
  have "sb_fd b1' = Some i" using fd by (simp add: b1'_def b1_def)
  from WriteRawBlock_full [OF this nf1, of idx] obtain w2 where
    2: "WriteRawBlock idx b1' w1 = (OK, \<lparr>bh_offset = sb_offset b1', bh_size = of_nat (length idx)\<rparr>,
      b1'\<lparr>sb_offset := sb_offset b1' + of_nat (length (raw_block idx))\<rparr>, w2)"
      "writes_only i w1 w2" "inodes w2 i = inodes w1 i @ raw_block idx"
    by blast
  have nf2: "Fail \<notin> set (script w2)" using writes_only_frame [OF 2(2)] nf1 by auto
  let ?ft = "table_footer \<lparr>bh_offset = sb_offset b0, bh_size = of_nat (length flt)\<rparr>
      \<lparr>bh_offset = sb_offset b1', bh_size = of_nat (length idx)\<rparr>"
  obtain w3 where 3: "write_all i ?ft w2 = (True, length ?ft, w3)" "writes_only i w2 w3" "inodes w3 i = inodes w2 i @ ?ft"
    using write_all_full [OF nf2] by blast
  obtain s4 w4 where 4: "FsyncFile (Some i) w3 = (s4, w4)" by fastforce
  note e4 = FsyncFile_effect [OF 4]
  have b1i: "sb_index_block b1 = sb_index_block b0" by (simp add: b1_def)
  have res: "s = s4" "w' = w4" "b' = b1'\<lparr>sb_offset := sb_offset b1' + of_nat (length (raw_block idx)) + of_nat (length ?ft),
      sb_status := s4, sb_closed := True\<rparr>"
    using fin ok fd flush 1(1) 2(1) 3(1) 4 idx [folded b1i]
    by (simp_all add: SSTableBuilder_Finish_def flt Let_def b1_def [symmetric] b1'_def [symmetric])
      (auto simp: b1_def b1'_def)
  have wo: "writes_only i w0 w3"
    using 1(2) 2(2) 3(2) writes_only_trans by blast
  have "s4 = OK \<or> \<not> ok s4 \<and> Eintr \<in> set (script w3)"
    using 4 writes_only_frame [OF 3(2)] nf2
    by (cases "script w3") (auto simp: FsyncFile_def sys_fdatasync_def next_outcome_def failed_def split: if_splits)
  then have "s = OK \<or> \<not> ok s \<and> Eintr \<in> set (script w0)"
    using writes_only_frame [OF wo] res(1) by auto
  moreover have "writes_only i w0 w'" "inodes w' i = inodes w3 i"
    using writes_only_script [OF wo] e4 res(2) by simp_all
  ultimately show ?thesis
    using res(3) 1(3) 2(3) 3(3) by (simp add: b1'_def b1_def add.assoc)
qed

lemma Finish_effect:
  assumes r: "sb_rep b w i chunks cur" and nf: "Fail \<notin> set (script w)"
    and fin: "SSTableBuilder_Finish b w = (s, b', w')"
  defines "all \<equiv> if cur = [] then chunks else chunks @ [cur]"
    and "bits \<equiv> bloom_bits_per_key (sb_options b)"
  shows "writes_only i w w' \<and> inodes w' i = table_bytes bits all \<and> sb_offset b' = of_nat (length (table_bytes bits all))
    \<and> concat all = concat chunks @ cur \<and> (\<forall>c \<in> set all. c \<noteq> [])
    \<and> (concat all \<noteq> [] \<longrightarrow> sb_smallest_key b' = e_key (hd (concat all)) \<and> sb_largest_key b' = e_key (last (concat all)))
    \<and> (s = OK \<or> \<not> ok s \<and> Eintr \<in> set (script w))"
proof -
  obtain b0 w0 where fl: "FlushBlock b w = (b0, w0)" by fastforce
  from FlushBlock_effect [OF r fl] nf have wo: "writes_only i w w0" and opt: "sb_options b0 = sb_options b"
    and r0: "sb_rep b0 w0 i all []" by (auto simp: all_def)
  have nf0: "Fail \<notin> set (script w0)" using writes_only_frame [OF wo] nf by auto
  have fd: "sb_fd b0 = Some i" and ok: "ok (sb_status b)" using r r0 by (simp_all add: sb_rep_def)
  have idx: "bb_buffer (BlockBuilder_Finish (sb_index_block b0)) = table_index all"
    using r0 by (simp add: sb_rep_def table_index_def build_block_def)
  have flt: "CreateFilter (sb_keys_for_filter b0) (bloom_bits_per_key (sb_options b0)) [] = table_filter bits all"
    using r0 opt by (simp add: sb_rep_def table_filter_def bits_def)
  note t = Finish_tail [OF fd nf0 fl ok idx flt fin]
  have "inodes w' i = table_bytes bits all" "sb_offset b' = of_nat (length (table_bytes bits all))"
    using t r0 by (simp_all add: sb_rep_def table_bytes_def filter_handle_def index_handle_def)
  moreover have "concat all = concat chunks @ cur" by (simp add: all_def)
  moreover have "Eintr \<in> set (script w)" if "Eintr \<in> set (script w0)" using that writes_only_frame [OF wo] by auto
  moreover have "concat all \<noteq> [] \<longrightarrow> sb_smallest_key b0 = e_key (hd (concat all)) \<and> sb_largest_key b0 = e_key (last (concat all))"
    "\<forall>c \<in> set all. c \<noteq> []"
    using r0 unfolding sb_rep_def append_Nil2 by blast+
  moreover have "writes_only i w w'" using t writes_only_trans [OF wo] by blast
  ultimately show ?thesis using t unfolding append_Nil2 by metis
qed

section \<open>Building a table in one go\<close>

definition build_table :: "Options \<Rightarrow> string \<Rightarrow> MemtableEntry list \<Rightarrow> World \<Rightarrow> Status \<times> SSTableBuilder \<times> World" where
  "build_table options filename es w =
     (let (b, w1) = SSTableBuilder_new options filename w;
          (b1, w2) = add_entries es b w1
      in SSTableBuilder_Finish b1 w2)"

lemma sb_rep_new:
  assumes "sys_open_creat True filename w = (Some i, w1)" and "SSTableBuilder_new options filename w = (b, w')"
  shows "sb_rep b w' i [] [] \<and> w' = w1 \<and> sb_options b = options"
proof -
  have "inodes w1 i = []"
    using assms(1) by (auto simp: sys_open_creat_def next_outcome_eq split: if_splits option.splits)
  then show ?thesis
    using assms by (auto simp: SSTableBuilder_new_def sb_rep_def index_entries_def)
qed

lemma open_creat_script:
  "sys_open_creat t path w = (fd, w') \<Longrightarrow> script w' = tl (script w)"
  by (auto simp: sys_open_creat_def next_outcome_eq split: if_splits option.splits)

lemma build_table_effect:
  assumes nf: "Fail \<notin> set (script w)" and len: "length es < 2 ^ 64"
    and build: "build_table options filename es w = (s, b, w')"
    and opened: "sys_open_creat True filename w = (Some i, w1)"
  defines "bits \<equiv> bloom_bits_per_key options"
  shows "\<exists>chunks. concat chunks = es \<and> (\<forall>c \<in> set chunks. c \<noteq> []) \<and> writes_only i w1 w'
    \<and> inodes w' i = table_bytes bits chunks \<and> sb_offset b = of_nat (length (table_bytes bits chunks))
    \<and> (es \<noteq> [] \<longrightarrow> sb_smallest_key b = e_key (hd es) \<and> sb_largest_key b = e_key (last es))
    \<and> (s = OK \<or> \<not> ok s \<and> Eintr \<in> set (script w))"
proof -
  obtain b0 w0 where n: "SSTableBuilder_new options filename w = (b0, w0)" by fastforce
  have r0: "sb_rep b0 w1 i [] []" "w0 = w1" "sb_options b0 = options"
    using sb_rep_new [OF opened n] by auto
  obtain b1 w2 where a: "add_entries es b0 w1 = (b1, w2)" by fastforce
  have sub: "set (script w1) \<subseteq> set (script w)"
    using open_creat_script [OF opened] by (cases "script w") auto
  then have nf1: "Fail \<notin> set (script w1)" using nf by blast
  have fin: "SSTableBuilder_Finish b1 w2 = (s, b, w')"
    using build n a r0(2) by (simp add: build_table_def)
  have A: "writes_only i w1 w2" "sb_options b1 = options"
      "\<exists>chunks cur. sb_rep b1 w2 i chunks cur \<and> concat chunks @ cur = es"
    using add_entries_effect [OF r0(1) a] len nf1 r0(3) by simp_all
  then obtain chunks cur where c: "sb_rep b1 w2 i chunks cur" "concat chunks @ cur = es" by blast
  have sub2: "set (script w2) \<subseteq> set (script w1)" using writes_only_frame [OF A(1)] by blast
  with nf1 have nf2: "Fail \<notin> set (script w2)" by blast
  define all where "all = (if cur = [] then chunks else chunks @ [cur])"
  note f = Finish_effect [OF c(1) nf2 fin, folded all_def, unfolded A(2) c(2), folded bits_def]
  then have "concat all = es" by blast
  moreover have "Eintr \<in> set (script w)" if "Eintr \<in> set (script w2)" using that sub sub2 by blast
  moreover have "writes_only i w1 w'" using f writes_only_trans [OF A(1)] by blast
  ultimately show ?thesis using f by (intro exI [of _ all]) blast
qed

section \<open>Properties\<close>

text \<open>C19: A table builder that hits no write error produces a well-formed table of exactly the
  entries it was given: the file is the data blocks of a division of the entries into
  non-empty chunks, the filter of all keys, the index and the footer, the reported file size and
  key range are those of that file, and the only error it can report is an interrupted sync.\<close>

theorem sstable_build_correct:
  assumes "Fail \<notin> set (script w)" and "wf_world w" and "length es < 2 ^ 64"
    and "sys_open_creat True filename w = (Some i, w1)"
    and "build_table options filename es w = (s, b, w')"
  shows "\<exists>chunks. concat chunks = es \<and> (\<forall>c \<in> set chunks. c \<noteq> [])
    \<and> content w' filename = Some (table_bytes (bloom_bits_per_key options) chunks)
    \<and> sb_offset b = of_nat (length (table_bytes (bloom_bits_per_key options) chunks))
    \<and> (es \<noteq> [] \<longrightarrow> sb_smallest_key b = e_key (hd es) \<and> sb_largest_key b = e_key (last es))
    \<and> (s = OK \<or> \<not> ok s \<and> Eintr \<in> set (script w))"
proof -
  obtain chunks where c: "concat chunks = es" "\<forall>c \<in> set chunks. c \<noteq> []" "writes_only i w1 w'"
    "inodes w' i = table_bytes (bloom_bits_per_key options) chunks"
    "sb_offset b = of_nat (length (table_bytes (bloom_bits_per_key options) chunks))"
    "es \<noteq> [] \<longrightarrow> sb_smallest_key b = e_key (hd es) \<and> sb_largest_key b = e_key (last es)"
    "s = OK \<or> \<not> ok s \<and> Eintr \<in> set (script w)"
    using build_table_effect [OF assms(1,3,5,4)] by blast
  have "dir w1 filename = Some i" using sys_open_creat_effect(4) [OF assms(2,4)] by simp
  then have "content w' filename = Some (table_bytes (bloom_bits_per_key options) chunks)"
    using c(3,4) writes_only_frame [OF c(3)] by (simp add: content_def)
  with c show ?thesis by blast
qed

theorem sstable_build_correct_witness:
  "\<exists>s b w'. build_table default_options ''d/000005.sst'' sample_entries (world0\<lparr>script := [Full, Short 2, Eintr]\<rparr>) = (s, b, w')
     \<and> (\<exists>chunks. concat chunks = sample_entries \<and> content w' ''d/000005.sst'' = Some (table_bytes 10 chunks))"
proof -
  let ?w = "world0\<lparr>script := [Full, Short 2, Eintr]\<rparr>"
  obtain s b w' where b: "build_table default_options ''d/000005.sst'' sample_entries ?w = (s, b, w')"
    by (metis prod_cases3)
  obtain w1 where "sys_open_creat True ''d/000005.sst'' ?w = (Some (next_inode ?w), w1)"
    by (simp add: sys_open_creat_def next_outcome_eq outcome_of_def)
  from sstable_build_correct [OF _ _ _ this b] b show ?thesis
    by (auto simp: default_options_def)
qed

lemma write_all_fails:
  "script w = [Fail] \<Longrightarrow> c \<noteq> [] \<Longrightarrow> write_all i c w = (False, 0, w\<lparr>script := []\<rparr>)"
  by (subst write_all.simps) (simp add: sys_write_def next_outcome_eq outcome_of_def)

text \<open>C24: A failed write of the last data block is masked: \<^verbatim>\<open>Finish\<close> does not look at the status
  \<^verbatim>\<open>FlushBlock\<close> leaves and overwrites it, so when that one write fails and the later ones
  succeed it reports OK for a table that lacks the last block and its index entry.\<close>

theorem sstable_finish_masks_write_error:
  assumes "sb_rep b w i chunks cur" and "cur \<noteq> []" and "script w = [Fail]"
    and "SSTableBuilder_Finish b w = (s, b', w')"
  defines "flt \<equiv> table_filter (bloom_bits_per_key (sb_options b)) (chunks @ [cur])"
  shows "s = OK \<and> inodes w' i = data_blocks chunks @ raw_block flt @ raw_block (table_index chunks) @ table_footer
      \<lparr>bh_offset = of_nat (length (data_blocks chunks)), bh_size = of_nat (length flt)\<rparr>
      \<lparr>bh_offset = of_nat (length (data_blocks chunks @ raw_block flt)), bh_size = of_nat (length (table_index chunks))\<rparr>"
proof -
  let ?w0 = "w\<lparr>script := []\<rparr>" and ?bld = "BlockBuilder_Finish (sb_data_block b)"
  let ?e = "IOError ''Failed to write block: ''"
  let ?b0 = "b\<lparr>sb_data_block := ?bld, sb_status := ?e\<rparr>"
  have buf: "bb_buffer ?bld \<noteq> []" by (simp add: BlockBuilder_Finish_def PutFixed32_def EncodeFixed32_def)
  have ne: "\<not> BlockBuilder_Empty (sb_data_block b)"
    using assms(1,2) data_block_empty by (simp add: sb_rep_def)
  have fl: "FlushBlock b w = (?b0, ?w0)"
    using assms(1) ne write_all_fails [OF assms(3) buf, of i]
    by (simp add: FlushBlock_def WriteRawBlock_def sb_rep_def Let_def)
  have fd: "sb_fd ?b0 = Some i" and ok: "ok (sb_status b)" using assms(1) by (simp_all add: sb_rep_def)
  have idx: "bb_buffer (BlockBuilder_Finish (sb_index_block ?b0)) = table_index chunks"
    using assms(1) by (simp add: sb_rep_def table_index_def build_block_def)
  have flt: "CreateFilter (sb_keys_for_filter ?b0) (bloom_bits_per_key (sb_options ?b0)) [] = flt"
    using assms(1) by (simp add: sb_rep_def table_filter_def flt_def)
  show ?thesis
    using Finish_tail [OF fd _ fl ok idx flt assms(4)] assms(1) by (simp add: sb_rep_def)
qed

theorem sstable_finish_masks_write_error_witness:
  "\<exists>b w s b' w'. sb_rep b w 0 [] [hd sample_entries] \<and> script w = [Fail] \<and> SSTableBuilder_Finish b w = (s, b', w')
     \<and> s = OK \<and> take 9 (inodes w' 0) = CreateFilter [[97]] 10 []"
proof -
  obtain b w where n: "SSTableBuilder_new default_options ''t'' world0 = (b, w)" by fastforce
  have "sys_open_creat True ''t'' world0 = (Some 0, world0\<lparr>dir := [''t'' \<mapsto> 0], inodes := (inodes world0)(0 := []), next_inode := 1\<rparr>)"
    by (simp add: sys_open_creat_def next_outcome_eq world0_def)
  note r = sb_rep_new [OF this n]
  obtain b1 w1 where a: "add_entries [hd sample_entries] b w = (b1, w1)" by fastforce
  have w: "script w = []" using r by (simp add: world0_def)
  define b2 where "b2 = b\<lparr>sb_smallest_key := [97], sb_largest_key := [97], sb_keys_for_filter := [[97]],
    sb_last_key_in_block := [97], sb_data_block := block_add (hd sample_entries) (BlockBuilder_new 16), sb_num_entries := 1\<rparr>"
  have k: "e_key (hd sample_entries) = [97]" by (simp add: sample_entries_def)
  have r2: "sb_rep b2 (w\<lparr>script := [Fail]\<rparr>) 0 [] [hd sample_entries]"
    using r by (auto simp: sb_rep_def b2_def k)
  obtain s b' w' where f: "SSTableBuilder_Finish b2 (w\<lparr>script := [Fail]\<rparr>) = (s, b', w')" by (metis prod_cases3)
  have o: "sb_options b2 = default_options" using r by (simp add: b2_def)
  have "length (CreateFilter [[97]] 10 []) = 9" using unat_bloom_bytes [of 10 1] by simp
  then have "s = OK \<and> take 9 (inodes w' 0) = CreateFilter [[97]] 10 []"
    using sstable_finish_masks_write_error [OF r2 _ _ f] o
    by (simp add: table_filter_def k raw_block_def default_options_def)
  with r2 f show ?thesis by (intro exI conjI) auto
qed

end
