(* ===== verification/SSTable_Reader.thy ===== *)
theory SSTable_Reader
  imports SSTable_Builder Block_Cache
begin

text \<open>
  Reading a sorted table (src/sstable_reader.h, src/sstable_reader.cc): opening a file by its
  footer, reading a block with its checksum, and point lookups through filter, index and cache.
  The two-level iterator is in theory \<open>Table_Iterator\<close>.

  The result \<open>None\<close> of a lookup stands for behaviour the
  source does not define: a block iterator that reads outside its block or does not return
  (theory \<open>Block\<close>).  The lemmas show that on a table written by the builder it does not
  happen.
\<close>

record SSTableReader =
  sr_options :: Options
  sr_filename :: string
  sr_file_number :: u64
  sr_file_size :: u64
  sr_fd :: fd
  sr_index_block :: Block
  sr_filter_data :: bytes

definition SSTableReader_new :: "Options \<Rightarrow> string \<Rightarrow> u64 \<Rightarrow> u64 \<Rightarrow> fd \<Rightarrow> SSTableReader" where
  "SSTableReader_new options filename file_number file_size fd =
     \<lparr>sr_options = options, sr_filename = filename, sr_file_number = file_number,
      sr_file_size = file_size, sr_fd = fd, sr_index_block = Block_new [], sr_filter_data = []\<rparr>"

definition kMaxBlockSize :: u64 where "kMaxBlockSize = 64 * 1024 * 1024"
definition kMaxFilterSize :: u64 where "kMaxFilterSize = 64 * 1024 * 1024"

definition ReadBlock :: "BlockHandle \<Rightarrow> SSTableReader \<Rightarrow> World \<Rightarrow> (Status + Block) \<times> World" where
  "ReadBlock handle r w =
     (if bh_size handle > kMaxBlockSize \<or> bh_offset handle + bh_size handle + 4 > sr_file_size r
      then (Inl (Corruption ''Invalid block handle bounds in ''), w)
      else case sr_fd r of
        None \<Rightarrow> (Inl (IOError ''Failed to read block from file: ''), w)
      | Some i \<Rightarrow>
          (let n = unat (bh_size handle);
               (e, buf, w1) = read_upto i (unat (bh_offset handle)) (n + 4) w
           in if e \<noteq> RdAll then (Inl (IOError ''Failed to read block from file: ''), w1)
              else if Crc32 (take n buf) 0 \<noteq> DecodeFixed32 (drop n buf)
              then (Inl (Corruption ''Block checksum mismatch in ''), w1)
              else (Inr (Block_new (take n buf)), w1)))"

text \<open>The filter is read with a single call; when it is short or damaged the table has no filter.\<close>

definition read_filter :: "BlockHandle \<Rightarrow> nat \<Rightarrow> World \<Rightarrow> bytes \<times> World" where
  "read_filter handle i w =
     (let n = unat (bh_size handle);
          (res, w1) = sys_pread i (n + 4) (unat (bh_offset handle)) w
      in (case res of
            RdBytes buf \<Rightarrow> (if length buf = n + 4 \<and> Crc32 (take n buf) 0 = DecodeFixed32 (drop n buf)
                            then take n buf else [])
          | _ \<Rightarrow> [], w1))"

definition SSTableReader_Open ::
  "Options \<Rightarrow> string \<Rightarrow> u64 \<Rightarrow> u64 \<Rightarrow> World \<Rightarrow> (Status + SSTableReader) \<times> World" where
  "SSTableReader_Open options filename file_number file_size w =
     (if file_size < 48 then (Inl (Corruption ''File too short for SSTable: ''), w)
      else let (fd, w1) = sys_open_rdonly filename w
        in case fd of
             None \<Rightarrow> (Inl (IOError ''Failed to open SSTable: ''), w1)
           | Some i \<Rightarrow>
               (let (res, w2) = sys_pread i 48 (unat (file_size - 48)) w1
                in case res of
                     RdBytes footer \<Rightarrow>
                       (if length footer \<noteq> 48
                        then (Inl (IOError ''Failed to read SSTable footer: ''), w2)
                        else if DecodeFixed64 (drop 40 footer) \<noteq> kTableMagicNumber
                        then (Inl (Corruption ''Bad SSTable magic number: ''), w2)
                        else case BlockHandle_DecodeFrom (take 16 footer) of
                          Inl s \<Rightarrow> (Inl s, w2)
                        | Inr (fh, _) \<Rightarrow>
                            (case BlockHandle_DecodeFrom (sub 16 16 footer) of
                               Inl s \<Rightarrow> (Inl s, w2)
                             | Inr (ih, _) \<Rightarrow>
                                 (let r = SSTableReader_new options filename file_number file_size fd;
                                      (idx, w3) = ReadBlock ih r w2
                                  in case idx of
                                       Inl s \<Rightarrow> (Inl s, w3)
                                     | Inr idx_blk \<Rightarrow>
                                         (let r1 = r\<lparr>sr_index_block := idx_blk\<rparr>
                                          in if bh_size fh > 0
                                             then if bh_size fh > kMaxFilterSize
                                                     \<or> bh_offset fh + bh_size fh + 4 > file_size
                                                  then (Inl (Corruption ''Invalid filter handle bounds: ''), w3)
                                                  else let (flt, w4) = read_filter fh i w3
                                                    in (Inr (r1\<lparr>sr_filter_data := flt\<rparr>), w4)
                                             else (Inr r1, w3)))))
                   | _ \<Rightarrow> (Inl (IOError ''Failed to read SSTable footer: ''), w2)))"

section \<open>Point lookup\<close>

text \<open>What the operations on tables read and update: the block cache, if any, and the files.\<close>

type_synonym env = "BlockCache option \<times> World"

definition load_data_block ::
  "SSTableReader \<Rightarrow> BlockHandle \<Rightarrow> env \<Rightarrow> (Status + Block) \<times> env" where
  "load_data_block r handle env =
     (let (cache, w) = env;
          key = \<lparr>ck_file_number = sr_file_number r, ck_offset = bh_offset handle\<rparr>;
          (hit, cache1) = (case cache of None \<Rightarrow> (None, None)
             | Some c \<Rightarrow> (let (b, c1) = Cache_Lookup key c in (b, Some c1)))
      in case hit of
           Some b \<Rightarrow> (Inr b, cache1, w)
         | None \<Rightarrow>
             (let (res, w1) = ReadBlock handle r w
              in case res of
                   Inl s \<Rightarrow> (Inl s, cache1, w1)
                 | Inr b \<Rightarrow> (Inr b, map_option (Cache_Insert key b (length (blk_data b))) cache1, w1)))"

lemma BlockIter_Next_frame [simp]:
  "bi_restarts_offset (BlockIter_Next it) = bi_restarts_offset it"
  by (simp add: BlockIter_Next_def)

text \<open>What is left of a block in front of an iterator: a step forward makes it smaller.\<close>

definition block_left :: "BlockIter \<Rightarrow> nat" where
  "block_left it = bi_restarts_offset it - bi_next_offset it + (if BlockIter_Valid it then 1 else 0)"

lemma BlockIter_Next_measure:
  assumes "BlockIter_Valid it"
  shows "block_left (BlockIter_Next it) < block_left it"
proof (cases "BlockIter_Valid (BlockIter_Next it)")
  case True
  from ParseEntryAt_valid [OF this [unfolded BlockIter_Next_def]] True show ?thesis
    using assms by (simp add: block_left_def BlockIter_Next_def)
next
  case False
  have "bi_next_offset (BlockIter_Next it) = bi_next_offset it \<or> BlockIter_Valid (BlockIter_Next it)"
    by (auto simp: BlockIter_Next_def ParseEntryAt_def BlockIter_Valid_def Let_def)
  with False assms show ?thesis by (simp add: block_left_def)
qed

function get_scan :: "bytes \<Rightarrow> SequenceNumber \<Rightarrow> BlockIter \<Rightarrow> lookup_result" where
  "get_scan user_key seq it =
     (if BlockIter_Valid it \<and> bi_key it = user_key
      then if bi_seq it \<le> seq \<and> bi_type it = kTypeValue then Some (OK, Some (bi_value it))
           else if bi_seq it \<le> seq \<and> bi_type it = kTypeDeletion then Some (NotFound '''', None)
           else get_scan user_key seq (BlockIter_Next it)
      else None)"
  by pat_completeness auto
termination
  by (relation "measure (\<lambda>(_, _, it). block_left it)") (use BlockIter_Next_measure in auto)

declare get_scan.simps [simp del]

definition Table_Get ::
  "bytes \<Rightarrow> SequenceNumber \<Rightarrow> SSTableReader \<Rightarrow> env \<Rightarrow> (lookup_result \<times> env) option" where
  "Table_Get user_key seq r env =
     (if sr_filter_data r \<noteq> [] \<and> \<not> KeyMayMatch user_key (sr_filter_data r) then Some (None, env)
      else case BlockIter_Seek user_key (BlockIter_new (sr_index_block r)) of
        None \<Rightarrow> None
      | Some index_iter \<Rightarrow>
          (if \<not> BlockIter_Valid index_iter then Some (None, env)
           else case BlockHandle_DecodeFrom (bi_value index_iter) of
             Inl s \<Rightarrow> Some (Some (s, None), env)
           | Inr (handle, _) \<Rightarrow>
               (let (res, env1) = load_data_block r handle env
                in case res of
                     Inl s \<Rightarrow> Some (Some (s, None), env1)
                   | Inr data_block \<Rightarrow>
                       (case BlockIter_Seek user_key (BlockIter_new data_block) of
                          None \<Rightarrow> None
                        | Some data_iter \<Rightarrow> Some (get_scan user_key seq data_iter, env1)))))"

section \<open>Tables on disk\<close>

text \<open>
  \<open>tables\<close> says which table each file number stands for: the inode of its file and the
  chunks it was built from.  \<open>env_ok\<close> is what reading relies on and preserves: the files have
  those contents, reads do not fail, and the cache holds only blocks of those files.
\<close>

record table_file =
  tf_inode :: nat
  tf_bits :: int
  tf_chunks :: "MemtableEntry list list"

type_synonym tables = "u64 \<rightharpoonup> table_file"

abbreviation tf_bytes :: "table_file \<Rightarrow> bytes" where
  "tf_bytes t \<equiv> table_bytes (tf_bits t) (tf_chunks t)"

definition tf_entries :: "table_file \<Rightarrow> MemtableEntry list" where
  "tf_entries t = concat (tf_chunks t)"

text \<open>The size limits of the reader, and entries in key order.\<close>

definition table_fits :: "table_file \<Rightarrow> bool" where
  "table_fits t \<longleftrightarrow> length (tf_bytes t) < 2 ^ 64
     \<and> (\<forall>c \<in> set (tf_chunks t). c \<noteq> [] \<and> length (build_block 16 c) \<le> 64 * 1024 * 1024)
     \<and> length (table_index (tf_chunks t)) \<le> 64 * 1024 * 1024
     \<and> length (table_filter (tf_bits t) (tf_chunks t)) \<le> 64 * 1024 * 1024
     \<and> 0 \<le> tf_bits t \<and> length (tf_entries t) * nat (tf_bits t) < 2 ^ 64 - 7
     \<and> keys_sorted (tf_entries t)"

definition reader_rep :: "SSTableReader \<Rightarrow> u64 \<Rightarrow> table_file \<Rightarrow> bool" where
  "reader_rep r n t \<longleftrightarrow> sr_fd r = Some (tf_inode t) \<and> sr_file_number r = n
     \<and> sr_file_size r = of_nat (length (tf_bytes t)) \<and> sr_index_block r = Block_new (table_index (tf_chunks t))
     \<and> sr_filter_data r \<in> {[], table_filter (tf_bits t) (tf_chunks t)}"

definition cache_ok :: "tables \<Rightarrow> CacheKey \<Rightarrow> Block \<Rightarrow> bool" where
  "cache_ok tabs k b \<longleftrightarrow> (\<exists>t j. tabs (ck_file_number k) = Some t \<and> j < length (tf_chunks t)
     \<and> ck_offset k = bh_offset (chunk_handle (tf_chunks t) j) \<and> b = Block_new (build_block 16 (tf_chunks t ! j)))"

definition env_ok :: "tables \<Rightarrow> env \<Rightarrow> bool" where
  "env_ok tabs env \<longleftrightarrow> Fail \<notin> set (script (snd env))
     \<and> (\<forall>n t. tabs n = Some t \<longrightarrow> inodes (snd env) (tf_inode t) = tf_bytes t \<and> table_fits t)
     \<and> (\<forall>c. fst env = Some c \<longrightarrow> block_cache.coherent (cache_ok tabs) c)"

lemma data_blocks_split:
  "j < length chunks \<Longrightarrow> data_blocks chunks =
     data_blocks (take j chunks) @ raw_block (build_block 16 (chunks ! j)) @ data_blocks (drop (Suc j) chunks)"
  using arg_cong [OF id_take_nth_drop, of j chunks data_blocks] by simp

lemma length_data_blocks_less:
  assumes "i < j" and "j \<le> length chunks"
  shows "length (data_blocks (take i chunks)) < length (data_blocks (take j chunks))"
proof -
  have "take j chunks = take i chunks @ drop i (take j chunks)"
    using assms by (metis append_take_drop_id less_imp_le min.absorb1 take_take)
  moreover obtain x xs where "drop i (take j chunks) = x # xs"
    using assms by (cases "drop i (take j chunks)") auto
  ultimately have "data_blocks (take j chunks) = data_blocks (take i chunks) @ raw_block (build_block 16 x) @ data_blocks xs"
    by (metis data_blocks_simps(2,3))
  then show ?thesis by simp
qed

lemma chunk_offset_inj:
  assumes "table_fits t" and "i < length (tf_chunks t)" and "j < length (tf_chunks t)"
    and "bh_offset (chunk_handle (tf_chunks t) i) = bh_offset (chunk_handle (tf_chunks t) j)"
  shows "i = j"
proof -
  let ?l = "\<lambda>i. length (data_blocks (take i (tf_chunks t)))"
  have le: "?l i < 2 ^ 64" if "i < length (tf_chunks t)" for i
  proof -
    have "?l i < length (data_blocks (tf_chunks t))"
      using length_data_blocks_less [of i "length (tf_chunks t)" "tf_chunks t"] that by simp
    also have "\<dots> \<le> length (tf_bytes t)" by (simp add: table_bytes_def)
    finally show ?thesis using assms(1) by (simp add: table_fits_def)
  qed
  have "(of_nat (?l i) :: u64) = of_nat (?l j)"
    using assms(4) unfolding chunk_handle_def BlockHandle.simps .
  then have "unat (of_nat (?l i) :: u64) = unat (of_nat (?l j) :: u64)" by (rule arg_cong)
  then have "?l i = ?l j"
    unfolding unat_of_nat64 [OF le [OF assms(2)]] unat_of_nat64 [OF le [OF assms(3)]] .
  then show ?thesis
    using length_data_blocks_less [of i j "tf_chunks t"] length_data_blocks_less [of j i "tf_chunks t"] assms(2,3)
    by (cases i j rule: linorder_cases) simp_all
qed

lemma ReadBlock_ok:
  assumes fd: "sr_fd r = Some i" and F: "inodes w i = pre @ raw_block c @ post"
    and size: "sr_file_size r = of_nat (length (inodes w i))" "length (inodes w i) < 2 ^ 64"
    and c: "length c \<le> 64 * 1024 * 1024" and nf: "Fail \<notin> set (script w)"
  shows "\<exists>x. ReadBlock \<lparr>bh_offset = of_nat (length pre), bh_size = of_nat (length c)\<rparr> r w
      = (Inr (Block_new c), w\<lparr>script := x\<rparr>) \<and> Fail \<notin> set x"
proof -
  let ?o = "of_nat (length pre) :: u64" and ?n = "of_nat (length c) :: u64"
  have len: "length (inodes w i) = length pre + length c + 4 + length post" by (simp add: F)
  have o: "unat ?o = length pre" and n: "unat ?n = length c"
    using len size(2) c by (simp_all add: unat_of_nat64)
  have sum: "?o + ?n + 4 = of_nat (length pre + length c + 4)" by simp
  have le: "\<not> ?o + ?n + 4 > sr_file_size r"
  proof -
    have "unat (of_nat (length pre + length c + 4) :: u64) = length pre + length c + 4"
      by (rule unat_of_nat64) (use len size(2) in simp)
    moreover have "unat (sr_file_size r) = length (inodes w i)" using size unat_of_nat64 by simp
    ultimately show ?thesis unfolding sum word_less_nat_alt using len by linarith
  qed
  have small: "\<not> ?n > kMaxBlockSize" using c n by (simp add: kMaxBlockSize_def word_less_nat_alt)
  have sb: "sub (length pre) (length c + 4) (inodes w i) = raw_block c" by (simp add: F sub_def)
  obtain x where x: "read_upto i (length pre) (length c + 4) w = (RdAll, raw_block c, w\<lparr>script := x\<rparr>)" "Fail \<notin> set x"
    using read_upto_no_fail [OF nf, of i "length pre" "length c + 4"] len sb by auto
  show ?thesis
    using fd le small x by (intro exI [of _ x]) (simp add: ReadBlock_def o n raw_block_def)
qed

lemma read_chunk:
  assumes "env_ok tabs (cache, w)" and "tabs n = Some t" and "reader_rep r n t" and "j < length (tf_chunks t)"
  shows "\<exists>x. ReadBlock (chunk_handle (tf_chunks t) j) r w
      = (Inr (Block_new (build_block 16 (tf_chunks t ! j))), w\<lparr>script := x\<rparr>) \<and> Fail \<notin> set x"
proof -
  have fits: "table_fits t" and F: "inodes w (tf_inode t) = tf_bytes t" and nf: "Fail \<notin> set (script w)"
    using assms(1,2) by (auto simp: env_ok_def)
  have rr: "sr_fd r = Some (tf_inode t)" "sr_file_size r = of_nat (length (inodes w (tf_inode t)))"
    using assms(3) F by (auto simp: reader_rep_def)
  have "tf_chunks t ! j \<in> set (tf_chunks t)" using assms(4) by simp
  then have c: "length (build_block 16 (tf_chunks t ! j)) \<le> 64 * 1024 * 1024" using fits by (auto simp: table_fits_def)
  have len: "length (inodes w (tf_inode t)) < 2 ^ 64" using fits F by (simp add: table_fits_def)
  have "inodes w (tf_inode t) = data_blocks (take j (tf_chunks t)) @ raw_block (build_block 16 (tf_chunks t ! j))
      @ (data_blocks (drop (Suc j) (tf_chunks t)) @ drop (length (data_blocks (tf_chunks t))) (tf_bytes t))"
    using data_blocks_split [OF assms(4)] F by (simp add: table_bytes_def)
  from ReadBlock_ok [OF rr(1) this rr(2) len c nf] show ?thesis by (simp add: chunk_handle_def)
qed

lemma env_ok_script: "env_ok tabs (cache, w) \<Longrightarrow> Fail \<notin> set x \<Longrightarrow> env_ok tabs (cache, w\<lparr>script := x\<rparr>)"
  by (simp add: env_ok_def)

lemma load_data_block_ok:
  assumes e: "env_ok tabs env" and t: "tabs n = Some t" and r: "reader_rep r n t" and j: "j < length (tf_chunks t)"
  shows "\<exists>env'. load_data_block r (chunk_handle (tf_chunks t) j) env
      = (Inr (Block_new (build_block 16 (tf_chunks t ! j))), env') \<and> env_ok tabs env'"
proof -
  obtain cache w where env: "env = (cache, w)" by (cases env)
  let ?key = "\<lparr>ck_file_number = sr_file_number r, ck_offset = bh_offset (chunk_handle (tf_chunks t) j)\<rparr>"
  let ?b = "Block_new (build_block 16 (tf_chunks t ! j))"
  have fits: "table_fits t" using e t by (auto simp: env_ok_def)
  have num: "sr_file_number r = n" using r by (simp add: reader_rep_def)
  have good: "cache_ok tabs ?key b \<longleftrightarrow> b = ?b" for b
  proof
    assume "cache_ok tabs ?key b"
    then obtain k where "k < length (tf_chunks t)" "b = Block_new (build_block 16 (tf_chunks t ! k))"
        "bh_offset (chunk_handle (tf_chunks t) j) = bh_offset (chunk_handle (tf_chunks t) k)"
      using t num unfolding cache_ok_def by auto
    with chunk_offset_inj [OF fits j] show "b = ?b" by blast
  next
    assume "b = ?b"
    with t j num show "cache_ok tabs ?key b" unfolding cache_ok_def by auto
  qed
  define key where "key = ?key"
  define b where "b = ?b"
  define h where "h = chunk_handle (tf_chunks t) j"
  note good = good [folded key_def b_def h_def]
  obtain x where x: "ReadBlock h r w = (Inr b, w\<lparr>script := x\<rparr>)" "Fail \<notin> set x"
    using read_chunk [OF e [unfolded env] t r j, folded b_def h_def] by blast
  have k: "\<lparr>ck_file_number = sr_file_number r, ck_offset = bh_offset h\<rparr> = key" by (simp add: key_def h_def)
  have eq: "load_data_block r h env =
      (let (hit, cache1) = (case cache of None \<Rightarrow> (None, None)
             | Some c \<Rightarrow> (let (b, c1) = Cache_Lookup key c in (b, Some c1)))
       in case hit of
            Some b \<Rightarrow> (Inr b, cache1, w)
          | None \<Rightarrow> (Inr b, map_option (Cache_Insert key b (length (blk_data b))) cache1, w\<lparr>script := x\<rparr>))"
    by (simp add: load_data_block_def env x(1) k Let_def split: option.split prod.split)
  have "\<exists>env'. load_data_block r h env = (Inr b, env') \<and> env_ok tabs env'"
  proof (cases cache)
    case None
    then show ?thesis using env_ok_script [OF e [unfolded env] x(2)] by (simp add: eq)
  next
    case (Some c)
    obtain hit c1 where l: "Cache_Lookup key c = (hit, c1)" by fastforce
    have "block_cache.coherent (cache_ok tabs) c" using e env Some by (simp add: env_ok_def)
    note c1 = block_cache.coherent_lookup [OF this l]
    show ?thesis
    proof (cases hit)
      case None
      have "block_cache.coherent (cache_ok tabs) (Cache_Insert key b (length (blk_data b)) c1)"
        using block_cache.coherent_insert c1 good by blast
      then have "env_ok tabs (Some (Cache_Insert key b (length (blk_data b)) c1), w\<lparr>script := x\<rparr>)"
        using e env x(2) by (simp add: env_ok_def)
      then show ?thesis using None Some l by (simp add: eq)
    next
      case (Some d)
      have "env_ok tabs (Some c1, w)" using e env c1 by (simp add: env_ok_def)
      moreover have "d = b" using c1 Some good by blast
      ultimately show ?thesis using Some \<open>cache = Some c\<close> l by (simp add: eq)
    qed
  qed
  then show ?thesis by (simp only: h_def b_def)
qed

section \<open>Index and chunks\<close>

lemma chunk_in_table: "j < length chunks \<Longrightarrow> set (chunks ! j) \<subseteq> set (concat chunks)"
  using nth_mem by fastforce

lemma keys_sorted_append:
  "keys_sorted (xs @ ys) \<longleftrightarrow> keys_sorted xs \<and> keys_sorted ys \<and> (\<forall>x \<in> set xs. \<forall>y \<in> set ys. e_key x \<le> e_key y)"
  by (auto simp: keys_sorted_def sorted_append)

lemma keys_sorted_last: "keys_sorted c \<Longrightarrow> e \<in> set c \<Longrightarrow> e_key e \<le> e_key (last c)"
  by (cases c rule: rev_cases) (auto simp: keys_sorted_append)

lemma concat_split:
  "j < length chunks \<Longrightarrow> concat chunks = concat (take j chunks) @ chunks ! j @ concat (drop (Suc j) chunks)"
  using arg_cong [OF id_take_nth_drop, of j chunks concat] by simp

lemma table_fitsD:
  assumes "table_fits t"
  shows "keys_sorted (concat (tf_chunks t))" "\<And>j. j < length (tf_chunks t) \<Longrightarrow> tf_chunks t ! j \<noteq> []"
    "\<And>j. j < length (tf_chunks t) \<Longrightarrow> length (build_block 16 (tf_chunks t ! j)) < 2 ^ 32"
    "length (table_index (tf_chunks t)) < 2 ^ 32"
    "\<And>j. j < length (tf_chunks t) \<Longrightarrow> keys_sorted (tf_chunks t ! j)"
proof -
  show sorted: "keys_sorted (concat (tf_chunks t))" using assms by (simp add: table_fits_def tf_entries_def)
  show "length (table_index (tf_chunks t)) < 2 ^ 32" using assms by (simp add: table_fits_def)
  fix j assume j: "j < length (tf_chunks t)"
  then have "tf_chunks t ! j \<in> set (tf_chunks t)" by simp
  then have "tf_chunks t ! j \<noteq> [] \<and> length (build_block 16 (tf_chunks t ! j)) \<le> 64 * 1024 * 1024"
    using assms unfolding table_fits_def by blast
  then show "tf_chunks t ! j \<noteq> []" "length (build_block 16 (tf_chunks t ! j)) < 2 ^ 32" by simp_all
  show "keys_sorted (tf_chunks t ! j)" using sorted concat_split [OF j] by (simp add: keys_sorted_append)
qed

lemma keys_sorted_index:
  assumes "table_fits t"
  shows "keys_sorted (index_entries (tf_chunks t))"
proof -
  let ?c = "tf_chunks t"
  have le: "e_key (last (?c ! i)) \<le> e_key (last (?c ! j))" if ij: "i < j" "j < length ?c" for i j
  proof -
    have i: "i < length ?c" using ij by simp
    have "last (?c ! i) \<in> set (?c ! i)" using table_fitsD(2) [OF assms i] by simp
    moreover have "?c ! j \<in> set (drop (Suc i) ?c)"
      using ij by (auto simp: in_set_conv_nth intro!: exI [of _ "j - Suc i"])
    then have "last (?c ! j) \<in> set (concat (drop (Suc i) ?c))"
      using table_fitsD(2) [OF assms ij(2)] last_in_set unfolding set_concat by blast
    ultimately show ?thesis
      using table_fitsD(1) [OF assms] unfolding concat_split [OF i] keys_sorted_append by blast
  qed
  show ?thesis
    unfolding keys_sorted_def sorted_iff_nth_mono_less
    using le by (auto simp: index_entry_def)
qed

lemma index_iter_at:
  assumes "table_fits t" and "reader_rep r n t"
  shows "iter_at (BlockIter_new (sr_index_block r)) (index_entries (tf_chunks t)) (length (tf_chunks t))"
proof -
  obtain ps where "block_rep (Block_new (table_index (tf_chunks t))) (index_entries (tf_chunks t)) ps"
    using block_rep_build [of 1 "index_entries (tf_chunks t)"] table_fitsD(4) [OF assms(1)]
    unfolding table_index_def by auto
  from iter_at_new [OF this] show ?thesis using assms(2) by (simp add: reader_rep_def)
qed

lemma chunk_iter_at:
  assumes "table_fits t" and "j < length (tf_chunks t)"
  shows "iter_at (BlockIter_new (Block_new (build_block 16 (tf_chunks t ! j)))) (tf_chunks t ! j) (length (tf_chunks t ! j))"
proof -
  obtain ps where "block_rep (Block_new (build_block 16 (tf_chunks t ! j))) (tf_chunks t ! j) ps"
    using block_rep_build [OF _ table_fitsD(3) [OF assms]] by auto
  then show ?thesis by (rule iter_at_new)
qed

text \<open>The chunk a seek of the index selects: the first whose last key is not smaller.\<close>

definition chunk_of :: "bytes \<Rightarrow> table_file \<Rightarrow> nat" where
  "chunk_of key t = seek_pos key (index_entries (tf_chunks t))"

lemma chunk_of_le: "chunk_of key t \<le> length (tf_chunks t)"
  using seek_pos_le [of key "index_entries (tf_chunks t)"] by (simp add: chunk_of_def)

lemma before_chunk_of:
  assumes "table_fits t" and "e \<in> set (concat (take (chunk_of key t) (tf_chunks t)))"
  shows "e_key e < key"
proof -
  obtain c where c: "c \<in> set (take (chunk_of key t) (tf_chunks t))" "e \<in> set c" using assms(2) by auto
  then obtain i where i: "i < chunk_of key t" "i < length (tf_chunks t)" "e \<in> set (tf_chunks t ! i)"
    unfolding in_set_conv_nth [of c] by auto
  have "e_key (last (tf_chunks t ! i)) < key"
    using before_seek_pos [of i key "index_entries (tf_chunks t)"] i by (simp add: chunk_of_def index_entry_def)
  then show ?thesis
    using keys_sorted_last [OF table_fitsD(5) [OF assms(1) i(2)] i(3)] by simp
qed

lemma last_chunk_of:
  "chunk_of key t < length (tf_chunks t) \<Longrightarrow> key \<le> e_key (last (tf_chunks t ! chunk_of key t))"
  using at_seek_pos [of key "index_entries (tf_chunks t)"] by (simp add: chunk_of_def index_entry_def)

section \<open>What a lookup finds\<close>

lemma get_scan_at:
  assumes "iter_at it es i" and "keys_sorted es" and "\<And>j. i \<le> j \<Longrightarrow> j < length es \<Longrightarrow> key \<le> e_key (es ! j)"
  shows "get_scan key seq it = found_result (find (readable key seq) (drop i es))"
  using assms
proof (induction "length es - i" arbitrary: i it)
  case 0
  then have "\<not> i < length es" by simp
  with iter_valid [OF 0(2)] show ?case by (subst get_scan.simps) simp
next
  case (Suc n)
  then have i: "i < length es" by simp
  note valid = iter_valid [OF Suc.prems(1)] and e = iter_entry [OF Suc.prems(1) i]
  have d: "drop i es = es ! i # drop (Suc i) es" using i by (simp add: Cons_nth_drop_Suc)
  have f: "bi_key it = e_key (es ! i)" "bi_seq it = e_seq (es ! i)" "bi_type it = e_type (es ! i)"
      "bi_value it = e_value (es ! i)"
    using arg_cong [OF e, of e_key] arg_cong [OF e, of e_seq] arg_cong [OF e, of e_type] arg_cong [OF e, of e_value]
    by (simp_all add: BlockIter_Entry_def)
  show ?case
  proof (cases "e_key (es ! i) = key")
    case False
    then have less: "key < e_key (es ! i)" using Suc.prems(3) [of i] i by simp
    have "find (readable key seq) (drop i es) = None"
    proof (rule find_none)
      fix e assume "e \<in> set (drop i es)"
      then obtain j where "i \<le> j" "j < length es" "e = es ! j"
        by (metis in_set_conv_nth length_drop less_diff_conv nth_drop add.commute le_add1 less_or_eq_imp_le i)
      then show "\<not> readable key seq e"
        using keys_sorted_nth [OF Suc.prems(2), of i j] less by (auto simp: readable_def)
    qed
    then show ?thesis using False f by (subst get_scan.simps) simp
  next
    case True
    have "get_scan key seq (BlockIter_Next it) = found_result (find (readable key seq) (drop (Suc i) es))"
      by (rule Suc.hyps(1)) (use Suc.hyps(2) Suc.prems i iter_next [OF Suc.prems(1) i] in auto)
    then show ?thesis
      unfolding d using True f valid i
      by (subst get_scan.simps) (auto simp: readable_def found_result_def kTypeValue_def kTypeDeletion_def)
  qed
qed

lemma find_from_seek_pos: "find (readable key seq) (drop (seek_pos key es) es) = find (readable key seq) es"
proof -
  have "find (readable key seq) (take (seek_pos key es) es) = None"
  proof (rule find_none)
    fix e assume "e \<in> set (take (seek_pos key es) es)"
    then obtain i where "i < seek_pos key es" "e = es ! i" by (auto simp: in_set_conv_nth)
    then show "\<not> readable key seq e" using before_seek_pos [of i key es] by (auto simp: readable_def)
  qed
  then show ?thesis
    using find_append [of "readable key seq" "take (seek_pos key es) es" "drop (seek_pos key es) es"] by simp
qed

lemma seek_get_scan:
  assumes "iter_at it es i" and "keys_sorted es"
  shows "\<exists>it'. BlockIter_Seek key it = Some it' \<and> get_scan key seq it' = found_result (find (readable key seq) es)"
proof -
  obtain it' where it': "BlockIter_Seek key it = Some it'" "iter_at it' es (seek_pos key es)"
    using iter_seek [OF assms] by blast
  have "key \<le> e_key (es ! j)" if "seek_pos key es \<le> j" "j < length es" for j
    using at_seek_pos [of key es] keys_sorted_nth [OF assms(2) that] that by (meson order_trans le_less_trans)
  from get_scan_at [OF it'(2) assms(2) this] it'(1) show ?thesis by (simp add: find_from_seek_pos)
qed

lemma filter_reject:
  assumes "table_fits t" and "reader_rep r n t" and "sr_filter_data r \<noteq> []" and "\<not> KeyMayMatch key (sr_filter_data r)"
    and "e \<in> set (tf_entries t)"
  shows "e_key e \<noteq> key"
proof
  assume "e_key e = key"
  then have "key \<in> set (map e_key (concat (tf_chunks t)))" using assms(5) by (auto simp: tf_entries_def)
  moreover have "0 \<le> tf_bits t" "length (map e_key (concat (tf_chunks t))) * nat (tf_bits t) < 2 ^ 64 - 7"
    using assms(1) by (simp_all add: table_fits_def tf_entries_def)
  ultimately have "KeyMayMatch key (table_filter (tf_bits t) (tf_chunks t))"
    unfolding table_filter_def by (intro CreateFilter_no_false_negative)
  with assms(2-4) show False by (auto simp: reader_rep_def)
qed

lemma Table_Get_chunk:
  assumes e: "env_ok tabs env" and t: "tabs n = Some t" and r: "reader_rep r n t"
  shows "\<exists>env'. Table_Get key seq r env = Some (found_result (if chunk_of key t < length (tf_chunks t)
      then find (readable key seq) (tf_chunks t ! chunk_of key t) else None), env') \<and> env_ok tabs env'"
proof -
  have fits: "table_fits t" using e t by (auto simp: env_ok_def)
  define j where "j = chunk_of key t"
  show ?thesis
  proof (cases "sr_filter_data r \<noteq> [] \<and> \<not> KeyMayMatch key (sr_filter_data r)")
    case True
    then have "find (readable key seq) (tf_chunks t ! j) = None" if "j < length (tf_chunks t)"
      using filter_reject [OF fits r, of key] chunk_in_table [OF that] unfolding readable_def tf_entries_def
      by (intro find_none) blast
    then show ?thesis using True e by (simp add: Table_Get_def j_def)
  next
    case False
    obtain ii where ii: "BlockIter_Seek key (BlockIter_new (sr_index_block r)) = Some ii"
        "iter_at ii (index_entries (tf_chunks t)) j"
      using iter_seek [OF index_iter_at [OF fits r] keys_sorted_index [OF fits]] by (auto simp: chunk_of_def j_def)
    note get = Table_Get_def [of key seq r env, unfolded ii(1) if_not_P [OF False]]
    show ?thesis
    proof (cases "j < length (tf_chunks t)")
      case j: True
      have "BlockIter_Entry ii = index_entry (tf_chunks t) j" using iter_entry [OF ii(2)] j by simp
      from arg_cong [OF this, of e_value]
      have h: "BlockHandle_DecodeFrom (bi_value ii) = Inr (chunk_handle (tf_chunks t) j, [])"
        by (simp add: BlockIter_Entry_def index_entry_def)
      obtain env' where l: "load_data_block r (chunk_handle (tf_chunks t) j) env
          = (Inr (Block_new (build_block 16 (tf_chunks t ! j))), env')" "env_ok tabs env'"
        using load_data_block_ok [OF e t r j] by blast
      obtain it' where s: "BlockIter_Seek key (BlockIter_new (Block_new (build_block 16 (tf_chunks t ! j)))) = Some it'"
          "get_scan key seq it' = found_result (find (readable key seq) (tf_chunks t ! j))"
        using seek_get_scan [OF chunk_iter_at [OF fits j] table_fitsD(5) [OF fits j]] by blast
      have v: "BlockIter_Valid ii" using iter_valid [OF ii(2)] j by simp
      have "Table_Get key seq r env = Some (found_result (find (readable key seq) (tf_chunks t ! j)), env')"
        unfolding get using v h l(1) s by simp
      with l(2) j show ?thesis unfolding j_def by auto
    next
      case nj: False
      then have "\<not> BlockIter_Valid ii" using iter_valid [OF ii(2)] by simp
      then have "Table_Get key seq r env = Some (None, env)" unfolding get by simp
      with e nj show ?thesis unfolding j_def by simp
    qed
  qed
qed

text \<open>When every version of the key is visible, the selected chunk has the first one.\<close>

lemma find_in_chunk:
  assumes fits: "table_fits t" and vis: "\<And>e. e \<in> set (tf_entries t) \<Longrightarrow> e_key e = key \<Longrightarrow> readable key seq e"
  shows "(if chunk_of key t < length (tf_chunks t) then find (readable key seq) (tf_chunks t ! chunk_of key t) else None)
    = find (readable key seq) (tf_entries t)"
proof -
  define j where "j = chunk_of key t"
  let ?P = "readable key seq"
  have before: "find ?P (concat (take j (tf_chunks t))) = None"
    using before_chunk_of [OF fits, of _ key] unfolding j_def by (intro find_none) (force simp: readable_def)
  show ?thesis
  proof (cases "j < length (tf_chunks t)")
    case j: True
    note split = concat_split [OF j]
    have after: "find ?P (concat (drop (Suc j) (tf_chunks t))) = None" if none: "find ?P (tf_chunks t ! j) = None"
    proof (rule find_none)
      fix e assume e: "e \<in> set (concat (drop (Suc j) (tf_chunks t)))"
      let ?l = "last (tf_chunks t ! j)"
      have l: "?l \<in> set (tf_chunks t ! j)" using table_fitsD(2) [OF fits j] by simp
      then have "?l \<in> set (tf_entries t)" using chunk_in_table [OF j] unfolding tf_entries_def by blast
      then have "e_key ?l \<noteq> key" using vis none l by (auto simp: find_None_iff)
      then have "key < e_key ?l" using last_chunk_of [of key t] j by (simp add: j_def)
      also have "e_key ?l \<le> e_key e"
        using table_fitsD(1) [OF fits] e l unfolding split keys_sorted_append by auto
      finally show "\<not> ?P e" by (auto simp: readable_def)
    qed
    have "find ?P (tf_entries t) = (case find ?P (tf_chunks t ! j) of None \<Rightarrow> find ?P (concat (drop (Suc j) (tf_chunks t)))
        | Some x \<Rightarrow> Some x)"
      unfolding tf_entries_def by (subst split) (simp add: find_append before)
    then show ?thesis using j after unfolding j_def by (simp split: option.splits)
  next
    case False
    then have "take j (tf_chunks t) = tf_chunks t" by simp
    then show ?thesis using False before unfolding j_def by (simp add: tf_entries_def)
  qed
qed

section \<open>Opening a table\<close>

lemma table_footer_fields:
  "length (table_footer fh ih) = 48" "DecodeFixed64 (drop 40 (table_footer fh ih)) = kTableMagicNumber"
  "BlockHandle_DecodeFrom (take 16 (table_footer fh ih)) = Inr (fh, [])"
  "BlockHandle_DecodeFrom (sub 16 16 (table_footer fh ih)) = Inr (ih, [])"
  by (simp_all add: table_footer_def sub_def)

lemma pread_full:
  assumes "sys_pread i n pos w = (RdBytes bs, w')" and "length bs = n"
  shows "bs = sub pos n (inodes w i)"
proof -
  obtain m where "bs = sub pos m (inodes w i)" "m \<le> n" using sys_pread_eq(2) [OF assms(1) refl] by blast
  with assms(2) show ?thesis by (cases "m = n") auto
qed

lemma read_filter_result:
  assumes F: "inodes w i = pre @ raw_block c @ post" and "length (inodes w i) < 2 ^ 64"
    and "read_filter \<lparr>bh_offset = of_nat (length pre), bh_size = of_nat (length c)\<rparr> i w = (flt, w')"
  shows "flt \<in> {[], c} \<and> w' = w\<lparr>script := tl (script w)\<rparr>"
proof -
  have o: "unat (of_nat (length pre) :: u64) = length pre" and n: "unat (of_nat (length c) :: u64) = length c"
    using assms(1,2) by (auto intro!: unat_of_nat64)
  obtain res w1 where p: "sys_pread i (length c + 4) (length pre) w = (res, w1)" by fastforce
  have eq: "read_filter \<lparr>bh_offset = of_nat (length pre), bh_size = of_nat (length c)\<rparr> i w
      = (case res of RdBytes buf \<Rightarrow> (if length buf = length c + 4
            \<and> Crc32 (take (length c) buf) 0 = DecodeFixed32 (drop (length c) buf) then take (length c) buf else [])
          | _ \<Rightarrow> [], w1)"
    unfolding read_filter_def BlockHandle.simps o n p Let_def prod.case ..
  have "take (length c) buf = c" if "res = RdBytes buf" "length buf = length c + 4" for buf
    using pread_full [OF p [unfolded that(1)] that(2)] by (simp add: F sub_def raw_block_def)
  then show ?thesis using assms(3) sys_pread_eq(1) [OF p] unfolding eq by (cases res) (auto split: if_splits)
qed

lemma script_tl: "Fail \<notin> set (script w) \<Longrightarrow> Fail \<notin> set (tl (script w))"
  using in_set_tlD by fastforce

lemma table_bytes_index:
  "table_bytes bits chunks = (data_blocks chunks @ raw_block (table_filter bits chunks)) @ raw_block (table_index chunks)
     @ table_footer (filter_handle bits chunks) (index_handle bits chunks)"
  by (simp add: table_bytes_def)

lemma filter_handle_fits:
  assumes "table_fits t"
  shows "\<not> bh_size (filter_handle (tf_bits t) (tf_chunks t)) > kMaxFilterSize"
    and "\<not> bh_offset (filter_handle (tf_bits t) (tf_chunks t)) + bh_size (filter_handle (tf_bits t) (tf_chunks t)) + 4
      > of_nat (length (tf_bytes t))"
proof -
  let ?d = "length (data_blocks (tf_chunks t))" and ?f = "length (table_filter (tf_bits t) (tf_chunks t))"
  have f: "?f \<le> 64 * 1024 * 1024" and len: "length (tf_bytes t) < 2 ^ 64" using assms by (simp_all add: table_fits_def)
  have "unat (of_nat ?f :: u64) = ?f" by (rule unat_of_nat64) (use f in simp)
  with f show "\<not> bh_size (filter_handle (tf_bits t) (tf_chunks t)) > kMaxFilterSize"
    by (simp add: filter_handle_def kMaxFilterSize_def word_less_nat_alt)
  have le: "?d + ?f + 4 \<le> length (tf_bytes t)" by (simp add: table_bytes_def)
  have "unat (of_nat (?d + ?f + 4) :: u64) = ?d + ?f + 4" by (rule unat_of_nat64) (use le len in simp)
  moreover have "unat (of_nat (length (tf_bytes t)) :: u64) = length (tf_bytes t)" using len by (rule unat_of_nat64)
  moreover have "(of_nat ?d + of_nat ?f + 4 :: u64) = of_nat (?d + ?f + 4)" by simp
  ultimately show "\<not> bh_offset (filter_handle (tf_bits t) (tf_chunks t)) + bh_size (filter_handle (tf_bits t) (tf_chunks t)) + 4
      > of_nat (length (tf_bytes t))"
    unfolding filter_handle_def BlockHandle.simps word_less_nat_alt using le by (metis leD)
qed

lemma footer_read:
  assumes F: "inodes w i = tf_bytes t" and p: "sys_pread i 48 (length (tf_bytes t) - 48) w = (rd, w')"
  defines "footer \<equiv> table_footer (filter_handle (tf_bits t) (tf_chunks t)) (index_handle (tf_bits t) (tf_chunks t))"
  shows "rd = RdBytes footer \<or> script w \<noteq> [] \<and> (\<forall>f. rd = RdBytes f \<longrightarrow> length f \<noteq> 48)"
proof -
  have foot: "sub (length (tf_bytes t) - 48) 48 (inodes w i) = footer"
    unfolding F by (simp add: table_bytes_def sub_def footer_def table_footer_fields)
  show ?thesis
  proof (cases "rd = RdBytes footer")
    case False
    have "length f \<noteq> 48" if "rd = RdBytes f" for f using pread_full [OF p [unfolded that]] that False foot by auto
    moreover have "rd = RdBytes footer" if "script w = []"
      using p that foot by (auto simp: sys_pread_def next_outcome_eq)
    ultimately show ?thesis using False by blast
  qed simp
qed

lemma index_block_read:
  assumes fits: "table_fits t" and F: "inodes w i = tf_bytes t" and nf: "Fail \<notin> set (script w)"
    and r: "sr_fd r = Some i" "sr_file_size r = of_nat (length (tf_bytes t))"
  shows "\<exists>x. ReadBlock (index_handle (tf_bits t) (tf_chunks t)) r w
    = (Inr (Block_new (table_index (tf_chunks t))), w\<lparr>script := x\<rparr>) \<and> Fail \<notin> set x"
  unfolding index_handle_def
  by (rule ReadBlock_ok [OF r(1) F [unfolded table_bytes_index]])
    (use F r nf fits in \<open>simp_all add: table_fits_def\<close>)

lemma filter_block_read:
  assumes "table_fits t" and F: "inodes w i = tf_bytes t"
    and "read_filter (filter_handle (tf_bits t) (tf_chunks t)) i w = (flt, w')"
  shows "flt \<in> {[], table_filter (tf_bits t) (tf_chunks t)} \<and> w' = w\<lparr>script := tl (script w)\<rparr>"
  using read_filter_result [OF F [unfolded table_bytes_def] _ assms(3) [unfolded filter_handle_def]] assms(1) F
  by (simp add: table_fits_def)

lemma Open_file:
  assumes fits: "table_fits t" and d: "dir w filename = Some (tf_inode t)" and F: "inodes w (tf_inode t) = tf_bytes t"
    and nf: "Fail \<notin> set (script w)"
    and "SSTableReader_Open options filename n (of_nat (length (tf_bytes t))) w = (res, w')"
  shows "(case res of Inl s \<Rightarrow> IsIOError s \<and> script w \<noteq> [] | Inr r \<Rightarrow> reader_rep r n t)
    \<and> (\<exists>x. w' = w\<lparr>script := x\<rparr> \<and> Fail \<notin> set x)"
proof -
  define i where "i = tf_inode t"
  define fs :: u64 where "fs = of_nat (length (tf_bytes t))"
  define fh where "fh = filter_handle (tf_bits t) (tf_chunks t)"
  define ih where "ih = index_handle (tf_bits t) (tf_chunks t)"
  let ?open = "SSTableReader_Open options filename n fs w"
  have len: "length (tf_bytes t) < 2 ^ 64" using fits by (simp add: table_fits_def)
  have l48: "48 \<le> length (tf_bytes t)" by (simp add: table_bytes_def table_footer_fields)
  have ufs: "unat fs = length (tf_bytes t)" unfolding fs_def using len by (rule unat_of_nat64)
  then have big: "\<not> fs < 48" using l48 by (simp add: word_less_nat_alt)
  have o: "unat (fs - 48) = length (tf_bytes t) - 48" using l48 ufs by (simp add: unat_sub word_le_nat_alt)
  note F = F [folded i_def]
  define w1 where "w1 = w\<lparr>script := tl (script w)\<rparr>"
  have F1: "inodes w1 i = tf_bytes t" and nf1: "Fail \<notin> set (script w1)" using F script_tl [OF nf] by (simp_all add: w1_def)
  have opened: "sys_open_rdonly filename w = (if failed (outcome_of w) then None else Some i, w1)"
    using d by (simp add: sys_open_rdonly_def next_outcome_eq w1_def i_def)
  show ?thesis
  proof (cases "failed (outcome_of w)")
    case True
    then have "script w \<noteq> []" by auto
    then show ?thesis using True big opened nf1 assms(5)
      by (auto simp: SSTableReader_Open_def fs_def [symmetric] w1_def intro!: exI [of _ "tl (script w)"])
  next
    case open_ok: False
    obtain rd w2 where p: "sys_pread i 48 (length (tf_bytes t) - 48) w1 = (rd, w2)" by fastforce
    have w2: "w2 = w\<lparr>script := tl (tl (script w))\<rparr>" using sys_pread_eq(1) [OF p] by (simp add: w1_def)
    have nf2: "Fail \<notin> set (script w2)" using script_tl [OF nf1] by (simp add: w2 w1_def)
    note base = SSTableReader_Open_def [of options filename n fs w, unfolded if_not_P [OF big] opened
        if_not_P [OF open_ok] Let_def prod.case option.case o p]
    show ?thesis
    proof (cases "rd = RdBytes (table_footer fh ih)")
      case False
      then have "script w \<noteq> []" "\<forall>f. rd = RdBytes f \<longrightarrow> length f \<noteq> 48"
        using footer_read [OF F1 p] by (auto simp: fh_def ih_def w1_def)
      then show ?thesis using assms(5) nf2 unfolding fs_def [symmetric] base
        by (auto simp: w2 intro!: exI [of _ "tl (tl (script w))"] split: rd_result.splits)
    next
      case True
      define r where "r = SSTableReader_new options filename n fs (Some i)"
      have F2: "inodes w2 i = tf_bytes t" using F by (simp add: w2)
      obtain x where x: "ReadBlock ih r w2 = (Inr (Block_new (table_index (tf_chunks t))), w2\<lparr>script := x\<rparr>)" "Fail \<notin> set x"
        using index_block_read [OF fits F2 nf2, of r] by (auto simp: ih_def r_def SSTableReader_new_def fs_def)
      define r1 where "r1 = r\<lparr>sr_index_block := Block_new (table_index (tf_chunks t))\<rparr>"
      obtain flt w3 where f: "read_filter fh i (w2\<lparr>script := x\<rparr>) = (flt, w3)" by fastforce
      have flt: "flt \<in> {[], table_filter (tf_bits t) (tf_chunks t)}" "w3 = w2\<lparr>script := tl x\<rparr>"
        using filter_block_read [OF fits _ f [unfolded fh_def]] F2 by simp_all
      have fit: "\<not> (kMaxFilterSize < bh_size fh \<or> fs < bh_offset fh + bh_size fh + 4)"
        using filter_handle_fits [OF fits] unfolding fh_def fs_def by blast
      have "?open = (if bh_size fh > 0 then (Inr (r1\<lparr>sr_filter_data := flt\<rparr>), w3) else (Inr r1, w2\<lparr>script := x\<rparr>))"
        unfolding base True rd_result.case table_footer_fields r_def [symmetric]
        by (simp add: x(1) f fit r1_def table_footer_fields del: not_gr_zero)
      moreover have "reader_rep (r1\<lparr>sr_filter_data := flt\<rparr>) n t" "reader_rep r1 n t"
        using flt(1) by (auto simp: reader_rep_def r1_def r_def SSTableReader_new_def i_def fs_def)
      moreover have "Fail \<notin> set (tl x)" using x(2) in_set_tlD by fastforce
      ultimately show ?thesis using assms(5) x(2) unfolding fs_def [symmetric]
        by (auto simp: flt(2) w2 split: if_splits)
    qed
  qed
qed

lemma length_table_parts:
  "length (build_block 16 c) \<le> length (data_blocks chunks)" if "c \<in> set chunks"
  using that by (induction chunks) (auto simp: data_blocks_def)

lemma table_fits_small:
  assumes "length (tf_bytes t) \<le> 64 * 1024 * 1024" and "\<forall>c \<in> set (tf_chunks t). c \<noteq> []" and "0 \<le> tf_bits t"
    and "length (tf_entries t) * nat (tf_bits t) < 2 ^ 64 - 7" and "keys_sorted (tf_entries t)"
  shows "table_fits t"
proof -
  have "length (data_blocks (tf_chunks t)) \<le> 64 * 1024 * 1024" "length (table_index (tf_chunks t)) \<le> 64 * 1024 * 1024"
    "length (table_filter (tf_bits t) (tf_chunks t)) \<le> 64 * 1024 * 1024"
    using assms(1) by (simp_all add: table_bytes_def)
  then show ?thesis using assms length_table_parts unfolding table_fits_def by fastforce
qed

lemma coherent_empty: "block_cache.coherent P (BlockCache_new cap)"
  by (simp add: block_cache.coherent_def) (simp add: cached_def BlockCache_new_def)

lemma open_creat_idle: "script w = [] \<Longrightarrow> \<exists>i w0. sys_open_creat True f w = (Some i, w0) \<and> script w0 = []"
  by (cases "dir w f") (simp_all add: sys_open_creat_def next_outcome_eq)

section \<open>Properties\<close>

text \<open>C18: What was put into a table can be read back from it: after building a table of at most
  64 MB from entries in key order, opening it succeeds and a point lookup returns the first
  version of the key, its value or a deletion, and reports nothing for a key that is not in the
  table, provided all versions of the key are visible at the sequence number of the lookup.\<close>

theorem sstable_roundtrip:
  assumes "script w = []" and "wf_world w" and "keys_sorted es" and "length es < 2 ^ 64"
    and "0 \<le> bloom_bits_per_key options" and "length es * nat (bloom_bits_per_key options) < 2 ^ 64 - 7"
    and "build_table options filename es w = (s, b, w1)"
    and "content w1 filename = Some F" and "length F \<le> 64 * 1024 * 1024"
    and "\<forall>e \<in> set es. e_key e = key \<longrightarrow> readable key seq e"
    and "SSTableReader_Open options filename n (sb_offset b) w1 = (res, w2)"
  shows "s = OK \<and> (\<exists>r env'. res = Inr r
    \<and> Table_Get key seq r (Some (BlockCache_new cap), w2) = Some (found_result (find (readable key seq) es), env'))"
proof -
  let ?bits = "bloom_bits_per_key options"
  obtain i w0 where o: "sys_open_creat True filename w = (Some i, w0)" "script w0 = []"
    using open_creat_idle [OF assms(1)] by blast
  have nf: "Fail \<notin> set (script w)" using assms(1) by simp
  obtain chunks where c: "concat chunks = es" "\<forall>c \<in> set chunks. c \<noteq> []" "writes_only i w0 w1"
    "inodes w1 i = table_bytes ?bits chunks" "sb_offset b = of_nat (length (table_bytes ?bits chunks))"
    "s = OK \<or> Eintr \<in> set (script w)"
    using build_table_effect [OF nf assms(4,7) o(1)] by blast
  have d: "dir w1 filename = Some i"
    using sys_open_creat_effect(4) [OF assms(2) o(1)] writes_only_frame [OF c(3)] by simp
  define t where "t = \<lparr>tf_inode = i, tf_bits = ?bits, tf_chunks = chunks\<rparr>"
  have t: "tf_bytes t = F" "tf_entries t = es" "inodes w1 (tf_inode t) = tf_bytes t" "dir w1 filename = Some (tf_inode t)"
    using assms(8) c(1,4) d by (auto simp: t_def tf_entries_def content_def)
  have fits: "table_fits t" using t(1,2) c(2) assms(3,5,6,9) by (intro table_fits_small) (simp_all add: t_def)
  have s1: "script w1 = []" using writes_only_frame [OF c(3)] o(2) by simp
  have op: "SSTableReader_Open options filename n (of_nat (length (tf_bytes t))) w1 = (res, w2)"
    using assms(11) c(5) by (simp add: t_def)
  obtain r x where r: "res = Inr r" "reader_rep r n t" "w2 = w1\<lparr>script := x\<rparr>" "Fail \<notin> set x"
    using Open_file [OF fits t(4,3) _ op] s1 by (auto split: sum.splits)
  have "env_ok [n \<mapsto> t] (Some (BlockCache_new cap), w2)"
    using r(3,4) t(3) fits by (simp add: env_ok_def coherent_empty)
  note g = Table_Get_chunk [OF this _ r(2), of key seq]
  have "(if chunk_of key t < length (tf_chunks t) then find (readable key seq) (tf_chunks t ! chunk_of key t) else None)
      = find (readable key seq) es"
    using find_in_chunk [OF fits, of key seq] assms(10) t(2) by simp
  note g [unfolded this]
  then obtain env' where
    "Table_Get key seq r (Some (BlockCache_new cap), w2) = Some (found_result (find (readable key seq) es), env')"
    by auto
  with r(1) c(6) assms(1) show ?thesis by auto
qed

lemma chunks_single: "concat chunks = [e] \<Longrightarrow> \<forall>c \<in> set chunks. c \<noteq> [] \<Longrightarrow> chunks = [[e]]"
  by (cases chunks; cases "tl chunks") (auto simp: append_eq_Cons_conv)

theorem sstable_roundtrip_witness:
  fixes e :: MemtableEntry
  defines "e \<equiv> \<lparr>e_key = [97], e_seq = 4, e_type = 1, e_value = [1, 2]\<rparr>"
  shows "\<exists>b w1 r w2 env'. build_table default_options ''d/000005.sst'' [e] world0 = (OK, b, w1)
    \<and> SSTableReader_Open default_options ''d/000005.sst'' 5 (sb_offset b) w1 = (Inr r, w2)
    \<and> Table_Get [97] 9 r (Some (BlockCache_new 100), w2) = Some (Some (OK, Some [1, 2]), env')"
proof -
  obtain s b w1 where b: "build_table default_options ''d/000005.sst'' [e] world0 = (s, b, w1)" by (metis prod_cases3)
  obtain res w2 where o: "SSTableReader_Open default_options ''d/000005.sst'' 5 (sb_offset b) w1 = (res, w2)" by fastforce
  obtain i w0 where i: "sys_open_creat True ''d/000005.sst'' world0 = (Some i, w0)"
    using open_creat_idle [of world0 "''d/000005.sst''"] by auto
  obtain chunks where c: "concat chunks = [e]" "\<forall>c \<in> set chunks. c \<noteq> []" "writes_only i w0 w1" "inodes w1 i = table_bytes 10 chunks"
    using build_table_effect [OF _ _ b i] by (auto simp: default_options_def)
  have d: "dir w1 ''d/000005.sst'' = Some i"
    using sys_open_creat_effect(4) [OF _ i] writes_only_frame [OF c(3)] by simp
  have len: "length (table_bytes 10 [[e]]) \<le> 64 * 1024 * 1024"
    using unat_bloom_bytes [of 10 1] by (simp add: table_bytes_def table_footer_fields data_blocks_def table_index_def build_block_def length_Finish
        CurrentSizeEstimate_def BlockBuilder_Add_def BlockBuilder_new_def PutFixed32_def PutFixed64_def table_filter_def
        index_entries_def index_entry_def e_def)
  have "s = OK \<and> (\<exists>r env'. res = Inr r \<and> Table_Get [97] 9 r (Some (BlockCache_new 100), w2)
      = Some (found_result (find (readable [97] 9) [e]), env'))"
    by (rule sstable_roundtrip [OF _ _ _ _ _ _ b _ _ _ o])
      (use c chunks_single [OF c(1,2)] d len in \<open>simp_all add: content_def keys_sorted_def default_options_def e_def readable_def
        kTypeValue_def\<close>)
  then show ?thesis using b o by (auto simp: readable_def found_result_def e_def kTypeValue_def)
qed

text \<open>C23: A lookup reads one data block: when every version of the key in the block the index
  selects is newer than the requested sequence number, it reports that the key is not in the
  table, although an older, visible version may begin the next block.\<close>

theorem sstable_get_one_block:
  assumes "env_ok tabs env" and "tabs n = Some t" and "reader_rep r n t" and "chunk_of key t < length (tf_chunks t)"
    and "\<forall>e \<in> set (tf_chunks t ! chunk_of key t). e_key e = key \<longrightarrow> e_seq e > seq"
  shows "\<exists>env'. Table_Get key seq r env = Some (None, env')"
proof -
  have "find (readable key seq) (tf_chunks t ! chunk_of key t) = None"
    using assms(5) by (intro find_none) (auto simp: readable_def)
  then show ?thesis using Table_Get_chunk [OF assms(1-3), of key seq] assms(4) by auto
qed

definition split_table :: table_file where
  "split_table = \<lparr>tf_inode = 0, tf_bits = 10,
     tf_chunks = [[\<lparr>e_key = [97], e_seq = 9, e_type = 1, e_value = []\<rparr>], [\<lparr>e_key = [97], e_seq = 4, e_type = 1, e_value = [5]\<rparr>]]\<rparr>"

lemma split_table_fits: "table_fits split_table"
proof (rule table_fits_small)
  show "length (tf_bytes split_table) \<le> 64 * 1024 * 1024"
    using unat_bloom_bytes [of 10 2]
    by (simp add: table_bytes_def table_footer_fields data_blocks_def table_index_def build_block_def length_Finish
        CurrentSizeEstimate_def BlockBuilder_Add_def BlockBuilder_new_def PutFixed32_def PutFixed64_def table_filter_def
        index_entries_def index_entry_def split_table_def upt_rec numeral_2_eq_2 [symmetric] del: One_nat_def)
qed (auto simp: split_table_def tf_entries_def keys_sorted_def)

theorem sstable_get_one_block_witness:
  "\<exists>r env env'. Table_Get [97] 5 r env = Some (None, env') \<and> reader_rep r 1 split_table
     \<and> find (readable [97] 5) (tf_entries split_table) = Some \<lparr>e_key = [97], e_seq = 4, e_type = 1, e_value = [5]\<rparr>"
proof -
  let ?w = "world0\<lparr>inodes := \<lambda>_. tf_bytes split_table\<rparr>"
  define r where "r = (SSTableReader_new default_options ''t'' 1 (of_nat (length (tf_bytes split_table))) (Some 0))
    \<lparr>sr_index_block := Block_new (table_index (tf_chunks split_table))\<rparr>"
  have rr: "reader_rep r 1 split_table" by (simp add: reader_rep_def r_def SSTableReader_new_def split_table_def)
  have env: "env_ok [1 \<mapsto> split_table] (None, ?w)" using split_table_fits by (simp add: env_ok_def world0_def)
  have c: "chunk_of [97] split_table = 0"
    unfolding chunk_of_def by (rule seek_posI) (simp_all add: split_table_def index_entry_def)
  obtain env' where "Table_Get [97] 5 r (None, ?w) = Some (None, env')"
    using sstable_get_one_block [OF env _ rr, of "[97]" 5] c by (auto simp: split_table_def)
  then show ?thesis using rr by (intro exI conjI) (auto simp: split_table_def tf_entries_def readable_def kTypeValue_def)
qed

text \<open>C22: Damage confined to four consecutive bytes of a block never reaches a caller:
  \<^verbatim>\<open>ReadBlock\<close> reports corruption.\<close>

theorem sstable_block_damage_detected:
  assumes "sr_fd r = Some i" and "sr_file_size r = of_nat (length (inodes w i))" and "length (inodes w i) < 2 ^ 64"
    and "inodes w i = pre @ (x @ b' @ y) @ EncodeFixed32 (Crc32 (x @ b @ y) 0) @ post"
    and "length b' = length b" and "length b \<le> 4" and "b' \<noteq> b" and "length (x @ b @ y) \<le> 64 * 1024 * 1024"
    and "Fail \<notin> set (script w)"
  shows "\<exists>msg w'. ReadBlock \<lparr>bh_offset = of_nat (length pre), bh_size = of_nat (length (x @ b @ y))\<rparr> r w
    = (Inl (Corruption msg), w')"
proof -
  let ?c = "x @ b' @ y" and ?n = "length (x @ b @ y)"
  have len: "length (inodes w i) = length pre + ?n + 4 + length post" using assms(4,5) by simp
  have crc: "Crc32 ?c 0 \<noteq> Crc32 (x @ b @ y) 0" using Crc32_burst [of b' b x y 0] assms(5-7) by simp
  have o: "unat (of_nat (length pre) :: u64) = length pre" by (rule unat_of_nat64) (use len assms(3) in simp)
  have n: "unat (of_nat ?n :: u64) = ?n" by (rule unat_of_nat64) (use len assms(3) in simp)
  have sb: "sub (length pre) (?n + 4) (inodes w i) = ?c @ EncodeFixed32 (Crc32 (x @ b @ y) 0)"
    using assms(4,5) by (simp add: sub_def)
  obtain z where z: "read_upto i (length pre) (?n + 4) w
      = (RdAll, ?c @ EncodeFixed32 (Crc32 (x @ b @ y) 0), w\<lparr>script := z\<rparr>)"
    using read_upto_no_fail [OF assms(9), of i "length pre" "?n + 4"] len sb by auto
  have t: "take ?n (?c @ EncodeFixed32 (Crc32 (x @ b @ y) 0)) = ?c"
      "drop ?n (?c @ EncodeFixed32 (Crc32 (x @ b @ y) 0)) = EncodeFixed32 (Crc32 (x @ b @ y) 0)"
    using assms(5) by simp_all
  show ?thesis
    unfolding ReadBlock_def BlockHandle.simps assms(1) option.case Let_def o n z prod.case t using crc by auto
qed

theorem sstable_block_damage_detected_witness:
  "\<exists>msg w'. ReadBlock \<lparr>bh_offset = 0, bh_size = 3\<rparr>
      (SSTableReader_new default_options ''t'' 1 7 (Some 0))
      (world0\<lparr>inodes := \<lambda>_. [1, 7, 3] @ EncodeFixed32 (Crc32 [1, 2, 3] 0)\<rparr>) = (Inl (Corruption msg), w')"
  using sstable_block_damage_detected [of "SSTableReader_new default_options ''t'' 1 7 (Some 0)" 0
      "world0\<lparr>inodes := \<lambda>_. [1, 7, 3] @ EncodeFixed32 (Crc32 [1, 2, 3] 0)\<rparr>" "[]" "[1]" "[7]" "[3]" "[2]" "[]"]
  by (simp add: SSTableReader_new_def world0_def)

end
