(* ===== verification/Table_Iterator.thy ===== *)
theory Table_Iterator
  imports SSTable_Reader
begin

text \<open>
  The two-level iterator over a sorted table (src/sstable_reader.cc, \<^verbatim>\<open>TwoLevelIterator\<close>):
  an iterator of the index block and, under it, one of the data block the index points to.
  \<open>tl_at\<close> says which entry of the table the iterator is at; the interpretation of
  \<open>bidirectional_iterator\<close> shows that over files and a cache that satisfy \<open>env_ok\<close> every
  operation returns and moves as the contract of \<^verbatim>\<open>InternalIterator\<close> says.  As in theory
  \<open>Block\<close>, \<open>None\<close> stands for an operation that reads outside a block or does not return.
\<close>

section \<open>Two-level iterator\<close>

record TwoLevelIterator =
  tl_reader :: SSTableReader
  tl_index_iter :: BlockIter
  tl_data_iter :: "BlockIter option"
  tl_status :: Status

definition TwoLevelIterator_new :: "SSTableReader \<Rightarrow> TwoLevelIterator" where
  "TwoLevelIterator_new r =
     \<lparr>tl_reader = r, tl_index_iter = BlockIter_new (sr_index_block r), tl_data_iter = None, tl_status = OK\<rparr>"

definition tl_Valid :: "TwoLevelIterator \<Rightarrow> bool" where
  "tl_Valid it \<longleftrightarrow> (case tl_data_iter it of None \<Rightarrow> False | Some d \<Rightarrow> BlockIter_Valid d)"

definition InitDataBlock :: "TwoLevelIterator \<Rightarrow> env \<Rightarrow> TwoLevelIterator \<times> env" where
  "InitDataBlock it0 env =
     (let it = it0\<lparr>tl_data_iter := None\<rparr>
      in if \<not> BlockIter_Valid (tl_index_iter it) then (it, env)
         else case BlockHandle_DecodeFrom (bi_value (tl_index_iter it)) of
           Inl s \<Rightarrow> (it\<lparr>tl_status := s\<rparr>, env)
         | Inr (handle, _) \<Rightarrow>
             (let (res, env1) = load_data_block (tl_reader it) handle env
              in case res of
                   Inl s \<Rightarrow> (it\<lparr>tl_status := s\<rparr>, env1)
                 | Inr b \<Rightarrow> (it\<lparr>tl_data_iter := Some (BlockIter_new b)\<rparr>, env1)))"

lemma InitDataBlock_index:
  "InitDataBlock it env = (it', env') \<Longrightarrow> tl_index_iter it' = tl_index_iter it \<and> tl_reader it' = tl_reader it"
  by (auto simp: InitDataBlock_def Let_def split: if_splits sum.splits prod.splits)

function SkipEmptyDataBlocksForward :: "TwoLevelIterator \<Rightarrow> env \<Rightarrow> TwoLevelIterator \<times> env" where
  "SkipEmptyDataBlocksForward it env =
     (if tl_Valid it then (it, env)
      else if \<not> BlockIter_Valid (tl_index_iter it) then (it\<lparr>tl_data_iter := None\<rparr>, env)
      else let (it1, env1) = InitDataBlock (it\<lparr>tl_index_iter := BlockIter_Next (tl_index_iter it)\<rparr>) env
        in SkipEmptyDataBlocksForward
             (it1\<lparr>tl_data_iter := map_option BlockIter_SeekToFirst (tl_data_iter it1)\<rparr>) env1)"
  by pat_completeness auto
termination
  by (relation "measure (\<lambda>(it, _). block_left (tl_index_iter it))")
    (auto dest!: sym [of _ "InitDataBlock _ _"] InitDataBlock_index intro: BlockIter_Next_measure)

declare SkipEmptyDataBlocksForward.simps [simp del]

partial_function (option) SkipEmptyDataBlocksBackward ::
  "TwoLevelIterator \<Rightarrow> env \<Rightarrow> (TwoLevelIterator \<times> env) option" where
  "SkipEmptyDataBlocksBackward it env =
     (if tl_Valid it then Some (it, env)
      else if \<not> BlockIter_Valid (tl_index_iter it) then Some (it\<lparr>tl_data_iter := None\<rparr>, env)
      else Option.bind (BlockIter_Prev (tl_index_iter it)) (\<lambda>idx.
        let (it1, env1) = InitDataBlock (it\<lparr>tl_index_iter := idx\<rparr>) env
        in case tl_data_iter it1 of
             None \<Rightarrow> SkipEmptyDataBlocksBackward it1 env1
           | Some d \<Rightarrow> Option.bind (BlockIter_SeekToLast d) (\<lambda>d1.
               SkipEmptyDataBlocksBackward (it1\<lparr>tl_data_iter := Some d1\<rparr>) env1)))"

declare SkipEmptyDataBlocksBackward.simps [code]

definition tl_SeekToFirst :: "TwoLevelIterator \<Rightarrow> env \<Rightarrow> TwoLevelIterator \<times> env" where
  "tl_SeekToFirst it env =
     (let (it1, env1) = InitDataBlock (it\<lparr>tl_index_iter := BlockIter_SeekToFirst (tl_index_iter it)\<rparr>) env
      in SkipEmptyDataBlocksForward
           (it1\<lparr>tl_data_iter := map_option BlockIter_SeekToFirst (tl_data_iter it1)\<rparr>) env1)"

definition tl_SeekToLast :: "TwoLevelIterator \<Rightarrow> env \<Rightarrow> (TwoLevelIterator \<times> env) option" where
  "tl_SeekToLast it env =
     Option.bind (BlockIter_SeekToLast (tl_index_iter it)) (\<lambda>idx.
       let (it1, env1) = InitDataBlock (it\<lparr>tl_index_iter := idx\<rparr>) env
       in case tl_data_iter it1 of
            None \<Rightarrow> SkipEmptyDataBlocksBackward it1 env1
          | Some d \<Rightarrow> Option.bind (BlockIter_SeekToLast d) (\<lambda>d1.
              SkipEmptyDataBlocksBackward (it1\<lparr>tl_data_iter := Some d1\<rparr>) env1))"

definition tl_Seek :: "bytes \<Rightarrow> TwoLevelIterator \<Rightarrow> env \<Rightarrow> (TwoLevelIterator \<times> env) option" where
  "tl_Seek target it env =
     Option.bind (BlockIter_Seek target (tl_index_iter it)) (\<lambda>idx.
       let (it1, env1) = InitDataBlock (it\<lparr>tl_index_iter := idx\<rparr>) env
       in case tl_data_iter it1 of
            None \<Rightarrow> Some (SkipEmptyDataBlocksForward it1 env1)
          | Some d \<Rightarrow> Option.bind (BlockIter_Seek target d) (\<lambda>d1.
              Some (SkipEmptyDataBlocksForward (it1\<lparr>tl_data_iter := Some d1\<rparr>) env1)))"

definition tl_Next :: "TwoLevelIterator \<Rightarrow> env \<Rightarrow> TwoLevelIterator \<times> env" where
  "tl_Next it env =
     SkipEmptyDataBlocksForward (it\<lparr>tl_data_iter := map_option BlockIter_Next (tl_data_iter it)\<rparr>) env"

definition tl_Prev :: "TwoLevelIterator \<Rightarrow> env \<Rightarrow> (TwoLevelIterator \<times> env) option" where
  "tl_Prev it env =
     (case tl_data_iter it of
        None \<Rightarrow> SkipEmptyDataBlocksBackward it env
      | Some d \<Rightarrow> Option.bind (BlockIter_Prev d) (\<lambda>d1.
          SkipEmptyDataBlocksBackward (it\<lparr>tl_data_iter := Some d1\<rparr>) env))"

definition tl_Entry :: "TwoLevelIterator \<Rightarrow> MemtableEntry" where
  "tl_Entry it = BlockIter_Entry (the (tl_data_iter it))"

definition tl_status_of :: "TwoLevelIterator \<Rightarrow> Status" where
  "tl_status_of it =
     (if \<not> ok (tl_status it) then tl_status it
      else case tl_data_iter it of
        Some d \<Rightarrow> if \<not> ok (bi_status d) then bi_status d else OK
      | None \<Rightarrow> OK)"

section \<open>Iterating a table\<close>

text \<open>
  Inside an operation the iterator is at place \<open>q\<close> of chunk \<open>p\<close>, possibly past the chunk's
  last entry; between operations it is at an entry or past the last one.
\<close>

definition tl_mid :: "tables \<Rightarrow> TwoLevelIterator \<Rightarrow> table_file \<Rightarrow> nat \<Rightarrow> nat \<Rightarrow> bool" where
  "tl_mid tabs it t p q \<longleftrightarrow> (\<exists>n. tabs n = Some t \<and> reader_rep (tl_reader it) n t) \<and> table_fits t \<and> tl_status it = OK
     \<and> iter_at (tl_index_iter it) (index_entries (tf_chunks t)) p
     \<and> (case tl_data_iter it of None \<Rightarrow> p = length (tf_chunks t) \<and> q = 0
        | Some d \<Rightarrow> p < length (tf_chunks t) \<and> iter_at d (tf_chunks t ! p) q)"

definition tl_pos :: "table_file \<Rightarrow> nat \<Rightarrow> nat \<Rightarrow> nat" where
  "tl_pos t p q = length (concat (take p (tf_chunks t))) + q"

definition tl_at :: "tables \<Rightarrow> TwoLevelIterator \<Rightarrow> MemtableEntry list \<Rightarrow> nat \<Rightarrow> bool" where
  "tl_at tabs it es i \<longleftrightarrow> (\<exists>t p q. tl_mid tabs it t p q \<and> es = tf_entries t \<and> i = tl_pos t p q
     \<and> (p < length (tf_chunks t) \<longrightarrow> q < length (tf_chunks t ! p)))"

lemma tl_pos_end [simp]: "tl_pos t (length (tf_chunks t)) 0 = length (tf_entries t)"
  by (simp add: tl_pos_def tf_entries_def)

lemma tl_pos_less:
  assumes "p < length (tf_chunks t)" and "q < length (tf_chunks t ! p)"
  shows "tl_pos t p q < length (tf_entries t)" and "tf_entries t ! tl_pos t p q = tf_chunks t ! p ! q"
  using assms unfolding tf_entries_def tl_pos_def
  by (simp_all add: concat_split [OF assms(1)] nth_append del: length_concat)

lemma tl_pos_Suc: "p < length (tf_chunks t) \<Longrightarrow> tl_pos t p (length (tf_chunks t ! p)) = tl_pos t (Suc p) 0"
  by (simp add: tl_pos_def take_Suc_conv_app_nth)

text \<open>A table iterator that has just been created.\<close>

lemma tl_at_new:
  assumes "tabs n = Some t" and "reader_rep r n t" and "table_fits t"
  shows "tl_at tabs (TwoLevelIterator_new r) (tf_entries t) (length (tf_entries t))"
proof -
  have "tl_mid tabs (TwoLevelIterator_new r) t (length (tf_chunks t)) 0"
    using assms index_iter_at [OF assms(3,2)] by (auto simp: tl_mid_def TwoLevelIterator_new_def)
  then show ?thesis unfolding tl_at_def using tl_pos_end [of t] by (metis less_irrefl)
qed

lemma tl_Valid_mid: "tl_mid tabs it t p q \<Longrightarrow> tl_Valid it \<longleftrightarrow> p < length (tf_chunks t) \<and> q < length (tf_chunks t ! p)"
  by (auto simp: tl_mid_def tl_Valid_def iter_valid split: option.splits)

lemma index_valid_mid: "tl_mid tabs it t p q \<Longrightarrow> BlockIter_Valid (tl_index_iter it) \<longleftrightarrow> p < length (tf_chunks t)"
  using iter_valid [of "tl_index_iter it" "index_entries (tf_chunks t)" p] by (simp add: tl_mid_def)

lemma tl_mid_le: "tl_mid tabs it t p q \<Longrightarrow> p \<le> length (tf_chunks t)"
  by (auto simp: tl_mid_def split: option.splits)

lemma tl_mid_on:
  "tabs n = Some t \<Longrightarrow> reader_rep (tl_reader it) n t \<Longrightarrow> table_fits t \<Longrightarrow> tl_status it = OK
     \<Longrightarrow> iter_at idx (index_entries (tf_chunks t)) p \<Longrightarrow> p < length (tf_chunks t) \<Longrightarrow> iter_at d (tf_chunks t ! p) q
     \<Longrightarrow> tl_mid tabs (it\<lparr>tl_index_iter := idx, tl_data_iter := Some d\<rparr>) t p q"
  unfolding tl_mid_def by (simp, blast)

lemma tl_mid_off:
  "tabs n = Some t \<Longrightarrow> reader_rep (tl_reader it) n t \<Longrightarrow> table_fits t \<Longrightarrow> tl_status it = OK
     \<Longrightarrow> iter_at idx (index_entries (tf_chunks t)) (length (tf_chunks t))
     \<Longrightarrow> tl_mid tabs (it\<lparr>tl_index_iter := idx, tl_data_iter := None\<rparr>) t (length (tf_chunks t)) 0"
  unfolding tl_mid_def by (simp, blast)

lemma InitDataBlock_ok:
  assumes mid: "tl_mid tabs it t p0 q0" and e: "env_ok tabs env" and idx: "iter_at idx (index_entries (tf_chunks t)) p"
  shows "\<exists>it' env'. InitDataBlock (it\<lparr>tl_index_iter := idx\<rparr>) env = (it', env') \<and> env_ok tabs env'
    \<and> tl_mid tabs it' t p (if p < length (tf_chunks t) then length (tf_chunks t ! p) else 0)"
proof -
  obtain n where n: "tabs n = Some t" "reader_rep (tl_reader it) n t" and fits: "table_fits t" and ok: "tl_status it = OK"
    using mid unfolding tl_mid_def by blast
  show ?thesis
  proof (cases "p < length (tf_chunks t)")
    case p: True
    have "BlockIter_Entry idx = index_entry (tf_chunks t) p" using iter_entry [OF idx] p by simp
    from arg_cong [OF this, of e_value]
    have h: "BlockHandle_DecodeFrom (bi_value idx) = Inr (chunk_handle (tf_chunks t) p, [])"
      by (simp add: BlockIter_Entry_def index_entry_def)
    define b where "b = Block_new (build_block 16 (tf_chunks t ! p))"
    obtain env' where l: "load_data_block (tl_reader it) (chunk_handle (tf_chunks t) p) env = (Inr b, env')" "env_ok tabs env'"
      using load_data_block_ok [OF e n p] unfolding b_def by blast
    have "BlockIter_Valid idx" using iter_valid [OF idx] p by simp
    with h l(1) have "InitDataBlock (it\<lparr>tl_index_iter := idx\<rparr>) env
        = (it\<lparr>tl_index_iter := idx, tl_data_iter := Some (BlockIter_new b)\<rparr>, env')"
      by (simp add: InitDataBlock_def)
    moreover have "tl_mid tabs (it\<lparr>tl_index_iter := idx, tl_data_iter := Some (BlockIter_new b)\<rparr>) t p (length (tf_chunks t ! p))"
      using n fits ok idx p chunk_iter_at [OF fits p] unfolding b_def by (rule tl_mid_on)
    ultimately show ?thesis using l(2) p by auto
  next
    case False
    then have p: "p = length (tf_chunks t)" using idx by (auto elim: iter_atE)
    have "\<not> BlockIter_Valid idx" using iter_valid [OF idx] p by simp
    then have "InitDataBlock (it\<lparr>tl_index_iter := idx\<rparr>) env = (it\<lparr>tl_index_iter := idx, tl_data_iter := None\<rparr>, env)"
      by (simp add: InitDataBlock_def)
    moreover have "tl_mid tabs (it\<lparr>tl_index_iter := idx, tl_data_iter := None\<rparr>) t p 0"
      using n fits ok idx unfolding p by (rule tl_mid_off)
    ultimately show ?thesis using e p by auto
  qed
qed

lemma tl_mid_data:
  "tl_mid tabs it t p q \<Longrightarrow> tl_data_iter it = Some d \<Longrightarrow> iter_at d' (tf_chunks t ! p) q' \<Longrightarrow>
     tl_mid tabs (it\<lparr>tl_data_iter := Some d'\<rparr>) t p q'"
  by (auto simp: tl_mid_def)

lemma tl_mid_cases:
  assumes "tl_mid tabs it t p q"
  obtains (off) "tl_data_iter it = None" "p = length (tf_chunks t)" "q = 0"
    | (on) d where "tl_data_iter it = Some d" "p < length (tf_chunks t)" "iter_at d (tf_chunks t ! p) q"
      "q \<le> length (tf_chunks t ! p)"
  using assms by (auto simp: tl_mid_def elim: iter_atE split: option.splits)

lemma tl_at_mid: "tl_mid tabs it t p q \<Longrightarrow> (p < length (tf_chunks t) \<Longrightarrow> q < length (tf_chunks t ! p))
    \<Longrightarrow> tl_at tabs it (tf_entries t) (tl_pos t p q)"
  by (auto simp: tl_at_def)

lemma skip_valid:
  "tl_Valid it \<Longrightarrow> SkipEmptyDataBlocksForward it env = (it, env)"
  "tl_Valid it \<Longrightarrow> SkipEmptyDataBlocksBackward it env = Some (it, env)"
  by (subst SkipEmptyDataBlocksForward.simps, simp) (subst SkipEmptyDataBlocksBackward.simps, simp)

lemma skip_off:
  assumes "tl_mid tabs it t (length (tf_chunks t)) 0"
  shows "SkipEmptyDataBlocksForward it env = (it, env)" "SkipEmptyDataBlocksBackward it env = Some (it, env)"
proof -
  have none: "tl_data_iter it = None" using assms by (auto simp: tl_mid_def split: option.splits)
  have v: "\<not> BlockIter_Valid (tl_index_iter it)" using index_valid_mid [OF assms] by simp
  have "it\<lparr>tl_data_iter := None\<rparr> = it" using none by (cases it) simp
  note eq = none v this
  show "SkipEmptyDataBlocksForward it env = (it, env)"
    using eq by (subst SkipEmptyDataBlocksForward.simps) (simp add: tl_Valid_def)
  show "SkipEmptyDataBlocksBackward it env = Some (it, env)"
    using eq by (subst SkipEmptyDataBlocksBackward.simps) (simp add: tl_Valid_def)
qed

text \<open>Loading the chunk the index points to and going to its first or last entry.\<close>

lemma first_of_chunk:
  assumes mid: "tl_mid tabs it t p0 q0" and e: "env_ok tabs env" and idx: "iter_at idx (index_entries (tf_chunks t)) p"
  shows "\<exists>it1 env'. InitDataBlock (it\<lparr>tl_index_iter := idx\<rparr>) env = (it1, env') \<and> env_ok tabs env'
    \<and> tl_mid tabs (it1\<lparr>tl_data_iter := map_option BlockIter_SeekToFirst (tl_data_iter it1)\<rparr>) t p 0"
proof -
  obtain it1 env' q where i: "InitDataBlock (it\<lparr>tl_index_iter := idx\<rparr>) env = (it1, env')" "env_ok tabs env'"
      "tl_mid tabs it1 t p q"
    using InitDataBlock_ok [OF mid e idx] by blast
  from i(3) have "tl_mid tabs (it1\<lparr>tl_data_iter := map_option BlockIter_SeekToFirst (tl_data_iter it1)\<rparr>) t p 0"
  proof (cases rule: tl_mid_cases)
    case off
    then have "it1\<lparr>tl_data_iter := map_option BlockIter_SeekToFirst (tl_data_iter it1)\<rparr> = it1" by (cases it1) simp
    then show ?thesis using i(3) off(3) by simp
  next
    case (on d)
    then show ?thesis using tl_mid_data [OF i(3) on(1) iter_first [OF on(3)]] by simp
  qed
  with i show ?thesis by blast
qed

lemma last_of_chunk:
  assumes mid: "tl_mid tabs it t p0 q0" and e: "env_ok tabs env" and idx: "iter_at idx (index_entries (tf_chunks t)) p"
  shows "\<exists>it1 it2 env'. InitDataBlock (it\<lparr>tl_index_iter := idx\<rparr>) env = (it1, env') \<and> env_ok tabs env'
    \<and> (case tl_data_iter it1 of None \<Rightarrow> it2 = it1
       | Some d \<Rightarrow> \<exists>d1. BlockIter_SeekToLast d = Some d1 \<and> it2 = it1\<lparr>tl_data_iter := Some d1\<rparr>)
    \<and> tl_mid tabs it2 t p (if p < length (tf_chunks t) then length (tf_chunks t ! p) - 1 else 0)"
proof -
  obtain it1 env' q where i: "InitDataBlock (it\<lparr>tl_index_iter := idx\<rparr>) env = (it1, env')" "env_ok tabs env'"
      "tl_mid tabs it1 t p q"
    using InitDataBlock_ok [OF mid e idx] by blast
  have fits: "table_fits t" using mid by (simp add: tl_mid_def)
  from i(3) show ?thesis
  proof (cases rule: tl_mid_cases)
    case off
    then show ?thesis using i by auto
  next
    case (on d)
    obtain d1 where d1: "BlockIter_SeekToLast d = Some d1" "iter_at d1 (tf_chunks t ! p) (length (tf_chunks t ! p) - 1)"
      using iter_last [OF on(3)] table_fitsD(2) [OF fits on(2)] by auto
    from tl_mid_data [OF i(3) on(1) d1(2)] i(1,2) d1(1) on(1,2) show ?thesis by auto
  qed
qed

text \<open>The two loops, from any place of a chunk or past the last chunk.\<close>

lemma skip_forward:
  assumes mid: "tl_mid tabs it t p q" and e: "env_ok tabs env"
    and s: "SkipEmptyDataBlocksForward it env = (it', env')"
  shows "tl_at tabs it' (tf_entries t) (tl_pos t p q) \<and> env_ok tabs env'"
proof (cases "tl_Valid it")
  case True
  then show ?thesis using s e tl_at_mid [OF mid] tl_Valid_mid [OF mid] by (simp add: skip_valid)
next
  case inv: False
  have fits: "table_fits t" using mid by (simp add: tl_mid_def)
  from mid show ?thesis
  proof (cases rule: tl_mid_cases)
    case off
    then show ?thesis using s e skip_off(1) mid tl_at_mid [OF mid] by simp
  next
    case (on d)
    have q: "q = length (tf_chunks t ! p)" using on inv tl_Valid_mid [OF mid] by simp
    have idx: "iter_at (BlockIter_Next (tl_index_iter it)) (index_entries (tf_chunks t)) (Suc p)"
      using mid on(2) by (intro iter_next) (simp_all add: tl_mid_def)
    obtain it1 env1 where i: "InitDataBlock (it\<lparr>tl_index_iter := BlockIter_Next (tl_index_iter it)\<rparr>) env = (it1, env1)"
        "env_ok tabs env1" and m: "tl_mid tabs (it1\<lparr>tl_data_iter := map_option BlockIter_SeekToFirst (tl_data_iter it1)\<rparr>) t (Suc p) 0"
      using first_of_chunk [OF mid e idx] by blast
    let ?it2 = "it1\<lparr>tl_data_iter := map_option BlockIter_SeekToFirst (tl_data_iter it1)\<rparr>"
    have nz: "Suc p < length (tf_chunks t) \<Longrightarrow> 0 < length (tf_chunks t ! Suc p)" using table_fitsD(2) [OF fits] by simp
    have "SkipEmptyDataBlocksForward it env = SkipEmptyDataBlocksForward ?it2 env1"
      using inv index_valid_mid [OF mid] on(2) i(1) by (subst SkipEmptyDataBlocksForward.simps) simp
    also have "\<dots> = (?it2, env1)"
    proof (cases "Suc p < length (tf_chunks t)")
      case True
      then show ?thesis using tl_Valid_mid [OF m] nz by (simp add: skip_valid)
    next
      case False
      then have "Suc p = length (tf_chunks t)" using on(2) by simp
      then show ?thesis using skip_off(1) m by metis
    qed
    finally have "it' = ?it2" "env' = env1" using s by simp_all
    then show ?thesis using tl_at_mid [OF m nz] i(2) tl_pos_Suc [OF on(2)] q by simp
  qed
qed

lemma skip_backward:
  assumes mid: "tl_mid tabs it t p q" and e: "env_ok tabs env" and p: "p < length (tf_chunks t)"
  shows "\<exists>it' env'. SkipEmptyDataBlocksBackward it env = Some (it', env') \<and> env_ok tabs env'
    \<and> tl_at tabs it' (tf_entries t) (if q < length (tf_chunks t ! p) then tl_pos t p q
        else if p = 0 then length (tf_entries t) else tl_pos t p 0 - 1)"
proof (cases "tl_Valid it")
  case True
  then show ?thesis using e tl_at_mid [OF mid] tl_Valid_mid [OF mid] by (simp add: skip_valid)
next
  case inv: False
  have fits: "table_fits t" using mid by (simp add: tl_mid_def)
  have q: "\<not> q < length (tf_chunks t ! p)" using p inv tl_Valid_mid [OF mid] by simp
  let ?p = "if p = 0 then length (tf_chunks t) else p - 1"
  have at: "iter_at (tl_index_iter it) (index_entries (tf_chunks t)) p" using mid by (simp add: tl_mid_def)
  obtain idx where idx: "BlockIter_Prev (tl_index_iter it) = Some idx" "iter_at idx (index_entries (tf_chunks t)) ?p"
    using iter_prev [OF at, unfolded length_index_entries, OF p] by blast
  obtain it1 it2 env1 where i: "InitDataBlock (it\<lparr>tl_index_iter := idx\<rparr>) env = (it1, env1)" "env_ok tabs env1"
      "case tl_data_iter it1 of None \<Rightarrow> it2 = it1
       | Some d \<Rightarrow> \<exists>d1. BlockIter_SeekToLast d = Some d1 \<and> it2 = it1\<lparr>tl_data_iter := Some d1\<rparr>"
      and m: "tl_mid tabs it2 t ?p (if ?p < length (tf_chunks t) then length (tf_chunks t ! ?p) - 1 else 0)"
    using last_of_chunk [OF mid e idx(2)] by blast
  have eq: "SkipEmptyDataBlocksBackward it env = SkipEmptyDataBlocksBackward it2 env1"
    using inv index_valid_mid [OF mid] p i(1,3) idx(1)
    by (subst SkipEmptyDataBlocksBackward.simps) (auto split: option.splits)
  show ?thesis
  proof (cases "p = 0")
    case True
    then have m': "tl_mid tabs it2 t (length (tf_chunks t)) 0" using m by simp
    then show ?thesis unfolding eq using skip_off(2) [OF m'] i(2) tl_at_mid [OF m'] q True by simp
  next
    case False
    let ?q = "length (tf_chunks t ! (p - 1)) - 1"
    have p1: "p - 1 < length (tf_chunks t)" and ne: "0 < length (tf_chunks t ! (p - 1))"
      using p table_fitsD(2) [OF fits, of "p - 1"] by simp_all
    have m': "tl_mid tabs it2 t (p - 1) ?q" using m False p1 by simp
    have "tl_pos t (p - 1) ?q = tl_pos t p 0 - 1"
      using tl_pos_Suc [OF p1] ne False by (simp add: tl_pos_def del: length_greater_0_conv)
    with tl_at_mid [OF m'] ne have "tl_at tabs it2 (tf_entries t) (tl_pos t p 0 - 1)" by simp
    moreover have "tl_Valid it2" using tl_Valid_mid [OF m'] p1 ne by simp
    ultimately show ?thesis unfolding eq using i(2) q False by (simp add: skip_valid)
  qed
qed

section \<open>The contract\<close>

lemma tl_atE:
  assumes "tl_at tabs it es i"
  obtains t p q where "tl_mid tabs it t p q" "es = tf_entries t" "i = tl_pos t p q"
    "p < length (tf_chunks t) \<longrightarrow> q < length (tf_chunks t ! p)"
  using assms by (auto simp: tl_at_def)

lemma tl_at_basic:
  assumes "tl_at tabs it es i"
  shows "keys_sorted es \<and> i \<le> length es" and "tl_Valid it \<longleftrightarrow> i < length es"
    and "i < length es \<Longrightarrow> tl_Entry it = es ! i"
proof -
  obtain t p q where mid: "tl_mid tabs it t p q" and es: "es = tf_entries t" and i: "i = tl_pos t p q"
      and q: "p < length (tf_chunks t) \<longrightarrow> q < length (tf_chunks t ! p)"
    using assms by (rule tl_atE)
  have "keys_sorted es" using mid es by (simp add: tl_mid_def table_fits_def)
  moreover from mid have "i \<le> length es \<and> (tl_Valid it \<longleftrightarrow> i < length es) \<and> (i < length es \<longrightarrow> tl_Entry it = es ! i)"
  proof (cases rule: tl_mid_cases)
    case off
    then show ?thesis using tl_Valid_mid [OF mid] es i by simp
  next
    case (on d)
    then have "tl_Valid it" "tl_Entry it = tf_chunks t ! p ! q"
      using tl_Valid_mid [OF mid] q iter_entry [OF on(3)] by (simp_all add: tl_Entry_def)
    then show ?thesis using tl_pos_less [OF on(2) q [THEN mp, OF on(2)]] es i by simp
  qed
  ultimately show "keys_sorted es \<and> i \<le> length es" "tl_Valid it \<longleftrightarrow> i < length es"
    "i < length es \<Longrightarrow> tl_Entry it = es ! i" by blast+
qed

lemma tl_at_index:
  "tl_mid tabs it t p q \<Longrightarrow> iter_at (tl_index_iter it) (index_entries (tf_chunks t)) p"
  by (simp add: tl_mid_def)

lemma tl_first:
  assumes "tl_at tabs it es i" and e: "env_ok tabs env" and s: "tl_SeekToFirst it env = (it', env')"
  shows "tl_at tabs it' es 0 \<and> env_ok tabs env'"
proof -
  obtain t p q where mid: "tl_mid tabs it t p q" and es: "es = tf_entries t"
    using assms(1) by (rule tl_atE)
  obtain it1 env1 where i: "InitDataBlock (it\<lparr>tl_index_iter := BlockIter_SeekToFirst (tl_index_iter it)\<rparr>) env = (it1, env1)"
      "env_ok tabs env1" "tl_mid tabs (it1\<lparr>tl_data_iter := map_option BlockIter_SeekToFirst (tl_data_iter it1)\<rparr>) t 0 0"
    using first_of_chunk [OF mid e iter_first [OF tl_at_index [OF mid]]] by blast
  have "SkipEmptyDataBlocksForward (it1\<lparr>tl_data_iter := map_option BlockIter_SeekToFirst (tl_data_iter it1)\<rparr>) env1 = (it', env')"
    using s i(1) by (simp add: tl_SeekToFirst_def)
  from skip_forward [OF i(3,2) this] show ?thesis by (simp add: es tl_pos_def)
qed

lemma tl_next:
  assumes "tl_at tabs it es i" and "i < length es" and e: "env_ok tabs env" and s: "tl_Next it env = (it', env')"
  shows "tl_at tabs it' es (Suc i) \<and> env_ok tabs env'"
proof -
  obtain t p q where mid: "tl_mid tabs it t p q" and es: "es = tf_entries t" and i: "i = tl_pos t p q"
      and q: "p < length (tf_chunks t) \<longrightarrow> q < length (tf_chunks t ! p)"
    using assms(1) by (rule tl_atE)
  from mid show ?thesis
  proof (cases rule: tl_mid_cases)
    case off
    then show ?thesis using assms(2) es i by simp
  next
    case (on d)
    have "tl_mid tabs (it\<lparr>tl_data_iter := Some (BlockIter_Next d)\<rparr>) t p (Suc q)"
      using tl_mid_data [OF mid on(1) iter_next [OF on(3) q [THEN mp, OF on(2)]]] .
    from skip_forward [OF this e] s on(1) show ?thesis by (simp add: es i tl_pos_def tl_Next_def)
  qed
qed

lemma seek_chunk:
  assumes fits: "table_fits t" and p: "p = chunk_of target t"
    and q: "q = (if p < length (tf_chunks t) then seek_pos target (tf_chunks t ! p) else 0)"
  shows "tl_pos t p q = seek_pos target (tf_entries t)"
proof (rule seek_posI [symmetric])
  have before: "e_key (concat (take p (tf_chunks t)) ! j) < target" if "j < length (concat (take p (tf_chunks t)))" for j
    using before_chunk_of [OF fits] nth_mem [OF that] p by blast
  consider (last) "p = length (tf_chunks t)" "q = 0" | (inside) "p < length (tf_chunks t)" "q = seek_pos target (tf_chunks t ! p)"
    using q p chunk_of_le [of target t] by (cases "p < length (tf_chunks t)") auto
  then have *: "tl_pos t p q \<le> length (tf_entries t) \<and> (\<forall>j < tl_pos t p q. e_key (tf_entries t ! j) < target)
      \<and> (tl_pos t p q < length (tf_entries t) \<longrightarrow> target \<le> e_key (tf_entries t ! tl_pos t p q))"
  proof cases
    case last
    then show ?thesis using before by (simp add: tf_entries_def)
  next
    case inside
    let ?a = "concat (take p (tf_chunks t))" and ?c = "tf_chunks t ! p"
    have "target \<le> e_key (last ?c)" using last_chunk_of inside(1) p by simp
    moreover have "?c \<noteq> []" using table_fitsD(2) [OF fits inside(1)] .
    ultimately have qc: "q < length ?c"
      using inside(2) before_seek_pos [of "length ?c - 1" target ?c] seek_pos_le [of target ?c]
      by (metis diff_less last_conv_nth leD le_neq_implies_less length_greater_0_conv zero_less_one)
    note es = concat_split [OF inside(1)]
    have "e_key (tf_entries t ! j) < target" if j: "j < tl_pos t p q" for j
    proof (cases "j < length ?a")
      case True
      then show ?thesis using before [OF True] unfolding tf_entries_def es by (simp add: nth_append)
    next
      case False
      then have "j - length ?a < q" using j by (simp add: tl_pos_def)
      then show ?thesis using False qc before_seek_pos [of "j - length ?a" target ?c] inside(2)
        unfolding tf_entries_def es by (simp add: nth_append)
    qed
    then show ?thesis
      using tl_pos_less [OF inside(1) qc] at_seek_pos [of target ?c] qc inside(2) by simp
  qed
  then show "tl_pos t p q \<le> length (tf_entries t)" "\<And>j. j < tl_pos t p q \<Longrightarrow> e_key (tf_entries t ! j) < target"
    "tl_pos t p q < length (tf_entries t) \<Longrightarrow> target \<le> e_key (tf_entries t ! tl_pos t p q)" by blast+
qed

lemma tl_seek:
  assumes "tl_at tabs it es i" and e: "env_ok tabs env"
  shows "\<exists>it' env'. tl_Seek target it env = Some (it', env') \<and> tl_at tabs it' es (seek_pos target es) \<and> env_ok tabs env'"
proof -
  obtain t p q where mid: "tl_mid tabs it t p q" and es: "es = tf_entries t"
    using assms(1) by (rule tl_atE)
  have fits: "table_fits t" using mid by (simp add: tl_mid_def)
  let ?p = "chunk_of target t"
  obtain idx where idx: "BlockIter_Seek target (tl_index_iter it) = Some idx" "iter_at idx (index_entries (tf_chunks t)) ?p"
    using iter_seek [OF tl_at_index [OF mid] keys_sorted_index [OF fits]] unfolding chunk_of_def by blast
  obtain it1 env1 q1 where i: "InitDataBlock (it\<lparr>tl_index_iter := idx\<rparr>) env = (it1, env1)" "env_ok tabs env1"
      "tl_mid tabs it1 t ?p q1"
    using InitDataBlock_ok [OF mid e idx(2)] by blast
  obtain it' env' where s: "tl_Seek target it env = Some (it', env')"
      "\<exists>it2 q2. tl_mid tabs it2 t ?p q2 \<and> SkipEmptyDataBlocksForward it2 env1 = (it', env')
        \<and> q2 = (if ?p < length (tf_chunks t) then seek_pos target (tf_chunks t ! ?p) else 0)"
    using i(3)
  proof (cases rule: tl_mid_cases)
    case off
    obtain it' env' where s: "SkipEmptyDataBlocksForward it1 env1 = (it', env')" by (metis surj_pair)
    then have "tl_Seek target it env = Some (it', env')" using idx(1) i(1) off(1) by (simp add: tl_Seek_def)
    then show ?thesis using that s i(3) off(2,3) by fastforce
  next
    case (on d)
    obtain d1 where d1: "BlockIter_Seek target d = Some d1" "iter_at d1 (tf_chunks t ! ?p) (seek_pos target (tf_chunks t ! ?p))"
      using iter_seek [OF on(3) table_fitsD(5) [OF fits on(2)]] by blast
    obtain it' env' where s: "SkipEmptyDataBlocksForward (it1\<lparr>tl_data_iter := Some d1\<rparr>) env1 = (it', env')" by (metis surj_pair)
    then have "tl_Seek target it env = Some (it', env')" using idx(1) i(1) on(1) d1(1) by (simp add: tl_Seek_def)
    then show ?thesis using that s tl_mid_data [OF i(3) on(1) d1(2)] on(2) by auto
  qed
  then obtain it2 q2 where 2: "tl_mid tabs it2 t ?p q2" "SkipEmptyDataBlocksForward it2 env1 = (it', env')"
      "q2 = (if ?p < length (tf_chunks t) then seek_pos target (tf_chunks t ! ?p) else 0)" by blast
  show ?thesis
    using skip_forward [OF 2(1) i(2) 2(2)] seek_chunk [OF fits refl 2(3)] s(1) es by simp
qed

lemma tl_last:
  assumes "tl_at tabs it es i" and e: "env_ok tabs env"
  shows "\<exists>it' env'. tl_SeekToLast it env = Some (it', env') \<and> env_ok tabs env'
    \<and> tl_at tabs it' es (if es = [] then 0 else length es - 1)"
proof -
  obtain t p q where mid: "tl_mid tabs it t p q" and es: "es = tf_entries t"
    using assms(1) by (rule tl_atE)
  have fits: "table_fits t" using mid by (simp add: tl_mid_def)
  let ?p = "if tf_chunks t = [] then 0 else length (tf_chunks t) - 1"
  have e0: "index_entries (tf_chunks t) = [] \<longleftrightarrow> tf_chunks t = []" by (simp add: index_entries_def)
  obtain idx where idx: "BlockIter_SeekToLast (tl_index_iter it) = Some idx" "iter_at idx (index_entries (tf_chunks t)) ?p"
    using iter_last [OF tl_at_index [OF mid]] unfolding e0 length_index_entries by blast
  obtain it1 it2 env1 where i: "InitDataBlock (it\<lparr>tl_index_iter := idx\<rparr>) env = (it1, env1)" "env_ok tabs env1"
      "case tl_data_iter it1 of None \<Rightarrow> it2 = it1
       | Some d \<Rightarrow> \<exists>d1. BlockIter_SeekToLast d = Some d1 \<and> it2 = it1\<lparr>tl_data_iter := Some d1\<rparr>"
      and m: "tl_mid tabs it2 t ?p (if ?p < length (tf_chunks t) then length (tf_chunks t ! ?p) - 1 else 0)"
    using last_of_chunk [OF mid e idx(2)] by blast
  have eq: "tl_SeekToLast it env = SkipEmptyDataBlocksBackward it2 env1"
    using idx(1) i(1,3) by (auto simp: tl_SeekToLast_def split: option.splits)
  show ?thesis
  proof (cases "tf_chunks t = []")
    case True
    then have m': "tl_mid tabs it2 t (length (tf_chunks t)) 0" using m by simp
    then show ?thesis unfolding eq using skip_off(2) [OF m'] i(2) tl_at_mid [OF m'] True es by (simp add: tf_entries_def tl_pos_def)
  next
    case False
    let ?q = "length (tf_chunks t ! ?p) - 1"
    have p: "?p < length (tf_chunks t)" using False by simp
    have ne: "0 < length (tf_chunks t ! ?p)" using table_fitsD(2) [OF fits p] by simp
    have m': "tl_mid tabs it2 t ?p ?q" using m p by simp
    have "tl_pos t ?p ?q = length es - 1"
      using tl_pos_Suc [OF p] ne False tl_pos_end [of t] unfolding es tl_pos_def by (simp del: length_greater_0_conv)
    moreover have "es \<noteq> []" using tl_pos_less(1) [OF p ne] es by auto
    moreover have "tl_Valid it2" using tl_Valid_mid [OF m'] p ne by simp
    ultimately show ?thesis unfolding eq using i(2) tl_at_mid [OF m'] ne es by (simp add: skip_valid)
  qed
qed

lemma tl_prev:
  assumes "tl_at tabs it es i" and "i < length es" and e: "env_ok tabs env"
  shows "\<exists>it' env'. tl_Prev it env = Some (it', env') \<and> env_ok tabs env'
    \<and> tl_at tabs it' es (if i = 0 then length es else i - 1)"
proof -
  obtain t p q where mid: "tl_mid tabs it t p q" and es: "es = tf_entries t" and i: "i = tl_pos t p q"
      and q: "p < length (tf_chunks t) \<longrightarrow> q < length (tf_chunks t ! p)"
    using assms(1) by (rule tl_atE)
  have fits: "table_fits t" using mid by (simp add: tl_mid_def)
  from mid show ?thesis
  proof (cases rule: tl_mid_cases)
    case off
    then show ?thesis using assms(2) es i by simp
  next
    case (on d)
    have qc: "q < length (tf_chunks t ! p)" using q on(2) by simp
    obtain d1 where d1: "BlockIter_Prev d = Some d1" "iter_at d1 (tf_chunks t ! p) (if q = 0 then length (tf_chunks t ! p) else q - 1)"
      using iter_prev [OF on(3) qc] by blast
    note s = skip_backward [OF tl_mid_data [OF mid on(1) d1(2)] e on(2)]
    have eq: "tl_Prev it env = SkipEmptyDataBlocksBackward (it\<lparr>tl_data_iter := Some d1\<rparr>) env"
      using on(1) d1(1) by (simp add: tl_Prev_def)
    have first: "tl_pos t p 0 = 0 \<longleftrightarrow> p = 0"
    proof
      assume z: "tl_pos t p 0 = 0"
      show "p = 0"
      proof (rule ccontr)
        assume "p \<noteq> 0"
        then have "tl_pos t p 0 = tl_pos t (p - 1) (length (tf_chunks t ! (p - 1)))" "tf_chunks t ! (p - 1) \<noteq> []"
          using tl_pos_Suc [of "p - 1" t] on(2) table_fitsD(2) [OF fits, of "p - 1"] by simp_all
        with z show False unfolding tl_pos_def by (metis add_is_0 length_0_conv)
      qed
    qed (simp add: tl_pos_def)
    have "(if (if q = 0 then length (tf_chunks t ! p) else q - 1) < length (tf_chunks t ! p)
          then tl_pos t p (if q = 0 then length (tf_chunks t ! p) else q - 1)
          else if p = 0 then length (tf_entries t) else tl_pos t p 0 - 1)
        = (if tl_pos t p q = 0 then length (tf_entries t) else tl_pos t p q - 1)"
    proof (cases "q = 0")
      case True
      then show ?thesis using first by simp
    next
      case False
      then have "tl_pos t p q \<noteq> 0" "tl_pos t p (q - 1) = tl_pos t p q - 1" "q - 1 < length (tf_chunks t ! p)"
        using qc by (simp_all add: tl_pos_def)
      then show ?thesis using False by simp
    qed
    from s [unfolded this] show ?thesis unfolding eq es i .
  qed
qed

interpretation table_iterator: bidirectional_iterator
  "env_ok tabs" "tl_at tabs" tl_Valid tl_Entry tl_SeekToFirst "\<lambda>target it env. the (tl_Seek target it env)"
  tl_Next "\<lambda>it env. the (tl_SeekToLast it env)" "\<lambda>it env. the (tl_Prev it env)"
  for tabs
proof unfold_locales
  fix it es i it' env env' target
  assume at: "tl_at tabs it es i"
  show "keys_sorted es \<and> i \<le> length es" "tl_Valid it = (i < length es)" using tl_at_basic [OF at] by blast+
  show "i < length es \<Longrightarrow> tl_Entry it = es ! i" using tl_at_basic(3) [OF at] .
  assume e: "env_ok tabs env"
  show "tl_SeekToFirst it env = (it', env') \<Longrightarrow> tl_at tabs it' es 0 \<and> env_ok tabs env'" using tl_first [OF at e] .
  show "the (tl_Seek target it env) = (it', env') \<Longrightarrow> tl_at tabs it' es (seek_pos target es) \<and> env_ok tabs env'"
    using tl_seek [OF at e, of target] by (metis option.sel prod.inject)
  show "the (tl_SeekToLast it env) = (it', env') \<Longrightarrow>
      tl_at tabs it' es (if es = [] then 0 else length es - 1) \<and> env_ok tabs env'"
    using tl_last [OF at e] by (metis option.sel prod.inject)
  assume i: "i < length es"
  show "tl_Next it env = (it', env') \<Longrightarrow> tl_at tabs it' es (Suc i) \<and> env_ok tabs env'" using tl_next [OF at i e] .
  show "the (tl_Prev it env) = (it', env') \<Longrightarrow>
      tl_at tabs it' es (if i = 0 then length es else i - 1) \<and> env_ok tabs env'"
    using tl_prev [OF at i e] by (metis option.sel prod.inject)
qed

lemma tl_at_status: "tl_at tabs it es i \<Longrightarrow> tl_status_of it = OK"
  by (auto simp: tl_at_def tl_mid_def tl_status_of_def iter_at_def split: option.splits)

section \<open>Properties\<close>

text \<open>C20: Iterating over a table from its first entry visits exactly the entries the table was built
  from, across all data blocks and in order, and then becomes invalid, with status OK
  throughout, whatever the cache already holds of this and other tables.\<close>

theorem table_iteration:
  assumes "env_ok tabs env" and "tabs n = Some t" and "reader_rep r n t" and "i \<le> length (tf_entries t)"
    and "((\<lambda>(it, env). tl_Next it env) ^^ i) (tl_SeekToFirst (TwoLevelIterator_new r) env) = (it, env')"
  shows "tl_status_of it = OK \<and> (tl_Valid it \<longleftrightarrow> i < length (tf_entries t))
    \<and> (i < length (tf_entries t) \<longrightarrow> tl_Entry it = tf_entries t ! i)"
proof -
  have "table_fits t" using assms(1,2) by (auto simp: env_ok_def)
  from tl_at_new [of tabs n t r, OF assms(2,3) this] have "tl_at tabs it (tf_entries t) i"
    using table_iterator.walk [OF _ assms(1,4)] assms(5) by fastforce
  then show ?thesis using tl_at_basic tl_at_status by blast
qed

lemma split_env:
  defines "w \<equiv> world0\<lparr>inodes := \<lambda>_. tf_bytes split_table\<rparr>"
  defines "r \<equiv> (SSTableReader_new default_options ''t'' 1 (of_nat (length (tf_bytes split_table))) (Some 0))
    \<lparr>sr_index_block := Block_new (table_index (tf_chunks split_table))\<rparr>"
  shows "env_ok [1 \<mapsto> split_table] (Some (BlockCache_new 1000), w)" and "reader_rep r 1 split_table"
  using split_table_fits
  by (simp_all add: w_def r_def env_ok_def world0_def coherent_empty reader_rep_def SSTableReader_new_def split_table_def)

theorem table_iteration_witness:
  "\<exists>r env it env'. tl_Next (fst (tl_SeekToFirst (TwoLevelIterator_new r) env)) (snd (tl_SeekToFirst (TwoLevelIterator_new r) env)) = (it, env')
     \<and> tl_Entry it = \<lparr>e_key = [97], e_seq = 4, e_type = 1, e_value = [5]\<rparr>"
proof -
  obtain r env where e: "env_ok [1 \<mapsto> split_table] env" "reader_rep r 1 split_table"
    by (rule that [OF split_env])
  obtain it0 env0 where 0: "tl_SeekToFirst (TwoLevelIterator_new r) env = (it0, env0)" by (metis surj_pair)
  obtain it env' where 1: "tl_Next it0 env0 = (it, env')" by (metis surj_pair)
  have "tl_Entry it = tf_entries split_table ! 1"
    using table_iteration [OF e(1) _ e(2), of 1 it env'] 0 1 by (simp add: split_table_def tf_entries_def)
  with 0 1 show ?thesis by (intro exI [of _ r] exI [of _ env]) (auto simp: split_table_def tf_entries_def)
qed

text \<open>C21: Seeking in a table is correct across data blocks: \<^verbatim>\<open>Seek\<close> returns, and stands at the
  first entry of the whole table whose user key is at least the target, or becomes invalid when
  there is none; from any entry \<^verbatim>\<open>Prev\<close> returns and stands at the entry before it.\<close>

theorem table_seek_prev:
  assumes "env_ok tabs env" and "tabs n = Some t" and "reader_rep r n t"
  shows "\<exists>it env'. tl_Seek target (TwoLevelIterator_new r) env = Some (it, env')
    \<and> (tl_Valid it \<longleftrightarrow> (\<exists>e \<in> set (tf_entries t). target \<le> e_key e))
    \<and> (tl_Valid it \<longrightarrow> (\<exists>i < length (tf_entries t). tl_Entry it = tf_entries t ! i \<and> target \<le> e_key (tf_entries t ! i)
        \<and> (\<forall>j < i. e_key (tf_entries t ! j) < target)
        \<and> (0 < i \<longrightarrow> (\<exists>it2 env2. tl_Prev it env' = Some (it2, env2) \<and> tl_Valid it2 \<and> tl_Entry it2 = tf_entries t ! (i - 1)))))"
proof -
  let ?es = "tf_entries t"
  define i where "i = seek_pos target ?es"
  have "table_fits t" using assms(1,2) by (auto simp: env_ok_def)
  from tl_seek [OF tl_at_new [of tabs n t r, OF assms(2,3) this] assms(1), of target] obtain it env' where
    s: "tl_Seek target (TwoLevelIterator_new r) env = Some (it, env')" "tl_at tabs it ?es i" "env_ok tabs env'"
    unfolding i_def by blast
  note b = tl_at_basic [OF s(2)]
  have ex: "i < length ?es \<longleftrightarrow> (\<exists>e \<in> set ?es. target \<le> e_key e)" unfolding i_def by (rule seek_pos_valid)
  have at: "target \<le> e_key (?es ! i) \<and> (\<forall>j < i. e_key (?es ! j) < target)" if "i < length ?es"
    using that at_seek_pos before_seek_pos unfolding i_def by blast
  have "\<exists>it2 env2. tl_Prev it env' = Some (it2, env2) \<and> tl_Valid it2 \<and> tl_Entry it2 = ?es ! (i - 1)"
    if i: "i < length ?es" "0 < i"
  proof -
    obtain it2 env2 where p: "tl_Prev it env' = Some (it2, env2)" "tl_at tabs it2 ?es (i - 1)"
      using tl_prev [OF s(2) i(1) s(3)] i(2) by auto
    show ?thesis using p(1) tl_at_basic [OF p(2)] i by auto
  qed
  with s(1) b ex at show ?thesis by (intro exI [of _ it] exI [of _ env']) blast
qed

theorem table_seek_prev_witness:
  "\<exists>r env it env'. tl_Seek [97] (TwoLevelIterator_new r) env = Some (it, env') \<and> tl_Valid it \<and> e_key (tl_Entry it) \<ge> [97]"
proof -
  obtain r env where e: "env_ok [1 \<mapsto> split_table] env" "reader_rep r 1 split_table"
    by (rule that [OF split_env])
  have "\<exists>e \<in> set (tf_entries split_table). [97] \<le> e_key e" by (simp add: split_table_def tf_entries_def)
  moreover have "[1 \<mapsto> split_table] 1 = Some split_table" by simp
  note table_seek_prev [OF e(1) this e(2), of "[97]"]
  ultimately obtain it env' where s: "tl_Seek [97] (TwoLevelIterator_new r) env = Some (it, env')" "tl_Valid it"
      "\<exists>i. tl_Entry it = tf_entries split_table ! i \<and> [97] \<le> e_key (tf_entries split_table ! i)" by blast
  then have "[97] \<le> e_key (tl_Entry it)" by auto
  with s(1,2) show ?thesis by blast
qed

end
