(* ===== verification/Skiplist.thy ===== *)
theory Skiplist
  imports Slice_Format "HOL-Library.Sublist" "HOL-Library.Monad_Syntax"
begin

text \<open>
  The skip list of the memtable (src/skiplist.h) over a heap of nodes.  A node is an address;
  its key, its allocated number of links and its links are fields of the list.  The head has
  address 0.  The values the random generator delivers are a parameter, \<open>dist n\<close> being the
  \<open>n\<close>-th one, and the lemmas hold for every such sequence.  A link outside a node's
  allocation, and an entry of \<^verbatim>\<open>prev\<close> that was never set, is \<open>None\<close>, as is a search that does not
  return.

  \<open>sl_wf\<close> is the representation invariant: on every level the links from the head form a
  chain, each level's chain is a subsequence of the one below, and the lowest is in strictly
  ascending order.  It does not ask that a node is linked on all its levels, so it also holds
  between the stores of an insertion, when readers may already walk the list.
\<close>

definition kMaxHeight :: nat where "kMaxHeight = 16"

record 'k SkipList =
  sl_key :: "nat \<Rightarrow> 'k"
  sl_next :: "nat \<Rightarrow> nat \<Rightarrow> nat option"
  sl_height :: "nat \<Rightarrow> nat"
  sl_nodes :: nat
  sl_max_height :: nat
  sl_rng :: nat

definition Node_Next :: "'k SkipList \<Rightarrow> nat \<Rightarrow> nat \<Rightarrow> nat option option" where
  "Node_Next sl x n = (if n < sl_height sl x then Some (sl_next sl x n) else None)"

definition SetNext :: "nat \<Rightarrow> nat \<Rightarrow> nat option \<Rightarrow> 'k SkipList \<Rightarrow> 'k SkipList option" where
  "SetNext x n y sl =
     (if n < sl_height sl x then Some (sl\<lparr>sl_next := (sl_next sl)(x := (sl_next sl x)(n := y))\<rparr>) else None)"

definition NewNode :: "'k \<Rightarrow> nat \<Rightarrow> 'k SkipList \<Rightarrow> nat \<times> 'k SkipList" where
  "NewNode key height sl =
     (let x = sl_nodes sl
      in (x, sl\<lparr>sl_key := (sl_key sl)(x := key), sl_next := (sl_next sl)(x := \<lambda>_. None),
              sl_height := (sl_height sl)(x := if height > 0 then height else 1), sl_nodes := Suc x\<rparr>))"

definition SkipList_new :: "'k \<Rightarrow> 'k SkipList" where
  "SkipList_new k0 =
     snd (NewNode k0 kMaxHeight \<lparr>sl_key = \<lambda>_. k0, sl_next = \<lambda>_ _. None, sl_height = \<lambda>_. 0,
       sl_nodes = 0, sl_max_height = 1, sl_rng = 0\<rparr>)"

function random_height :: "(nat \<Rightarrow> nat) \<Rightarrow> nat \<Rightarrow> nat \<Rightarrow> nat \<times> nat" where
  "random_height dist height n =
     (if height < kMaxHeight
      then if dist n = 0 then random_height dist (height + 1) (n + 1) else (height, n + 1)
      else (height, n))"
  by pat_completeness auto
termination
  by (relation "measure (\<lambda>(_, height, _). kMaxHeight - height)") auto

declare random_height.simps [simp del]

definition RandomHeight :: "(nat \<Rightarrow> nat) \<Rightarrow> nat \<Rightarrow> nat \<times> nat" where
  "RandomHeight dist n = random_height dist 1 n"

definition KeyIsAfterNode :: "('k \<Rightarrow> 'k \<Rightarrow> int) \<Rightarrow> 'k SkipList \<Rightarrow> 'k \<Rightarrow> nat option \<Rightarrow> bool" where
  "KeyIsAfterNode cmp sl key n =
     (case n of None \<Rightarrow> False | Some x \<Rightarrow> x \<noteq> 0 \<and> cmp (sl_key sl x) key < 0)"

text \<open>
  The loop of the three searches: go right while the test on the next node holds, else go
  down; \<open>prev\<close> records where each level was left.
\<close>

partial_function (option) descend ::
  "(nat option \<Rightarrow> bool) \<Rightarrow> 'k SkipList \<Rightarrow> nat \<Rightarrow> nat \<Rightarrow> (nat \<rightharpoonup> nat) \<Rightarrow> (nat \<times> nat option \<times> (nat \<rightharpoonup> nat)) option" where
  "descend go sl x level prev = do {
     next \<leftarrow> Node_Next sl x level;
     if go next then descend go sl (the next) level prev
     else if level = 0 then Some (x, next, prev(level \<mapsto> x))
     else descend go sl x (level - 1) (prev(level \<mapsto> x))
   }"

declare descend.simps [code]

definition FindGreaterOrEqual ::
  "('k \<Rightarrow> 'k \<Rightarrow> int) \<Rightarrow> 'k SkipList \<Rightarrow> 'k \<Rightarrow> (nat option \<times> (nat \<rightharpoonup> nat)) option" where
  "FindGreaterOrEqual cmp sl key =
     map_option snd (descend (KeyIsAfterNode cmp sl key) sl 0 (sl_max_height sl - 1) Map.empty)"

definition FindLessThan :: "('k \<Rightarrow> 'k \<Rightarrow> int) \<Rightarrow> 'k SkipList \<Rightarrow> 'k \<Rightarrow> nat option" where
  "FindLessThan cmp sl key =
     map_option fst (descend (\<lambda>n. case n of None \<Rightarrow> False | Some y \<Rightarrow> \<not> cmp (sl_key sl y) key \<ge> 0)
       sl 0 (sl_max_height sl - 1) Map.empty)"

definition FindLast :: "'k SkipList \<Rightarrow> nat option" where
  "FindLast sl = map_option fst (descend (\<lambda>n. n \<noteq> None) sl 0 (sl_max_height sl - 1) Map.empty)"

text \<open>The stores of an insertion, level by level from the lowest.\<close>

definition link_level :: "(nat \<rightharpoonup> nat) \<Rightarrow> nat \<Rightarrow> nat \<Rightarrow> 'k SkipList \<Rightarrow> 'k SkipList option" where
  "link_level prev x i sl = do {
     p \<leftarrow> prev i;
     n \<leftarrow> Node_Next sl p i;
     sl1 \<leftarrow> SetNext x i n sl;
     SetNext p i (Some x) sl1
   }"

primrec link_levels :: "(nat \<rightharpoonup> nat) \<Rightarrow> nat \<Rightarrow> nat \<Rightarrow> 'k SkipList \<Rightarrow> 'k SkipList option" where
  "link_levels prev x 0 sl = Some sl"
| "link_levels prev x (Suc i) sl = do { sl1 \<leftarrow> link_levels prev x i sl; link_level prev x i sl1 }"

text \<open>What \<^verbatim>\<open>Insert\<close> does before it links the node.\<close>

definition prepare_insert ::
  "(nat \<Rightarrow> nat) \<Rightarrow> 'k \<Rightarrow> (nat \<rightharpoonup> nat) \<Rightarrow> 'k SkipList \<Rightarrow> nat \<times> nat \<times> (nat \<rightharpoonup> nat) \<times> 'k SkipList" where
  "prepare_insert dist key prev sl =
     (let (height, rng) = RandomHeight dist (sl_rng sl);
          sl1 = sl\<lparr>sl_rng := rng\<rparr>;
          (prev1, sl2) =
            (if height > sl_max_height sl1
             then (\<lambda>i. if sl_max_height sl1 \<le> i \<and> i < height then Some 0 else prev i, sl1\<lparr>sl_max_height := height\<rparr>)
             else (prev, sl1));
          (x, sl3) = NewNode key height sl2
      in (x, height, prev1, sl3))"

definition SkipList_Insert ::
  "('k \<Rightarrow> 'k \<Rightarrow> int) \<Rightarrow> (nat \<Rightarrow> nat) \<Rightarrow> 'k \<Rightarrow> 'k SkipList \<Rightarrow> 'k SkipList option" where
  "SkipList_Insert cmp dist key sl = do {
     (x, prev) \<leftarrow> FindGreaterOrEqual cmp sl key;
     let (x, height, prev1, sl1) = prepare_insert dist key prev sl;
     link_levels prev1 x height sl1
   }"

definition SkipList_Contains :: "('k \<Rightarrow> 'k \<Rightarrow> int) \<Rightarrow> 'k \<Rightarrow> 'k SkipList \<Rightarrow> bool option" where
  "SkipList_Contains cmp key sl = do {
     (x, _) \<leftarrow> FindGreaterOrEqual cmp sl key;
     Some (case x of None \<Rightarrow> False | Some n \<Rightarrow> cmp key (sl_key sl n) = 0)
   }"

text \<open>The iterator is the node it stands at; moving it reads the list.\<close>

definition sl_SeekToFirst :: "'k SkipList \<Rightarrow> nat option option" where
  "sl_SeekToFirst sl = Node_Next sl 0 0"

definition sl_SeekToLast :: "'k SkipList \<Rightarrow> nat option option" where
  "sl_SeekToLast sl = do { n \<leftarrow> FindLast sl; Some (if n = 0 then None else Some n) }"

definition sl_Seek :: "('k \<Rightarrow> 'k \<Rightarrow> int) \<Rightarrow> 'k \<Rightarrow> 'k SkipList \<Rightarrow> nat option option" where
  "sl_Seek cmp target sl = map_option fst (FindGreaterOrEqual cmp sl target)"

definition sl_Next :: "nat \<Rightarrow> 'k SkipList \<Rightarrow> nat option option" where
  "sl_Next node sl = Node_Next sl node 0"

definition sl_Prev :: "('k \<Rightarrow> 'k \<Rightarrow> int) \<Rightarrow> nat \<Rightarrow> 'k SkipList \<Rightarrow> nat option option" where
  "sl_Prev cmp node sl = do {
     n \<leftarrow> FindLessThan cmp sl (sl_key sl node);
     Some (if n = 0 then None else Some n)
   }"

section \<open>Representation invariant\<close>

fun chain :: "'k SkipList \<Rightarrow> nat \<Rightarrow> nat \<Rightarrow> nat list \<Rightarrow> bool" where
  "chain sl l x [] \<longleftrightarrow> sl_next sl x l = None"
| "chain sl l x (y # ys) \<longleftrightarrow> sl_next sl x l = Some y \<and> chain sl l y ys"

definition sl_wf :: "('k \<Rightarrow> 'k \<Rightarrow> int) \<Rightarrow> 'k SkipList \<Rightarrow> (nat \<Rightarrow> nat list) \<Rightarrow> bool" where
  "sl_wf cmp sl ch \<longleftrightarrow>
     (\<forall>l < kMaxHeight. chain sl l 0 (ch l) \<and> (\<forall>n \<in> set (ch l). 0 < n \<and> n < sl_nodes sl \<and> l < sl_height sl n)) \<and>
     (\<forall>l. Suc l < kMaxHeight \<longrightarrow> subseq (ch (Suc l)) (ch l)) \<and>
     sorted_wrt (\<lambda>m n. cmp (sl_key sl m) (sl_key sl n) < 0) (ch 0) \<and>
     sl_height sl 0 = kMaxHeight \<and> 0 < sl_nodes sl \<and> 1 \<le> sl_max_height sl \<and> sl_max_height sl \<le> kMaxHeight \<and>
     (\<forall>l. sl_max_height sl \<le> l \<and> l < kMaxHeight \<longrightarrow> ch l = [])"

definition sl_rep :: "('k \<Rightarrow> 'k \<Rightarrow> int) \<Rightarrow> 'k SkipList \<Rightarrow> 'k list \<Rightarrow> bool" where
  "sl_rep cmp sl ks \<longleftrightarrow> (\<exists>ch. sl_wf cmp sl ch \<and> map (sl_key sl) (ch 0) = ks)"

lemma random_height_bounds:
  "random_height dist height n = (h, m) \<Longrightarrow> height \<le> kMaxHeight \<Longrightarrow> height \<le> h \<and> h \<le> kMaxHeight"
proof (induction dist height n rule: random_height.induct)
  case (1 dist height n)
  then show ?case by (subst (asm) (2) random_height.simps) (auto split: if_splits)
qed

lemma sl_wfD:
  assumes "sl_wf cmp sl ch"
  shows "\<And>l. l < kMaxHeight \<Longrightarrow> chain sl l 0 (ch l)"
    "\<And>l n. l < kMaxHeight \<Longrightarrow> n \<in> set (ch l) \<Longrightarrow> 0 < n \<and> n < sl_nodes sl \<and> l < sl_height sl n"
    "\<And>l. Suc l < kMaxHeight \<Longrightarrow> subseq (ch (Suc l)) (ch l)"
    "sorted_wrt (\<lambda>m n. cmp (sl_key sl m) (sl_key sl n) < 0) (ch 0)"
    "sl_height sl 0 = kMaxHeight" "0 < sl_nodes sl" "1 \<le> sl_max_height sl" "sl_max_height sl \<le> kMaxHeight"
    "\<And>l. sl_max_height sl \<le> l \<Longrightarrow> l < kMaxHeight \<Longrightarrow> ch l = []"
  using assms unfolding sl_wf_def by blast+

lemma chain_next:
  "chain sl l x (us @ y # vs) \<Longrightarrow> sl_next sl y l = (case vs of [] \<Rightarrow> None | z # _ \<Rightarrow> Some z)"
  by (induction us arbitrary: x) (auto split: list.split)

lemma chain_next_head:
  "chain sl l x ns \<Longrightarrow> x # ns = us @ y # vs \<Longrightarrow> sl_next sl y l = (case vs of [] \<Rightarrow> None | z # _ \<Rightarrow> Some z)"
  by (cases us) (cases ns, auto dest: chain_next)

text \<open>
  A test that holds on a beginning of every chain and on no node after it splits each chain; the
  searches stop at the border.
\<close>

definition splits :: "(nat \<Rightarrow> bool) \<Rightarrow> (nat \<Rightarrow> nat list) \<Rightarrow> bool" where
  "splits P ch \<longleftrightarrow> (\<forall>l < kMaxHeight. ch l = filter P (ch l) @ filter (\<lambda>n. \<not> P n) (ch l))"

definition border :: "(nat \<Rightarrow> bool) \<Rightarrow> (nat \<Rightarrow> nat list) \<Rightarrow> nat \<Rightarrow> nat" where
  "border P ch l = last (0 # filter P (ch l))"

definition first_opt :: "'a list \<Rightarrow> 'a option" where
  "first_opt xs = (case xs of [] \<Rightarrow> None | x # _ \<Rightarrow> Some x)"

lemma first_opt_simps [simp]: "first_opt [] = None" "first_opt (x # xs) = Some x"
  by (simp_all add: first_opt_def)

lemma subseq_set: "subseq xs ys \<Longrightarrow> set xs \<subseteq> set ys"
  by (metis set_nths_subset subseq_conv_nths)

lemma sorted_wrt_subseq: "subseq xs ys \<Longrightarrow> sorted_wrt R ys \<Longrightarrow> sorted_wrt R xs"
  by (induction rule: list_emb.induct) (auto dest: subseq_set)

lemma chain_subseq:
  assumes "sl_wf cmp sl ch"
  shows "l < kMaxHeight \<Longrightarrow> subseq (ch l) (ch 0)"
  by (induction l) (use sl_wfD(3) [OF assms] subseq_order.order_trans in auto)

lemma chain_set_mono:
  assumes "sl_wf cmp sl ch" and "Suc l < kMaxHeight"
  shows "set (filter P (ch (Suc l))) \<subseteq> set (filter P (ch l))"
  using subseq_filter [OF sl_wfD(3) [OF assms]] by (rule subseq_set)

lemma descend_step:
  assumes wf: "sl_wf cmp sl ch" and l: "l < kMaxHeight" and sp: "splits P ch"
    and at: "0 # filter P (ch l) = us @ x # vs"
  shows "Node_Next sl x l = Some (first_opt (vs @ filter (\<lambda>n. \<not> P n) (ch l)))"
proof -
  let ?c = "vs @ filter (\<lambda>n. \<not> P n) (ch l)"
  have eq: "0 # ch l = us @ x # ?c"
    using at sp l unfolding splits_def by (metis append.assoc append_Cons)
  have "x = 0 \<or> x \<in> set (ch l)"
  proof (cases us)
    case Nil
    then show ?thesis using at by simp
  next
    case (Cons u us')
    then have "x \<in> set (filter P (ch l))" using at by simp
    then show ?thesis by simp
  qed
  then have "l < sl_height sl x" using sl_wfD(2,5) [OF wf] l by auto
  then show ?thesis
    using chain_next_head [OF sl_wfD(1) [OF wf l] eq] by (simp add: Node_Next_def first_opt_def)
qed

lemma descend_ok:
  assumes wf: "sl_wf cmp sl ch" and sp: "splits P ch" and "l < kMaxHeight"
    and go: "\<And>n. n \<in> set (ch 0) \<Longrightarrow> go (Some n) \<longleftrightarrow> P n" "\<not> go None"
    and "0 # filter P (ch l) = us @ x # vs"
  shows "descend go sl x l prev = Some (border P ch 0, first_opt (filter (\<lambda>n. \<not> P n) (ch 0)),
    \<lambda>i. if i \<le> l then Some (border P ch i) else prev i)"
  using assms(3,6)
proof (induction l arbitrary: us x vs prev)
  case 0
  then show ?case
  proof (induction vs arbitrary: us x)
    case Nil
    have b: "x = border P ch 0" using Nil.prems(2) by (simp add: border_def)
    have n: "Node_Next sl x 0 = Some (first_opt (filter (\<lambda>n. \<not> P n) (ch 0)))"
      using descend_step [OF wf _ sp Nil.prems(2)] Nil.prems(1) by simp
    have "\<not> go (first_opt (filter (\<lambda>n. \<not> P n) (ch 0)))"
      using go(2) go(1) [of "hd (filter (\<lambda>n. \<not> P n) (ch 0))"]
      by (cases "filter (\<lambda>n. \<not> P n) (ch 0)") (auto simp: filter_eq_Cons_iff)
    then show ?case using n b by (subst descend.simps) (auto simp: fun_eq_iff)
  next
    case (Cons v vs)
    have n: "Node_Next sl x 0 = Some (Some v)"
      using descend_step [OF wf _ sp Cons.prems(2)] Cons.prems(1) by simp
    have "v \<in> set (filter P (ch 0))"
      using Cons.prems(2) by (cases us) auto
    then have "go (Some v)" using go(1) by auto
    moreover have "descend go sl v 0 prev = Some (border P ch 0, first_opt (filter (\<lambda>n. \<not> P n) (ch 0)),
        \<lambda>i. if i \<le> 0 then Some (border P ch i) else prev i)"
      using Cons.IH [of "us @ [x]" v] Cons.prems by simp
    ultimately show ?case using n by (subst descend.simps) simp
  qed
next
  case (Suc l)
  have all: "set (ch (Suc l)) \<subseteq> set (ch 0)"
    using chain_subseq [OF wf Suc.prems(1)] by (rule subseq_set)
  from Suc.prems show ?case
  proof (induction vs arbitrary: us x)
    case Nil
    have b: "x = border P ch (Suc l)" using Nil.prems(2) by (simp add: border_def)
    let ?n = "first_opt (filter (\<lambda>n. \<not> P n) (ch (Suc l)))"
    have n: "Node_Next sl x (Suc l) = Some ?n" using descend_step [OF wf _ sp Nil.prems(2)] Nil.prems(1) by simp
    have "\<not> go ?n"
      using go(2) go(1) [of "hd (filter (\<lambda>n. \<not> P n) (ch (Suc l)))"] all
      by (cases "filter (\<lambda>n. \<not> P n) (ch (Suc l))") (auto simp: filter_eq_Cons_iff)
    moreover have "x = 0 \<or> x \<in> set (filter P (ch (Suc l)))" using Nil.prems(2) by (cases us) auto
    then have "x \<in> set (0 # filter P (ch l))" using chain_set_mono [OF wf Nil.prems(1), of P] by auto
    then obtain us' vs' where at: "0 # filter P (ch l) = us' @ x # vs'" by (meson split_list)
    define prev1 where "prev1 = prev(Suc l \<mapsto> x)"
    have p: "(\<lambda>i. if i \<le> l then Some (border P ch i) else prev1 i)
        = (\<lambda>i. if i \<le> Suc l then Some (border P ch i) else prev i)"
      using b by (auto simp: prev1_def fun_eq_iff le_Suc_eq)
    note Suc.IH [OF _ at, of prev1, unfolded p]
    ultimately show ?case using n Nil.prems(1) by (subst descend.simps) (simp add: prev1_def [symmetric])
  next
    case (Cons v vs)
    have n: "Node_Next sl x (Suc l) = Some (Some v)"
      using descend_step [OF wf _ sp Cons.prems(2)] Cons.prems(1) by simp
    have "v \<in> set (filter P (ch (Suc l)))"
      using Cons.prems(2) by (cases us) auto
    then have "go (Some v)" using go(1) all by auto
    moreover note Cons.IH [of "us @ [x]" v]
    ultimately show ?case using n Cons.prems by (subst descend.simps) simp
  qed
qed

lemma filter_split_sorted:
  assumes "sorted_wrt R xs" and "\<And>a b. R a b \<Longrightarrow> P b \<Longrightarrow> P a"
  shows "xs = filter P xs @ filter (\<lambda>x. \<not> P x) xs"
  using assms(1)
proof (induction xs)
  case (Cons x xs)
  show ?case
  proof (cases "P x")
    case False
    then have "filter P xs = []" "filter (\<lambda>x. \<not> P x) xs = xs" using Cons.prems assms(2) by (auto simp: filter_id_conv filter_empty_conv)
    with False show ?thesis by simp
  qed (use Cons in simp)
qed simp

lemma splitsI:
  assumes "sl_wf cmp sl ch" and "\<And>m n. cmp (sl_key sl m) (sl_key sl n) < 0 \<Longrightarrow> P n \<Longrightarrow> P m"
  shows "splits P ch"
  unfolding splits_def
proof (intro allI impI)
  fix l assume l: "l < kMaxHeight"
  have "sorted_wrt (\<lambda>m n. cmp (sl_key sl m) (sl_key sl n) < 0) (ch l)"
    using chain_subseq [OF assms(1) l] sl_wfD(4) [OF assms(1)] by (rule sorted_wrt_subseq)
  then show "ch l = filter P (ch l) @ filter (\<lambda>n. \<not> P n) (ch l)"
    by (rule filter_split_sorted) (rule assms(2))
qed

lemma chain_cong: "sl_next sl = sl_next sl' \<Longrightarrow> chain sl l x ns \<longleftrightarrow> chain sl' l x ns"
  by (induction ns arbitrary: x) auto

lemma chain_other_level:
  "j \<noteq> i \<Longrightarrow> chain (sl\<lparr>sl_next := (sl_next sl)(p := (sl_next sl p)(i := v))\<rparr>) j x ns \<longleftrightarrow> chain sl j x ns"
  by (induction ns arbitrary: x) auto

lemma chain_other_node:
  "p \<notin> set (x # ns) \<Longrightarrow> chain (sl\<lparr>sl_next := (sl_next sl)(p := f)\<rparr>) j x ns \<longleftrightarrow> chain sl j x ns"
  by (induction ns arbitrary: x) auto

text \<open>Linking a new node behind the last node of the first part of a chain.\<close>

lemma chain_link:
  assumes "chain sl l y (A @ B)" and "distinct (y # A @ B)" and "x \<notin> set (y # A @ B)" and "p = last (y # A)"
    and "sl_next sl' p l = Some x" and "sl_next sl' x l = sl_next sl p l"
    and "\<And>n. n \<noteq> p \<Longrightarrow> n \<noteq> x \<Longrightarrow> sl_next sl' n l = sl_next sl n l"
  shows "chain sl' l y (A @ x # B)"
  using assms(1-4)
proof (induction A arbitrary: y)
  case Nil
  have "chain sl' l b B'" if "chain sl l b B'" "p \<notin> set (b # B')" "x \<notin> set (b # B')" for b B'
    using that assms(7) by (induction B' arbitrary: b) auto
  with Nil assms(5,6) show ?case by (cases B) auto
next
  case (Cons a A)
  then have "y \<noteq> p" using last_in_set [of "a # A"] by auto
  with Cons show ?case using assms(7) [of y] by (auto split: if_splits)
qed

context comparator
begin

abbreviation before :: "'e SkipList \<Rightarrow> 'e \<Rightarrow> nat \<Rightarrow> bool" where
  "before sl key n \<equiv> cmp (sl_key sl n) key < 0"

lemma splits_before: "sl_wf cmp sl ch \<Longrightarrow> splits (before sl key) ch"
  by (erule splitsI) (auto intro: cmp_trans)

lemma search_ok:
  assumes wf: "sl_wf cmp sl ch" and "splits P ch"
    and "\<And>n. n \<in> set (ch 0) \<Longrightarrow> go (Some n) \<longleftrightarrow> P n" "\<not> go None"
  shows "descend go sl 0 (sl_max_height sl - 1) Map.empty = Some (border P ch 0, first_opt (filter (\<lambda>n. \<not> P n) (ch 0)),
    \<lambda>i. if i < sl_max_height sl then Some (border P ch i) else None)"
proof -
  have l: "sl_max_height sl - 1 < kMaxHeight" "\<And>i. i \<le> sl_max_height sl - 1 \<longleftrightarrow> i < sl_max_height sl"
    using sl_wfD(7,8) [OF wf] by auto
  show ?thesis
    using descend_ok [OF wf assms(2) l(1), of go "[]" 0 "filter P (ch (sl_max_height sl - 1))" Map.empty] assms(3,4)
    unfolding l(2) by simp
qed

lemma FindGreaterOrEqual_ok:
  assumes "sl_wf cmp sl ch"
  shows "FindGreaterOrEqual cmp sl key = Some (first_opt (filter (\<lambda>n. \<not> before sl key n) (ch 0)),
    \<lambda>i. if i < sl_max_height sl then Some (border (before sl key) ch i) else None)"
proof -
  have "0 < n" if "n \<in> set (ch 0)" for n using sl_wfD(2) [OF assms, of 0] that by (simp add: kMaxHeight_def)
  then show ?thesis
    using search_ok [OF assms splits_before [OF assms, of key], of "KeyIsAfterNode cmp sl key"]
    by (simp add: FindGreaterOrEqual_def KeyIsAfterNode_def)
qed

lemma FindLessThan_ok:
  assumes "sl_wf cmp sl ch"
  shows "FindLessThan cmp sl key = Some (border (before sl key) ch 0)"
  using search_ok [OF assms splits_before [OF assms, of key],
      of "\<lambda>n. case n of None \<Rightarrow> False | Some y \<Rightarrow> \<not> cmp (sl_key sl y) key \<ge> 0"]
  by (simp add: FindLessThan_def not_le)

lemma FindLast_ok: "sl_wf cmp sl ch \<Longrightarrow> FindLast sl = Some (last (0 # ch 0))"
  using search_ok [of sl ch "\<lambda>_. True" "\<lambda>n. n \<noteq> None"]
  by (simp add: FindLast_def splits_def border_def)

end

section \<open>Insertion\<close>

text \<open>The chains after the lowest \<open>i\<close> levels of node \<open>x\<close> are linked.\<close>

definition linked :: "(nat \<Rightarrow> bool) \<Rightarrow> nat \<Rightarrow> nat \<Rightarrow> (nat \<Rightarrow> nat list) \<Rightarrow> nat \<Rightarrow> nat list" where
  "linked P x i ch l = (if l < i then filter P (ch l) @ x # filter (\<lambda>n. \<not> P n) (ch l) else ch l)"

lemma linked_0 [simp]: "linked P x 0 ch = ch"
  by (simp add: linked_def fun_eq_iff)

lemma subseq_linked:
  assumes "subseq (ch (Suc l)) (ch l)" and "splits P ch" and "Suc l < kMaxHeight"
  shows "subseq (linked P x i ch (Suc l)) (linked P x i ch l)"
proof -
  have eq: "ch l = filter P (ch l) @ filter (\<lambda>n. \<not> P n) (ch l)"
    "ch (Suc l) = filter P (ch (Suc l)) @ filter (\<lambda>n. \<not> P n) (ch (Suc l))"
    using assms(2,3) unfolding splits_def by (meson Suc_lessD)+
  have f: "subseq (filter Q (ch (Suc l))) (filter Q (ch l))" for Q using assms(1) by (rule subseq_filter)
  have both: "subseq (filter P (ch (Suc l)) @ x # filter (\<lambda>n. \<not> P n) (ch (Suc l)))
      (filter P (ch l) @ x # filter (\<lambda>n. \<not> P n) (ch l))"
    using f by (intro list_emb_append_mono) simp_all
  have "subseq (filter P (ch l) @ filter (\<lambda>n. \<not> P n) (ch l)) (filter P (ch l) @ x # filter (\<lambda>n. \<not> P n) (ch l))"
    by (simp add: subseq_append' list_emb_Cons)
  with assms(1) eq(1) have "subseq (ch (Suc l)) (filter P (ch l) @ x # filter (\<lambda>n. \<not> P n) (ch l))"
    by (metis subseq_order.order_trans)
  with both assms(1) show ?thesis by (auto simp: linked_def)
qed

definition fresh_node :: "'k SkipList \<Rightarrow> (nat \<Rightarrow> nat list) \<Rightarrow> nat \<Rightarrow> bool" where
  "fresh_node sl ch x \<longleftrightarrow> 0 < x \<and> x < sl_nodes sl \<and> (\<forall>l < kMaxHeight. x \<notin> set (ch l))"

text \<open>One store sequence of the loop; \<open>sl_frame\<close> is what linking leaves alone.\<close>

definition sl_frame :: "'k SkipList \<Rightarrow> 'k SkipList \<Rightarrow> bool" where
  "sl_frame sl sl' \<longleftrightarrow> sl_key sl' = sl_key sl \<and> sl_height sl' = sl_height sl \<and> sl_nodes sl' = sl_nodes sl
     \<and> sl_max_height sl' = sl_max_height sl \<and> sl_rng sl' = sl_rng sl"

lemma sl_frame_refl: "sl_frame sl sl"
  by (simp add: sl_frame_def)

lemma sl_frame_trans: "sl_frame sl sl' \<Longrightarrow> sl_frame sl' sl'' \<Longrightarrow> sl_frame sl sl''"
  by (simp add: sl_frame_def)

lemma border_in: "border P ch l = 0 \<or> border P ch l \<in> set (filter P (ch l))"
  using last_in_set [of "filter P (ch l)"] by (auto simp: border_def)

context comparator
begin

lemma chain_distinct:
  assumes "sl_wf cmp sl ch" and "l < kMaxHeight"
  shows "distinct (0 # ch l)"
proof -
  have "sorted_wrt (\<lambda>m n. cmp (sl_key sl m) (sl_key sl n) < 0) (ch l)"
    using chain_subseq [OF assms] sl_wfD(4) [OF assms(1)] by (rule sorted_wrt_subseq)
  then have "sorted_wrt (\<lambda>a b. cmp a b < 0) (map (sl_key sl) (ch l))" by (simp add: sorted_wrt_map)
  then have "distinct (ch l)" using sorted_wrt_cmp_distinct distinct_map by blast
  then show ?thesis using sl_wfD(2) [OF assms] by auto
qed

text \<open>The first store of a level fills the link of the new node, which no reader can reach yet.\<close>

lemma store_ok:
  assumes wf: "sl_wf cmp sl (linked P x i ch)" and x: "fresh_node sl ch x" and i: "i < sl_height sl x" "i < kMaxHeight"
  shows "\<exists>sl1. SetNext x i v sl = Some sl1 \<and> sl_frame sl sl1 \<and> sl_wf cmp sl1 (linked P x i ch)
    \<and> sl_next sl1 x i = v \<and> (\<forall>y. y \<noteq> x \<longrightarrow> sl_next sl1 y = sl_next sl y)"
proof -
  define sl1 where "sl1 = sl\<lparr>sl_next := (sl_next sl)(x := (sl_next sl x)(i := v))\<rparr>"
  note W = sl_wfD [OF wf]
  have "chain sl1 l 0 (linked P x i ch l)" if l: "l < kMaxHeight" for l
  proof (cases "l = i")
    case True
    then have "x \<notin> set (0 # linked P x i ch l)" using x i by (auto simp: linked_def fresh_node_def)
    then have "chain sl1 l 0 (linked P x i ch l) \<longleftrightarrow> chain sl l 0 (linked P x i ch l)"
      unfolding sl1_def by (rule chain_other_node)
    then show ?thesis using W(1) [OF l] by simp
  next
    case False
    then have "chain sl1 l 0 (linked P x i ch l) \<longleftrightarrow> chain sl l 0 (linked P x i ch l)"
      unfolding sl1_def by (rule chain_other_level)
    then show ?thesis using W(1) [OF l] by simp
  qed
  then have "sl_wf cmp sl1 (linked P x i ch)"
    using W(2-9) unfolding sl_wf_def sl1_def by simp
  moreover have "SetNext x i v sl = Some sl1" using i by (simp add: SetNext_def sl1_def)
  moreover have "sl_frame sl sl1" "sl_next sl1 x i = v" "\<forall>y. y \<noteq> x \<longrightarrow> sl_next sl1 y = sl_next sl y"
    by (simp_all add: sl_frame_def sl1_def)
  ultimately show ?thesis by blast
qed

text \<open>The second store publishes the node on the level.\<close>

lemma publish_ok:
  assumes wf0: "sl_wf cmp sl0 ch" and wf: "sl_wf cmp sl (linked P x i ch)" and sp: "splits P ch" and x: "fresh_node sl ch x"
    and i: "i < sl_height sl x" "sl_height sl x \<le> sl_max_height sl"
    and nx: "sl_next sl x i = sl_next sl (border P ch i) i"
    and P: "\<And>n. n \<in> set (ch 0) \<Longrightarrow> if P n then cmp (sl_key sl n) (sl_key sl x) < 0 else cmp (sl_key sl x) (sl_key sl n) < 0"
  shows "\<exists>sl'. SetNext (border P ch i) i (Some x) sl = Some sl' \<and> sl_frame sl sl' \<and> sl_wf cmp sl' (linked P x (Suc i) ch)"
proof -
  note W = sl_wfD [OF wf]
  let ?p = "border P ch i"
  have i16: "i < kMaxHeight" using i W(8) by simp
  have ci: "chain sl i 0 (ch i)" using W(1) [OF i16] by (simp add: linked_def)
  have p: "?p \<in> set (0 # ch i)" using border_in [of P ch i] by auto
  then have hp: "i < sl_height sl ?p" using W(2) [OF i16] W(5) i16 by (auto simp: linked_def)
  have px: "?p \<noteq> x" using p x i16 by (auto simp: fresh_node_def)
  define sl' where "sl' = sl\<lparr>sl_next := (sl_next sl)(?p := (sl_next sl ?p)(i := Some x))\<rparr>"
  have l: "SetNext ?p i (Some x) sl = Some sl'" using hp by (simp add: SetNext_def sl'_def)
  have fr: "sl_frame sl sl'" by (simp add: sl_frame_def sl'_def)
  have d: "distinct (0 # filter P (ch i) @ filter (\<lambda>n. \<not> P n) (ch i))" and c: "chain sl i 0 (filter P (ch i) @ filter (\<lambda>n. \<not> P n) (ch i))"
    using chain_distinct [OF wf0 i16] ci sp i16 unfolding splits_def by metis+
  have "chain sl' i 0 (filter P (ch i) @ x # filter (\<lambda>n. \<not> P n) (ch i))"
    by (rule chain_link [OF c d]) (use x i16 px nx in \<open>auto simp: fresh_node_def border_def sl'_def\<close>)
  then have chains: "chain sl' l 0 (linked P x (Suc i) ch l)" if "l < kMaxHeight" for l
    using W(1) [OF that] chain_other_level [of l i sl ?p "Some x"]
    by (cases "l = i") (auto simp: linked_def less_Suc_eq sl'_def)
  have nodes: "0 < n \<and> n < sl_nodes sl' \<and> l < sl_height sl' n" if "l < kMaxHeight" "n \<in> set (linked P x (Suc i) ch l)" for l n
    using W(2) [OF that(1), of n] that x i(1) by (cases "l = i") (auto simp: linked_def sl'_def fresh_node_def less_Suc_eq split: if_splits)
  have sorted: "sorted_wrt (\<lambda>m n. cmp (sl_key sl' m) (sl_key sl' n) < 0) (linked P x (Suc i) ch 0)"
  proof (cases "i = 0")
    case True
    have "ch 0 = filter P (ch 0) @ filter (\<lambda>n. \<not> P n) (ch 0)" using sp by (simp add: splits_def kMaxHeight_def)
    moreover have "sorted_wrt (\<lambda>m n. cmp (sl_key sl m) (sl_key sl n) < 0) (ch 0)" using W(4) True by simp
    ultimately have "sorted_wrt (\<lambda>m n. cmp (sl_key sl m) (sl_key sl n) < 0) (filter P (ch 0) @ filter (\<lambda>n. \<not> P n) (ch 0))" by simp
    with P show ?thesis using True by (fastforce simp: linked_def sl'_def sorted_wrt_append)
  qed (use W(4) in \<open>simp add: linked_def sl'_def\<close>)
  have sub: "subseq (linked P x (Suc i) ch (Suc l)) (linked P x (Suc i) ch l)" if "Suc l < kMaxHeight" for l
    by (rule subseq_linked [OF sl_wfD(3) [OF wf0 that] sp that])
  have top: "linked P x (Suc i) ch l = []" if "sl_max_height sl' \<le> l" "l < kMaxHeight" for l
    using W(9) [of l] that i by (auto simp: linked_def sl'_def)
  have "sl_wf cmp sl' (linked P x (Suc i) ch)"
    unfolding sl_wf_def using chains nodes sorted sub top W(5-8) fr by (auto simp: sl_frame_def)
  with l fr show ?thesis by blast
qed

lemma link_levels_ok:
  assumes wf: "sl_wf cmp sl ch" and sp: "splits P ch" and x: "fresh_node sl ch x"
    and h: "sl_height sl x \<le> sl_max_height sl" and prev: "\<And>i. i < sl_height sl x \<Longrightarrow> prev i = Some (border P ch i)"
    and P: "\<And>n. n \<in> set (ch 0) \<Longrightarrow> if P n then cmp (sl_key sl n) (sl_key sl x) < 0 else cmp (sl_key sl x) (sl_key sl n) < 0"
  shows "i \<le> sl_height sl x \<Longrightarrow> \<exists>sl'. link_levels prev x i sl = Some sl' \<and> sl_frame sl sl' \<and> sl_wf cmp sl' (linked P x i ch)"
proof (induction i)
  case 0
  then show ?case using wf by (simp add: sl_frame_refl)
next
  case (Suc i)
  then obtain sl1 where 1: "link_levels prev x i sl = Some sl1" "sl_frame sl sl1" "sl_wf cmp sl1 (linked P x i ch)" by auto
  have x1: "fresh_node sl1 ch x" and i: "i < sl_height sl1 x" "sl_height sl1 x \<le> sl_max_height sl1" "i < kMaxHeight"
    using x 1(2) h Suc.prems sl_wfD(8) [OF wf] by (simp_all add: sl_frame_def fresh_node_def)
  let ?p = "border P ch i"
  have px: "?p \<noteq> x" using border_in [of P ch i] x i(3) by (auto simp: fresh_node_def)
  have "Node_Next sl1 ?p i = Some (sl_next sl1 ?p i)"
    using border_in [of P ch i] sl_wfD(2,5) [OF 1(3)] i(3) by (auto simp: Node_Next_def linked_def)
  moreover obtain sl2 where 2: "SetNext x i (sl_next sl1 ?p i) sl1 = Some sl2" "sl_frame sl1 sl2" "sl_wf cmp sl2 (linked P x i ch)"
      "sl_next sl2 x i = sl_next sl1 ?p i" "sl_next sl2 ?p = sl_next sl1 ?p"
    using store_ok [OF 1(3) x1 i(1,3), of "sl_next sl1 ?p i"] px by blast
  have fr2: "sl_frame sl sl2" using 1(2) 2(2) by (rule sl_frame_trans)
  have "\<exists>sl'. SetNext ?p i (Some x) sl2 = Some sl' \<and> sl_frame sl2 sl' \<and> sl_wf cmp sl' (linked P x (Suc i) ch)"
    by (rule publish_ok [OF wf 2(3) sp]) (use x1 i 2 fr2 P x in \<open>simp_all add: sl_frame_def fresh_node_def\<close>)
  then obtain sl3 where 3: "SetNext ?p i (Some x) sl2 = Some sl3" "sl_frame sl2 sl3" "sl_wf cmp sl3 (linked P x (Suc i) ch)" by blast
  ultimately have "link_levels prev x (Suc i) sl = Some sl3"
    using 1(1) 2(1) prev [of i] Suc.prems by (simp add: link_level_def)
  then show ?case using 3(3) sl_frame_trans [OF fr2 3(2)] by blast
qed

text \<open>The state in which the loop starts.\<close>

lemma prepare_insert_ok:
  assumes wf: "sl_wf cmp sl ch" and new: "\<And>n. n \<in> set (ch 0) \<Longrightarrow> cmp (sl_key sl n) key \<noteq> 0"
    and p: "prepare_insert dist key prev sl = (x, h, prev1, sl1)"
    and prev: "prev = (\<lambda>i. if i < sl_max_height sl then Some (border (before sl key) ch i) else None)"
  shows "sl_wf cmp sl1 ch" "x = sl_nodes sl" "fresh_node sl1 ch x" "sl_height sl1 x = h" "1 \<le> h" "h \<le> sl_max_height sl1"
    "sl_key sl1 = (sl_key sl)(x := key)" "\<And>i. i < h \<Longrightarrow> prev1 i = Some (border (before sl key) ch i)"
    "\<And>n. n \<in> set (ch 0) \<Longrightarrow> if before sl key n then cmp (sl_key sl1 n) (sl_key sl1 x) < 0 else cmp (sl_key sl1 x) (sl_key sl1 n) < 0"
proof -
  note W = sl_wfD [OF wf]
  obtain rng where r: "RandomHeight dist (sl_rng sl) = (h, rng)" using p by (auto simp: prepare_insert_def NewNode_def Let_def split: prod.splits if_splits)
  have h: "1 \<le> h" "h \<le> kMaxHeight"
    using random_height_bounds [of dist 1 "sl_rng sl" h rng] r by (simp_all add: RandomHeight_def kMaxHeight_def)
  then show "1 \<le> h" by simp
  let ?m = "max h (sl_max_height sl)"
  have sl1: "sl1 = sl\<lparr>sl_rng := rng, sl_max_height := ?m, sl_key := (sl_key sl)(x := key), sl_next := (sl_next sl)(x := \<lambda>_. None),
      sl_height := (sl_height sl)(x := h), sl_nodes := Suc x\<rparr>" and x: "x = sl_nodes sl"
    and prev1: "prev1 i = (if sl_max_height sl \<le> i \<and> i < h then Some 0 else prev i)" for i
    using p r h by (cases "sl_max_height sl < h"; cases sl; auto simp: prepare_insert_def NewNode_def Let_def max_def)+
  show "x = sl_nodes sl" by (rule x)
  have xn: "x \<notin> set (0 # ch l)" if "l < kMaxHeight" for l using W(2) [OF that] W(6) x by auto
  show "sl_height sl1 x = h" "h \<le> sl_max_height sl1" "sl_key sl1 = (sl_key sl)(x := key)" by (simp_all add: sl1)
  show fresh: "fresh_node sl1 ch x" using xn W(6) x by (auto simp: fresh_node_def sl1)
  have "chain sl1 l 0 (ch l)" if "l < kMaxHeight" for l
  proof -
    have "chain sl1 l 0 (ch l) \<longleftrightarrow> chain (sl\<lparr>sl_next := (sl_next sl)(x := \<lambda>_. None)\<rparr>) l 0 (ch l)"
      by (rule chain_cong) (simp add: sl1)
    also have "\<dots> \<longleftrightarrow> chain sl l 0 (ch l)" using xn [OF that] by (rule chain_other_node)
    finally show ?thesis using W(1) [OF that] by simp
  qed
  moreover have "0 < n \<and> n < sl_nodes sl1 \<and> l < sl_height sl1 n" if "l < kMaxHeight" "n \<in> set (ch l)" for l n
    using W(2) [OF that] x by (auto simp: sl1)
  moreover have "sorted_wrt (\<lambda>m n. cmp (sl_key sl1 m) (sl_key sl1 n) < 0) (ch 0)"
    using W(4) xn [of 0] by (auto simp: sl1 kMaxHeight_def intro: sorted_wrt_mono_rel [rotated])
  moreover have "ch l = []" if "sl_max_height sl1 \<le> l" "l < kMaxHeight" for l using W(9) [of l] that by (simp add: sl1)
  ultimately show "sl_wf cmp sl1 ch" unfolding sl_wf_def using W(3,5-8) h x by (auto simp: sl1)
  show "prev1 i = Some (border (before sl key) ch i)" if i: "i < h" for i
    using W(9) [of i] i h by (auto simp: prev1 prev border_def)
  show "if before sl key n then cmp (sl_key sl1 n) (sl_key sl1 x) < 0 else cmp (sl_key sl1 x) (sl_key sl1 n) < 0"
    if n: "n \<in> set (ch 0)" for n
  proof -
    have "n \<noteq> x" using n xn [of 0] by (auto simp: kMaxHeight_def)
    then show ?thesis using new [OF n] cmp_flip [of key "sl_key sl n"] by (auto simp: sl1)
  qed
qed

lemma Insert_ok:
  assumes wf: "sl_wf cmp sl ch" and new: "\<And>n. n \<in> set (ch 0) \<Longrightarrow> cmp (sl_key sl n) key \<noteq> 0"
  shows "\<exists>sl' x h. SkipList_Insert cmp dist key sl = Some sl' \<and> sl_wf cmp sl' (linked (before sl key) x h ch)
    \<and> x = sl_nodes sl \<and> 1 \<le> h \<and> sl_key sl' = (sl_key sl)(x := key)"
proof -
  define prev where "prev = (\<lambda>i. if i < sl_max_height sl then Some (border (before sl key) ch i) else None)"
  obtain x h prev1 sl1 where p: "prepare_insert dist key prev sl = (x, h, prev1, sl1)" by (metis prod_cases4)
  note P = prepare_insert_ok [OF wf new p prev_def]
  obtain sl' where "link_levels prev1 x h sl1 = Some sl'" "sl_frame sl1 sl'" "sl_wf cmp sl' (linked (before sl key) x h ch)"
    using link_levels_ok [OF P(1) splits_before [OF wf, of key] P(3), of prev1 h] P by auto
  moreover have "SkipList_Insert cmp dist key sl = link_levels prev1 x h sl1"
    using FindGreaterOrEqual_ok [OF wf, of key] p by (simp add: SkipList_Insert_def prev_def)
  ultimately show ?thesis using P(2,5,7) by (auto simp: sl_frame_def)
qed

lemma Insert_rep:
  assumes "sl_rep cmp sl ks" and "\<And>k. k \<in> set ks \<Longrightarrow> cmp k key \<noteq> 0"
  shows "\<exists>sl'. SkipList_Insert cmp dist key sl = Some sl'
    \<and> sl_rep cmp sl' (filter (\<lambda>k. cmp k key < 0) ks @ key # filter (\<lambda>k. \<not> cmp k key < 0) ks)"
proof -
  obtain ch where wf: "sl_wf cmp sl ch" and ks: "map (sl_key sl) (ch 0) = ks" using assms(1) by (auto simp: sl_rep_def)
  obtain sl' x h where i: "SkipList_Insert cmp dist key sl = Some sl'" "sl_wf cmp sl' (linked (before sl key) x h ch)"
      "x = sl_nodes sl" "1 \<le> h" "sl_key sl' = (sl_key sl)(x := key)"
    using Insert_ok [OF wf, of key dist] assms(2) ks by auto
  have "n \<noteq> x" if "n \<in> set (ch 0)" for n using sl_wfD(2) [OF wf, of 0] that i(3) by (auto simp: kMaxHeight_def)
  then have "map (sl_key sl') (linked (before sl key) x h ch 0) = filter (\<lambda>k. cmp k key < 0) ks @ key # filter (\<lambda>k. \<not> cmp k key < 0) ks"
    using i(4,5) ks [symmetric] by (auto simp: linked_def filter_map comp_def)
  with i(1,2) show ?thesis unfolding sl_rep_def by blast
qed

end

section \<open>Iterators\<close>

definition nth_opt :: "'a list \<Rightarrow> nat \<Rightarrow> 'a option" where
  "nth_opt xs i = (if i < length xs then Some (xs ! i) else None)"

lemma first_opt_nth: "first_opt xs = nth_opt xs 0"
  by (cases xs) (simp_all add: nth_opt_def)

context comparator
begin

lemma SkipList_new_wf: "sl_wf cmp (SkipList_new k0) (\<lambda>_. [])"
  by (auto simp: sl_wf_def SkipList_new_def NewNode_def kMaxHeight_def)

lemma sl_SeekToFirst_ok: "sl_wf cmp sl ch \<Longrightarrow> sl_SeekToFirst sl = Some (nth_opt (ch 0) 0)"
  using sl_wfD(1) [of cmp sl ch 0] sl_wfD(5) [of cmp sl ch]
  by (cases "ch 0") (simp_all add: sl_SeekToFirst_def Node_Next_def kMaxHeight_def nth_opt_def)

lemma sl_SeekToLast_ok:
  assumes wf: "sl_wf cmp sl ch"
  shows "sl_SeekToLast sl = Some (nth_opt (ch 0) (length (ch 0) - 1))"
proof (cases "ch 0 = []")
  case True
  then show ?thesis using FindLast_ok [OF wf] by (simp add: sl_SeekToLast_def nth_opt_def)
next
  case False
  then have "last (ch 0) \<noteq> 0" using sl_wfD(2) [OF wf, of 0 "last (ch 0)"] by (simp add: kMaxHeight_def)
  then show ?thesis using FindLast_ok [OF wf] False by (simp add: sl_SeekToLast_def nth_opt_def last_conv_nth)
qed

lemma split_chain:
  assumes "sl_wf cmp sl ch"
  shows "ch 0 = filter (before sl key) (ch 0) @ filter (\<lambda>n. \<not> before sl key n) (ch 0)"
  using splits_before [OF assms, of key] by (simp add: splits_def kMaxHeight_def)

lemma sl_Seek_ok:
  assumes wf: "sl_wf cmp sl ch"
  shows "sl_Seek cmp target sl = Some (nth_opt (ch 0) (length (filter (before sl target) (ch 0))))"
proof -
  let ?A = "filter (before sl target) (ch 0)" and ?B = "filter (\<lambda>n. \<not> before sl target n) (ch 0)"
  have "nth_opt (?A @ ?B) (length ?A) = nth_opt ?B 0" by (simp add: nth_opt_def nth_append)
  then show ?thesis
    using FindGreaterOrEqual_ok [OF wf, of target] split_chain [OF wf, of target] by (simp add: sl_Seek_def first_opt_nth)
qed

lemma sl_Next_ok:
  assumes wf: "sl_wf cmp sl ch" and i: "i < length (ch 0)"
  shows "sl_Next (ch 0 ! i) sl = Some (nth_opt (ch 0) (Suc i))"
proof -
  have "chain sl 0 0 (ch 0)" using sl_wfD(1) [OF wf, of 0] by (simp add: kMaxHeight_def)
  moreover have "ch 0 = take i (ch 0) @ ch 0 ! i # drop (Suc i) (ch 0)" using i by (rule id_take_nth_drop)
  ultimately have "sl_next sl (ch 0 ! i) 0 = first_opt (drop (Suc i) (ch 0))"
    using chain_next [of sl 0 0 "take i (ch 0)" "ch 0 ! i" "drop (Suc i) (ch 0)"] by (simp add: first_opt_def)
  moreover have "0 < sl_height sl (ch 0 ! i)" using sl_wfD(2) [OF wf, of 0] i by (simp add: kMaxHeight_def)
  ultimately show ?thesis by (simp add: sl_Next_def Node_Next_def first_opt_nth nth_opt_def)
qed

lemma filter_before_nth:
  assumes wf: "sl_wf cmp sl ch" and i: "i < length (ch 0)"
  shows "filter (before sl (sl_key sl (ch 0 ! i))) (ch 0) = take i (ch 0)"
proof -
  note sorted = sl_wfD(4) [OF wf, unfolded sorted_wrt_iff_nth_less, rule_format]
  have "before sl (sl_key sl (ch 0 ! i)) (ch 0 ! j)" if "j < i" for j using sorted [OF that i] .
  moreover have "\<not> before sl (sl_key sl (ch 0 ! i)) (ch 0 ! j)" if "i \<le> j" "j < length (ch 0)" for j
    using that sorted [of i j] cmp_refl cmp_less_asym by (cases "i = j") auto
  ultimately have "filter (before sl (sl_key sl (ch 0 ! i))) (take i (ch 0)) = take i (ch 0)"
      "filter (before sl (sl_key sl (ch 0 ! i))) (drop i (ch 0)) = []"
    by (auto simp: filter_id_conv filter_empty_conv in_set_conv_nth)
  then show ?thesis by (metis append_Nil2 append_take_drop_id filter_append)
qed

lemma sl_Prev_ok:
  assumes wf: "sl_wf cmp sl ch" and i: "i < length (ch 0)"
  shows "sl_Prev cmp (ch 0 ! i) sl = Some (if i = 0 then None else Some (ch 0 ! (i - 1)))"
proof -
  have b: "border (before sl (sl_key sl (ch 0 ! i))) ch 0 = last (0 # take i (ch 0))"
    by (simp add: border_def filter_before_nth [OF wf i])
  show ?thesis
  proof (cases "i = 0")
    case False
    then have "last (0 # take i (ch 0)) = ch 0 ! (i - 1)" using i by (auto simp: last_conv_nth)
    moreover have "ch 0 ! (i - 1) \<noteq> 0" using sl_wfD(2) [OF wf, of 0 "ch 0 ! (i - 1)"] i by (simp add: kMaxHeight_def)
    ultimately show ?thesis using False FindLessThan_ok [OF wf] b by (simp add: sl_Prev_def)
  qed (use FindLessThan_ok [OF wf] b in \<open>simp add: sl_Prev_def\<close>)
qed

lemma Contains_ok:
  assumes "sl_rep cmp sl ks"
  shows "SkipList_Contains cmp key sl = Some (\<exists>k \<in> set ks. cmp key k = 0)"
proof -
  obtain ch where wf: "sl_wf cmp sl ch" and ks: "map (sl_key sl) (ch 0) = ks" using assms by (auto simp: sl_rep_def)
  let ?B = "filter (\<lambda>n. \<not> before sl key n) (ch 0)"
  have "(case first_opt ?B of None \<Rightarrow> False | Some n \<Rightarrow> cmp key (sl_key sl n) = 0) \<longleftrightarrow> (\<exists>n \<in> set (ch 0). cmp key (sl_key sl n) = 0)"
  proof (cases ?B)
    case Nil
    have "cmp key (sl_key sl n) \<noteq> 0" if "n \<in> set (ch 0)" for n
      using that Nil cmp_eq_sym [of key] by (metis (mono_tags, lifting) filter_empty_conv less_irrefl)
    then show ?thesis using Nil by simp
  next
    case (Cons n ns)
    have sorted: "sorted_wrt (\<lambda>m n. cmp (sl_key sl m) (sl_key sl n) < 0) (n # ns)"
      using sorted_wrt_filter [OF sl_wfD(4) [OF wf]] Cons by metis
    have n: "n \<in> set (ch 0)" "\<not> before sl key n" using Cons by (auto simp: filter_eq_Cons_iff)
    have "cmp key (sl_key sl n) = 0" if m: "m \<in> set (ch 0)" "cmp key (sl_key sl m) = 0" for m
    proof -
      have "\<not> before sl key m" using m(2) cmp_eq_sym [of key] by (metis less_irrefl)
      then have "m \<in> set ?B" using m(1) by simp
      then have "m \<in> set (n # ns)" unfolding Cons .
      then have "m = n \<or> cmp (sl_key sl n) (sl_key sl m) < 0" using sorted by auto
      then show ?thesis using m(2) n(2) cmp_eq_trans2 cmp_eq_sym by metis
    qed
    then show ?thesis using n Cons by auto
  qed
  then show ?thesis using FindGreaterOrEqual_ok [OF wf, of key] ks by (auto simp: SkipList_Contains_def)
qed

end

end
