(* ===== verification/Skiplist_Concurrency.thy ===== *)
theory Skiplist_Concurrency
  imports Skiplist
begin

text \<open>
  One writer links node \<open>x\<close>, one store at a time, while a reader runs the loop of
  \<^verbatim>\<open>FindGreaterOrEqual\<close>, one load at a time.  A state is the list, the level the writer works on,
  whether it has filled the link of \<open>x\<close> on that level, and the reader.  Stores become visible in
  program order, which is what the release stores and acquire loads of the source ask for.
\<close>

datatype reader = Searching nat nat | Returned "nat option"

type_synonym 'k conc = "'k SkipList \<times> nat \<times> bool \<times> reader"

inductive conc_step :: "('k \<Rightarrow> 'k \<Rightarrow> int) \<Rightarrow> 'k \<Rightarrow> (nat \<rightharpoonup> nat) \<Rightarrow> nat \<Rightarrow> nat \<Rightarrow> 'k conc \<Rightarrow> 'k conc \<Rightarrow> bool"
  for cmp :: "'k \<Rightarrow> 'k \<Rightarrow> int" and key :: 'k and prev :: "nat \<rightharpoonup> nat" and x :: nat and h :: nat where
  fill: "i < h \<Longrightarrow> prev i = Some p \<Longrightarrow> Node_Next sl p i = Some n \<Longrightarrow> SetNext x i n sl = Some sl'
    \<Longrightarrow> conc_step cmp key prev x h (sl, i, False, r) (sl', i, True, r)"
| publish: "prev i = Some p \<Longrightarrow> SetNext p i (Some x) sl = Some sl'
    \<Longrightarrow> conc_step cmp key prev x h (sl, i, True, r) (sl', Suc i, False, r)"
| right: "Node_Next sl y l = Some n \<Longrightarrow> KeyIsAfterNode cmp sl key n
    \<Longrightarrow> conc_step cmp key prev x h (sl, i, b, Searching y l) (sl, i, b, Searching (the n) l)"
| down: "Node_Next sl y (Suc l) = Some n \<Longrightarrow> \<not> KeyIsAfterNode cmp sl key n
    \<Longrightarrow> conc_step cmp key prev x h (sl, i, b, Searching y (Suc l)) (sl, i, b, Searching y l)"
| return: "Node_Next sl y 0 = Some n \<Longrightarrow> \<not> KeyIsAfterNode cmp sl key n
    \<Longrightarrow> conc_step cmp key prev x h (sl, i, b, Searching y 0) (sl, i, b, Returned n)"

context comparator
begin

definition reader_ok :: "'e SkipList \<Rightarrow> 'e \<Rightarrow> (nat \<Rightarrow> bool) \<Rightarrow> nat \<Rightarrow> nat \<Rightarrow> (nat \<Rightarrow> nat list) \<Rightarrow> reader \<Rightarrow> bool" where
  "reader_ok sl key P x i ch r \<longleftrightarrow> (case r of
     Searching y l \<Rightarrow> l < kMaxHeight \<and> (y = 0 \<or> y \<in> set (linked P x i ch l) \<and> before sl key y)
   | Returned n \<Rightarrow> \<exists>j \<le> i. n = first_opt (filter (\<lambda>n. \<not> before sl key n) (linked P x j ch 0)))"

lemma linked_mono: "set (linked P x i ch l) \<subseteq> set (linked P x (Suc i) ch l)"
  by (auto simp: linked_def)

lemma reader_ok_publish:
  assumes "reader_ok sl key P x i ch r"
  shows "reader_ok sl key P x (Suc i) ch r"
proof (cases r)
  case (Searching y l)
  then show ?thesis using assms linked_mono [of P x i ch l] by (auto simp: reader_ok_def)
next
  case (Returned n)
  then obtain j where j: "j \<le> i" "n = first_opt (filter (\<lambda>n. \<not> before sl key n) (linked P x j ch 0))"
    using assms by (auto simp only: reader_ok_def reader.case)
  have "\<exists>k \<le> Suc i. n = first_opt (filter (\<lambda>n. \<not> before sl key n) (linked P x k ch 0))"
    by (rule exI [of _ j]) (simp only: j(2) le_SucI [OF j(1)])
  then show ?thesis unfolding Returned reader_ok_def reader.case .
qed

text \<open>What a reader sees from a node of a chain on the same level.\<close>

lemma reader_next:
  assumes wf: "sl_wf cmp sl ch" and l: "l < kMaxHeight" and y: "y = 0 \<or> y \<in> set (ch l) \<and> before sl key y"
  obtains n where "Node_Next sl y l = Some n"
    "KeyIsAfterNode cmp sl key n \<Longrightarrow> the n \<in> set (ch l) \<and> before sl key (the n)"
    "\<not> KeyIsAfterNode cmp sl key n \<Longrightarrow> n = first_opt (filter (\<lambda>n. \<not> before sl key n) (ch l))"
proof -
  let ?A = "filter (before sl key) (ch l)" and ?B = "filter (\<lambda>n. \<not> before sl key n) (ch l)"
  have "y \<in> set (0 # ?A)" using y by auto
  then obtain us vs where at: "0 # ?A = us @ y # vs" by (meson split_list)
  note n = descend_step [OF wf l splits_before [OF wf] at]
  have pos: "0 < m" if "m \<in> set (ch l)" for m using sl_wfD(2) [OF wf l that] by simp
  show thesis
  proof (rule that [OF n])
    have vs: "set vs \<subseteq> set ?A" using at by (cases us) auto
    show "KeyIsAfterNode cmp sl key (first_opt (vs @ ?B)) \<Longrightarrow>
        the (first_opt (vs @ ?B)) \<in> set (ch l) \<and> before sl key (the (first_opt (vs @ ?B)))"
      using vs by (cases vs; cases ?B) (auto simp: KeyIsAfterNode_def filter_eq_Cons_iff)
    show "\<not> KeyIsAfterNode cmp sl key (first_opt (vs @ ?B)) \<Longrightarrow> first_opt (vs @ ?B) = first_opt ?B"
      using vs pos by (cases vs) (auto simp: KeyIsAfterNode_def)
  qed
qed

definition conc_inv :: "'e SkipList \<Rightarrow> 'e \<Rightarrow> (nat \<Rightarrow> bool) \<Rightarrow> nat \<Rightarrow> nat \<Rightarrow> (nat \<Rightarrow> nat list) \<Rightarrow> 'e conc \<Rightarrow> bool" where
  "conc_inv sl0 key P x h ch s \<longleftrightarrow> (case s of (sl, i, b, r) \<Rightarrow>
     sl_frame sl0 sl \<and> i \<le> h \<and> sl_wf cmp sl (linked P x i ch) \<and> reader_ok sl0 key P x i ch r
     \<and> (b \<longrightarrow> i < h \<and> sl_next sl x i = sl_next sl (border P ch i) i))"

lemma conc_inv_iff:
  "conc_inv sl0 key P x h ch (sl, i, b, r) \<longleftrightarrow> sl_frame sl0 sl \<and> i \<le> h \<and> sl_wf cmp sl (linked P x i ch)
     \<and> reader_ok sl0 key P x i ch r \<and> (b \<longrightarrow> i < h \<and> sl_next sl x i = sl_next sl (border P ch i) i)"
  by (simp add: conc_inv_def)

text \<open>The steps of the reader.\<close>

lemma conc_inv_reader:
  assumes inv: "conc_inv sl0 key P x h ch (sl, i, b, Searching y l)"
  obtains n where "Node_Next sl y l = Some n"
    "KeyIsAfterNode cmp sl key n \<Longrightarrow> conc_inv sl0 key P x h ch (sl, i, b, Searching (the n) l)"
    "\<not> KeyIsAfterNode cmp sl key n \<Longrightarrow> l = 0 \<Longrightarrow> conc_inv sl0 key P x h ch (sl, i, b, Returned n)"
    "\<And>l'. l = Suc l' \<Longrightarrow> conc_inv sl0 key P x h ch (sl, i, b, Searching y l')"
proof -
  note I = inv [unfolded conc_inv_iff]
  have wf: "sl_wf cmp sl (linked P x i ch)" and keys: "sl_key sl = sl_key sl0" using I by (simp_all add: sl_frame_def)
  have y: "l < kMaxHeight" "y = 0 \<or> y \<in> set (linked P x i ch l) \<and> before sl key y"
    using I keys by (simp_all add: reader_ok_def)
  obtain n where n: "Node_Next sl y l = Some n"
    "KeyIsAfterNode cmp sl key n \<Longrightarrow> the n \<in> set (linked P x i ch l) \<and> before sl key (the n)"
    "\<not> KeyIsAfterNode cmp sl key n \<Longrightarrow> n = first_opt (filter (\<lambda>n. \<not> before sl key n) (linked P x i ch l))"
    using reader_next [OF wf y] by blast
  show thesis
  proof (rule that [OF n(1)])
    show "KeyIsAfterNode cmp sl key n \<Longrightarrow> conc_inv sl0 key P x h ch (sl, i, b, Searching (the n) l)"
      using I n(2) y(1) keys unfolding conc_inv_iff reader_ok_def by simp
    assume "\<not> KeyIsAfterNode cmp sl key n" "l = 0"
    then have "reader_ok sl0 key P x i ch (Returned n)" using n(3) keys unfolding reader_ok_def by auto
    then show "conc_inv sl0 key P x h ch (sl, i, b, Returned n)" using I unfolding conc_inv_iff by blast
  next
    fix l' assume "l = Suc l'"
    then have "reader_ok sl0 key P x i ch (Searching y l')"
      using y keys subseq_set [OF sl_wfD(3) [OF wf, of l']] by (auto simp: reader_ok_def)
    then show "conc_inv sl0 key P x h ch (sl, i, b, Searching y l')" using I unfolding conc_inv_iff by blast
  qed
qed

lemma conc_inv_step:
  assumes wf: "sl_wf cmp sl0 ch" and sp: "splits P ch" and x: "fresh_node sl0 ch x" and hx: "sl_height sl0 x = h"
    and h: "h \<le> sl_max_height sl0" and prev: "\<And>i. i < h \<Longrightarrow> prev i = Some (border P ch i)"
    and P: "\<And>n. n \<in> set (ch 0) \<Longrightarrow> if P n then cmp (sl_key sl0 n) (sl_key sl0 x) < 0 else cmp (sl_key sl0 x) (sl_key sl0 n) < 0"
    and step: "conc_step cmp key prev x h s s'" and inv: "conc_inv sl0 key P x h ch s"
  shows "conc_inv sl0 key P x h ch s'"
  using step inv
proof (induction rule: conc_step.induct)
  case (fill i p sl n sl' r)
  note I = fill.prems [unfolded conc_inv_iff]
  have fresh: "fresh_node sl ch x" and i: "i < sl_height sl x" "i < kMaxHeight"
    using x hx h I fill.hyps(1) sl_wfD(8) [OF wf] by (simp_all add: sl_frame_def fresh_node_def)
  have px: "border P ch i \<noteq> x" using border_in [of P ch i] fresh i(2) by (auto simp: fresh_node_def)
  have n: "n = sl_next sl (border P ch i) i" using fill.hyps prev by (auto simp: Node_Next_def split: if_splits)
  obtain sl1 where 1: "SetNext x i n sl = Some sl1" "sl_frame sl sl1" "sl_wf cmp sl1 (linked P x i ch)" "sl_next sl1 x i = n"
      "sl_next sl1 (border P ch i) = sl_next sl (border P ch i)"
    using store_ok [OF _ fresh i, of P n] I px by blast
  then have "sl' = sl1" using fill.hyps(4) by simp
  then show ?case using 1 n I fill.hyps(1) sl_frame_trans [of sl0 sl sl1] unfolding conc_inv_iff by simp
next
  case (publish i p sl sl' r)
  note I = publish.prems [unfolded conc_inv_iff]
  have fresh: "fresh_node sl ch x" and i: "i < h" "sl_height sl x = h" "h \<le> sl_max_height sl" and keys: "sl_key sl = sl_key sl0"
    using x hx h I by (simp_all add: sl_frame_def fresh_node_def)
  have "\<exists>sl'. SetNext (border P ch i) i (Some x) sl = Some sl' \<and> sl_frame sl sl' \<and> sl_wf cmp sl' (linked P x (Suc i) ch)"
    by (rule publish_ok [OF wf _ sp fresh]) (use i I P in \<open>simp_all add: keys\<close>)
  then have "sl_frame sl sl'" "sl_wf cmp sl' (linked P x (Suc i) ch)" using publish.hyps prev [OF i(1)] by auto
  then show ?case using I i(1) sl_frame_trans [of sl0 sl sl'] reader_ok_publish unfolding conc_inv_iff by simp
next
  case (right sl y l n i b)
  then show ?case by (elim conc_inv_reader) simp
next
  case (down sl y l n i b)
  then show ?case by (elim conc_inv_reader) simp
next
  case (return sl y n i b)
  then show ?case by (elim conc_inv_reader) simp
qed

text \<open>Progress: while the node is not fully linked or the reader has not returned, a step is possible.\<close>

lemma conc_progress:
  assumes wf: "sl_wf cmp sl0 ch" and sp: "splits P ch" and x: "fresh_node sl0 ch x" and hx: "sl_height sl0 x = h"
    and h: "h \<le> sl_max_height sl0" and prev: "\<And>i. i < h \<Longrightarrow> prev i = Some (border P ch i)"
    and inv: "conc_inv sl0 key P x h ch s" and stuck: "\<And>s'. \<not> conc_step cmp key prev x h s s'"
  shows "\<exists>sl n. s = (sl, h, False, Returned n)"
proof -
  obtain sl i b r where s: "s = (sl, i, b, r)" by (metis prod_cases4)
  note I = inv [unfolded s conc_inv_iff]
  have hs: "sl_height sl x = h" and h16: "h \<le> kMaxHeight" using hx h I sl_wfD(8) [OF wf] by (simp_all add: sl_frame_def)
  have p: "i < sl_height sl (border P ch i)" if "i < h"
    using border_in [of P ch i] sl_wfD(2,5) [of cmp sl "linked P x i ch"] I that h16 by (auto simp: linked_def)
  have b: "\<not> b"
  proof
    assume b: b
    then obtain sl' where "prev i = Some (border P ch i)" "SetNext (border P ch i) i (Some x) sl = Some sl'"
      using I p prev by (simp add: SetNext_def)
    then have "conc_step cmp key prev x h (sl, i, True, r) (sl', Suc i, False, r)" by (rule conc_step.publish)
    then show False using stuck s b by simp
  qed
  have "i = h"
  proof (rule ccontr)
    assume "i \<noteq> h"
    then have i: "i < h" using I by simp
    then obtain sl' where n: "Node_Next sl (border P ch i) i = Some (sl_next sl (border P ch i) i)"
        "SetNext x i (sl_next sl (border P ch i) i) sl = Some sl'"
      using p hs by (simp add: SetNext_def Node_Next_def)
    have "conc_step cmp key prev x h (sl, i, False, r) (sl', i, True, r)"
      using i prev [OF i] n by (rule conc_step.fill)
    then show False using stuck s b by simp
  qed
  moreover have "\<exists>n. r = Returned n"
  proof (cases r)
    case (Searching y l)
    then obtain n where n: "Node_Next sl y l = Some n" using conc_inv_reader [OF inv [unfolded s Searching]] by blast
    have "\<exists>s'. conc_step cmp key prev x h (sl, i, b, Searching y l) s'"
    proof (cases "KeyIsAfterNode cmp sl key n")
      case True
      from conc_step.right [OF n this] show ?thesis by (rule exI)
    next
      case False
      show ?thesis
      proof (cases l)
        case 0
        from conc_step.return [OF n [unfolded 0] False] show ?thesis unfolding 0 by (rule exI)
      next
        case (Suc l')
        from conc_step.down [OF n [unfolded Suc] False] show ?thesis unfolding Suc by (rule exI)
      qed
    qed
    then show ?thesis using stuck s Searching by simp
  qed simp
  ultimately show ?thesis using s b by blast
qed

text \<open>
  Every step lowers a measure: the writer has fewer stores left, or the reader has fewer levels
  or fewer nodes in front of it on its level.
\<close>

definition ahead :: "'e SkipList \<Rightarrow> 'e \<Rightarrow> (nat \<Rightarrow> nat list) \<Rightarrow> nat \<Rightarrow> nat \<Rightarrow> nat" where
  "ahead sl key ch y l = length (dropWhile (\<lambda>n. n \<noteq> y) (0 # filter (before sl key) (ch l)))"

definition conc_measure :: "'e SkipList \<Rightarrow> 'e \<Rightarrow> (nat \<Rightarrow> bool) \<Rightarrow> nat \<Rightarrow> nat \<Rightarrow> (nat \<Rightarrow> nat list) \<Rightarrow> 'e conc \<Rightarrow> nat \<times> nat \<times> nat" where
  "conc_measure sl0 key P x h ch s = (case s of (sl, i, b, r) \<Rightarrow>
     (2 * (h - i) - (if b then 1 else 0),
      case r of Searching y l \<Rightarrow> (Suc l, ahead sl0 key (linked P x i ch) y l) | Returned _ \<Rightarrow> (0, 0)))"

lemma ahead_next:
  assumes wf: "sl_wf cmp sl ch" and l: "l < kMaxHeight" and y: "y = 0 \<or> y \<in> set (ch l) \<and> before sl key y"
    and n: "Node_Next sl y l = Some n" "KeyIsAfterNode cmp sl key n"
  shows "ahead sl key ch (the n) l < ahead sl key ch y l"
proof -
  let ?A = "filter (before sl key) (ch l)" and ?B = "filter (\<lambda>n. \<not> before sl key n) (ch l)"
  have "y \<in> set (0 # ?A)" using y by auto
  then obtain us vs where at: "0 # ?A = us @ y # vs" and us: "y \<notin> set us" by (meson split_list_first)
  have n': "n = first_opt (vs @ ?B)" using descend_step [OF wf l splits_before [OF wf] at] n(1) by simp
  have "vs \<noteq> []"
  proof
    assume "vs = []"
    then show False using n(2) n' by (cases ?B) (auto simp: KeyIsAfterNode_def filter_eq_Cons_iff)
  qed
  then obtain v vs' where vs: "vs = v # vs'" by (cases vs) auto
  have d: "distinct (0 # ?A)" using chain_distinct [OF wf l] by simp
  have "dropWhile (\<lambda>n. n \<noteq> y) (us @ y # vs) = y # vs" using us by (subst dropWhile_append2) auto
  moreover have "v \<notin> set (us @ [y])" using d at vs by auto
  then have "dropWhile (\<lambda>n. n \<noteq> v) ((us @ [y]) @ v # vs') = v # vs'" by (subst dropWhile_append2) auto
  ultimately show ?thesis using n' vs at by (simp add: ahead_def)
qed

lemma conc_step_measure:
  assumes inv: "conc_inv sl0 key P x h ch s" and step: "conc_step cmp key prev x h s s'"
  shows "(conc_measure sl0 key P x h ch s', conc_measure sl0 key P x h ch s) \<in> less_than <*lex*> less_than <*lex*> less_than"
  using step inv
proof (induction rule: conc_step.induct)
  case (right sl y l n i b)
  note I = right.prems [unfolded conc_inv_iff]
  have keys: "sl_key sl = sl_key sl0" using I by (simp add: sl_frame_def)
  then have "ahead sl key (linked P x i ch) (the n) l < ahead sl key (linked P x i ch) y l"
    using I right.hyps by (intro ahead_next) (auto simp: reader_ok_def)
  then show ?case using keys by (simp add: conc_measure_def ahead_def)
qed (auto simp: conc_measure_def conc_inv_iff)

end

end
