(* ===== verification/Memtable.thy ===== *)
theory Memtable
  imports Skiplist_Concurrency Internal_Iterator
begin

text \<open>
  The memtable (src/memtable.h, src/memtable.cc): a skip list of entries ordered by internal
  key, with counters, a point lookup and an iterator.  \<open>mt_rep\<close> says which entries a memtable
  holds; the interpretation of \<open>comparator\<close> brings the skip-list lemmas to the comparator the
  code uses, and the interpretation of \<open>bidirectional_iterator\<close> shows that the iterator keeps
  the contract of \<^verbatim>\<open>InternalIterator\<close> on a memtable that is not written meanwhile.
\<close>

definition MemtableKeyComparator :: "MemtableEntry \<Rightarrow> MemtableEntry \<Rightarrow> int" where
  "MemtableKeyComparator a b = CompareInternalKey (e_key a) (e_seq a) (e_key b) (e_seq b)"

lemma MemtableKeyComparator_less [simp]: "MemtableKeyComparator a b < 0 \<longleftrightarrow> entry_less a b"
  by (simp add: MemtableKeyComparator_def CompareInternalKey_spec)

lemma MemtableKeyComparator_eq [simp]: "MemtableKeyComparator a b = 0 \<longleftrightarrow> ikey a = ikey b"
  by (auto simp: MemtableKeyComparator_def CompareInternalKey_spec)

interpretation mk: comparator MemtableKeyComparator
proof unfold_locales
  fix a b c
  show "MemtableKeyComparator a a = 0" by simp
  show "MemtableKeyComparator a b < 0 \<longleftrightarrow> 0 < MemtableKeyComparator b a"
    using ikey_less_linear [of "ikey a" "ikey b"] ikey_less_asym [of "ikey a" "ikey b"]
    by (auto simp: MemtableKeyComparator_def CompareInternalKey_spec)
  show "MemtableKeyComparator a b < 0 \<Longrightarrow> MemtableKeyComparator b c < 0 \<Longrightarrow> MemtableKeyComparator a c < 0"
    using ikey_less_trans by auto
  show "MemtableKeyComparator a b = 0 \<Longrightarrow> MemtableKeyComparator b c < 0 \<Longrightarrow> MemtableKeyComparator a c < 0"
    by simp
  show "MemtableKeyComparator a b < 0 \<Longrightarrow> MemtableKeyComparator b c = 0 \<Longrightarrow> MemtableKeyComparator a c < 0"
    by simp
qed

record Memtable =
  mt_table :: "MemtableEntry SkipList"
  mt_memory_usage :: u64
  mt_count :: u64

definition default_entry :: MemtableEntry where
  "default_entry = \<lparr>e_key = [], e_seq = 0, e_type = kTypeValue, e_value = []\<rparr>"

definition Memtable_new :: Memtable where
  "Memtable_new = \<lparr>mt_table = SkipList_new default_entry, mt_memory_usage = 0, mt_count = 0\<rparr>"

text \<open>\<^verbatim>\<open>sizeof(MemtableEntry)\<close> and \<^verbatim>\<open>sizeof(void*)\<close> on a 64-bit target with 32-byte strings.\<close>

definition entry_overhead :: nat where "entry_overhead = 80 + 8 * 8"

definition Memtable_Add ::
  "(nat \<Rightarrow> nat) \<Rightarrow> SequenceNumber \<Rightarrow> ValueType \<Rightarrow> bytes \<Rightarrow> bytes \<Rightarrow> Memtable \<Rightarrow> Memtable option" where
  "Memtable_Add dist seq type key val m = do {
     let entry = \<lparr>e_key = key, e_seq = seq, e_type = type, e_value = val\<rparr>;
     table \<leftarrow> SkipList_Insert MemtableKeyComparator dist entry (mt_table m);
     let usage = entry_overhead + length key + length val;
     Some (m\<lparr>mt_table := table, mt_memory_usage := mt_memory_usage m + of_nat usage, mt_count := mt_count m + 1\<rparr>)
   }"

definition Memtable_Get :: "bytes \<Rightarrow> SequenceNumber \<Rightarrow> Memtable \<Rightarrow> lookup_result option" where
  "Memtable_Get key seq m = do {
     let probe = default_entry\<lparr>e_key := key, e_seq := seq\<rparr>;
     node \<leftarrow> sl_Seek MemtableKeyComparator probe (mt_table m);
     Some (case node of
         None \<Rightarrow> None
       | Some n \<Rightarrow>
           (let entry = sl_key (mt_table m) n
            in if e_key entry = e_key probe
               then if e_type entry = kTypeValue then Some (OK, Some (e_value entry))
                    else if e_type entry = kTypeDeletion then Some (NotFound '''', None)
                    else None
               else None))
   }"

definition ApproximateMemoryUsage :: "Memtable \<Rightarrow> u64" where
  "ApproximateMemoryUsage m = mt_memory_usage m"

definition Memtable_Count :: "Memtable \<Rightarrow> u64" where
  "Memtable_Count m = mt_count m"

section \<open>Iterator\<close>

record MemTableIterator =
  mi_list :: "MemtableEntry SkipList"
  mi_node :: "nat option"

definition Memtable_NewIterator :: "Memtable \<Rightarrow> MemTableIterator" where
  "Memtable_NewIterator m = \<lparr>mi_list = mt_table m, mi_node = None\<rparr>"

definition mi_Valid :: "MemTableIterator \<Rightarrow> bool" where
  "mi_Valid it \<longleftrightarrow> mi_node it \<noteq> None"

definition mi_SeekToFirst :: "MemTableIterator \<Rightarrow> MemTableIterator option" where
  "mi_SeekToFirst it = do { n \<leftarrow> sl_SeekToFirst (mi_list it); Some (it\<lparr>mi_node := n\<rparr>) }"

definition mi_SeekToLast :: "MemTableIterator \<Rightarrow> MemTableIterator option" where
  "mi_SeekToLast it = do { n \<leftarrow> sl_SeekToLast (mi_list it); Some (it\<lparr>mi_node := n\<rparr>) }"

definition mi_Seek :: "bytes \<Rightarrow> MemTableIterator \<Rightarrow> MemTableIterator option" where
  "mi_Seek target it = do {
     let probe = default_entry\<lparr>e_key := target, e_seq := kMaxSequenceNumber\<rparr>;
     n \<leftarrow> sl_Seek MemtableKeyComparator probe (mi_list it);
     Some (it\<lparr>mi_node := n\<rparr>)
   }"

definition mi_Next :: "MemTableIterator \<Rightarrow> MemTableIterator option" where
  "mi_Next it = do { n \<leftarrow> mi_node it; m \<leftarrow> sl_Next n (mi_list it); Some (it\<lparr>mi_node := m\<rparr>) }"

definition mi_Prev :: "MemTableIterator \<Rightarrow> MemTableIterator option" where
  "mi_Prev it = do {
     n \<leftarrow> mi_node it;
     m \<leftarrow> sl_Prev MemtableKeyComparator n (mi_list it);
     Some (it\<lparr>mi_node := m\<rparr>)
   }"

definition mi_Entry :: "MemTableIterator \<Rightarrow> MemtableEntry" where
  "mi_Entry it = sl_key (mi_list it) (the (mi_node it))"

definition mi_status :: "MemTableIterator \<Rightarrow> Status" where
  "mi_status it = OK"

section \<open>What a memtable holds\<close>

definition mt_rep :: "Memtable \<Rightarrow> MemtableEntry list \<Rightarrow> bool" where
  "mt_rep m es \<longleftrightarrow> sl_rep MemtableKeyComparator (mt_table m) es"

lemma mt_rep_new: "mt_rep Memtable_new []"
  using mk.SkipList_new_wf [of default_entry] by (auto simp: mt_rep_def sl_rep_def Memtable_new_def)

lemma mt_rep_sorted: "mt_rep m es \<Longrightarrow> sorted_entries es"
  by (auto simp: mt_rep_def sl_rep_def sorted_entries_def sorted_wrt_map dest!: sl_wfD(4))

text \<open>Inserting an entry into a list in internal-key order.\<close>

definition insert_entry :: "MemtableEntry \<Rightarrow> MemtableEntry list \<Rightarrow> MemtableEntry list" where
  "insert_entry e es = filter (\<lambda>x. entry_less x e) es @ e # filter (\<lambda>x. \<not> entry_less x e) es"

lemma set_insert_entry [simp]: "set (insert_entry e es) = insert e (set es)"
  by (auto simp: insert_entry_def)

lemma mt_rep_Add:
  assumes "mt_rep m es" and "\<And>e. e \<in> set es \<Longrightarrow> ikey e \<noteq> (key, seq)"
  shows "\<exists>m'. Memtable_Add dist seq type key val m = Some m'
    \<and> mt_rep m' (insert_entry \<lparr>e_key = key, e_seq = seq, e_type = type, e_value = val\<rparr> es)
    \<and> mt_count m' = mt_count m + 1"
proof -
  let ?e = "\<lparr>e_key = key, e_seq = seq, e_type = type, e_value = val\<rparr>"
  obtain table where t: "SkipList_Insert MemtableKeyComparator dist ?e (mt_table m) = Some table"
      "sl_rep MemtableKeyComparator table (insert_entry ?e es)"
    using mk.Insert_rep [of "mt_table m" es ?e dist] assms by (auto simp: mt_rep_def insert_entry_def)
  then show ?thesis by (simp add: Memtable_Add_def mt_rep_def)
qed

lemma find_readable_sorted:
  assumes "sorted_entries es" and "\<And>e. e \<in> set es \<Longrightarrow> e_key e = key \<Longrightarrow> e_type e \<in> {kTypeValue, kTypeDeletion}"
  shows "find (readable key seq) es = (case filter (\<lambda>e. \<not> ikey_less (ikey e) (key, seq)) es of
    [] \<Rightarrow> None | e # _ \<Rightarrow> if e_key e = key then Some e else None)"
  using assms
proof (induction es)
  case (Cons e es)
  show ?case
  proof (cases "ikey_less (ikey e) (key, seq)")
    case True
    then have "\<not> readable key seq e" by (auto simp: readable_def ikey_less_def)
    with True Cons show ?thesis by simp
  next
    case False
    show ?thesis
    proof (cases "e_key e = key")
      case True
      then have "readable key seq e" using False Cons.prems(2) [of e] by (auto simp: readable_def ikey_less_def)
      with False True show ?thesis by simp
    next
      case neq: False
      then have "key < e_key e" using False by (auto simp: ikey_less_def)
      then have "key < e_key x" if "x \<in> set (e # es)" for x
        using that Cons.prems(1) by (auto simp: ikey_less_def)
      then have "find (readable key seq) (e # es) = None" by (intro find_none) (auto simp: readable_def)
      with False neq show ?thesis by simp
    qed
  qed
qed simp

lemma first_opt_map: "map_option f (first_opt xs) = first_opt (map f xs)"
  by (cases xs) simp_all

lemma Memtable_Get_ok:
  assumes "mt_rep m es" and "\<And>e. e \<in> set es \<Longrightarrow> e_key e = key \<Longrightarrow> e_type e \<in> {kTypeValue, kTypeDeletion}"
  shows "Memtable_Get key seq m = Some (found_result (find (readable key seq) es))"
proof -
  obtain ch where wf: "sl_wf MemtableKeyComparator (mt_table m) ch" and es: "es = map (sl_key (mt_table m)) (ch 0)"
    using assms(1) by (auto simp: mt_rep_def sl_rep_def)
  let ?B = "filter (\<lambda>n. \<not> ikey_less (ikey (sl_key (mt_table m) n)) (key, seq)) (ch 0)"
  have seek: "sl_Seek MemtableKeyComparator (default_entry\<lparr>e_key := key, e_seq := seq\<rparr>) (mt_table m) = Some (first_opt ?B)"
    using mk.FindGreaterOrEqual_ok [OF wf] by (simp add: sl_Seek_def default_entry_def)
  have filt: "filter (\<lambda>e. \<not> ikey_less (ikey e) (key, seq)) es = map (sl_key (mt_table m)) ?B"
    by (simp add: es filter_map comp_def)
  have B: "set ?B \<subseteq> set (ch 0)" by auto
  note found = find_readable_sorted [of es key seq, OF mt_rep_sorted [OF assms(1)] assms(2)]
  show ?thesis
  proof (cases ?B)
    case Nil
    then show ?thesis
      using found seek filt by (simp add: Memtable_Get_def)
  next
    case (Cons n ns)
    then have "sl_key (mt_table m) n \<in> set es" using B es by auto
    then show ?thesis
      using found seek filt Cons
        assms(2) [of "sl_key (mt_table m) n"]
      by (auto simp: Memtable_Get_def found_result_def default_entry_def)
  qed
qed

text \<open>The iterator at position \<open>i\<close>.\<close>

definition mi_at :: "MemTableIterator \<Rightarrow> MemtableEntry list \<Rightarrow> nat \<Rightarrow> bool" where
  "mi_at it es i \<longleftrightarrow> (\<exists>ch. sl_wf MemtableKeyComparator (mi_list it) ch \<and> es = map (sl_key (mi_list it)) (ch 0)
     \<and> i \<le> length es \<and> mi_node it = nth_opt (ch 0) i) \<and> (\<forall>e \<in> set es. e_seq e \<le> kMaxSequenceNumber)"

lemma mi_atE:
  assumes "mi_at it es i"
  obtains ch where "sl_wf MemtableKeyComparator (mi_list it) ch" "es = map (sl_key (mi_list it)) (ch 0)" "i \<le> length es"
    "mi_node it = nth_opt (ch 0) i" "\<forall>e \<in> set es. e_seq e \<le> kMaxSequenceNumber"
  using assms by (auto simp: mi_at_def)

lemma mi_at_move:
  assumes "sl_wf MemtableKeyComparator (mi_list it) ch" and "es = map (sl_key (mi_list it)) (ch 0)"
    and "\<forall>e \<in> set es. e_seq e \<le> kMaxSequenceNumber" and "j \<le> length es" and "n = nth_opt (ch 0) j"
  shows "mi_at (it\<lparr>mi_node := n\<rparr>) es j"
  unfolding mi_at_def using assms by auto

lemma mi_at_new:
  assumes "mt_rep m es" and "\<And>e. e \<in> set es \<Longrightarrow> e_seq e \<le> kMaxSequenceNumber"
  shows "mi_at (Memtable_NewIterator m) es (length es)"
  using assms by (auto simp: mt_rep_def sl_rep_def mi_at_def Memtable_NewIterator_def nth_opt_def)

lemma mi_at_sorted: "mi_at it es i \<Longrightarrow> sorted_entries es"
  by (auto simp: mi_at_def sorted_entries_def sorted_wrt_map dest!: sl_wfD(4))

lemma seek_pos_filter: "keys_sorted es \<Longrightarrow> length (filter (\<lambda>e. e_key e < target) es) = seek_pos target es"
proof (induction es)
  case (Cons e es)
  show ?case
  proof (cases "e_key e < target")
    case False
    then have "filter (\<lambda>e. e_key e < target) es = []" using Cons.prems by (auto simp: keys_sorted_def filter_empty_conv)
    with False show ?thesis by (simp add: seek_pos_def)
  qed (use Cons in \<open>simp add: seek_pos_def keys_sorted_def\<close>)
qed (simp add: seek_pos_def)

lemma mi_first:
  assumes "mi_at it es i"
  shows "\<exists>it'. mi_SeekToFirst it = Some it' \<and> mi_at it' es 0"
proof -
  obtain ch where c: "sl_wf MemtableKeyComparator (mi_list it) ch" "es = map (sl_key (mi_list it)) (ch 0)"
      "\<forall>e \<in> set es. e_seq e \<le> kMaxSequenceNumber"
    using assms by (rule mi_atE)
  have "mi_at (it\<lparr>mi_node := nth_opt (ch 0) 0\<rparr>) es 0" by (rule mi_at_move [OF c]) simp_all
  then show ?thesis using mk.sl_SeekToFirst_ok [OF c(1)] by (simp add: mi_SeekToFirst_def)
qed

lemma mi_last:
  assumes "mi_at it es i"
  shows "\<exists>it'. mi_SeekToLast it = Some it' \<and> mi_at it' es (if es = [] then 0 else length es - 1)"
proof -
  obtain ch where c: "sl_wf MemtableKeyComparator (mi_list it) ch" "es = map (sl_key (mi_list it)) (ch 0)"
      "\<forall>e \<in> set es. e_seq e \<le> kMaxSequenceNumber"
    using assms by (rule mi_atE)
  have "mi_at (it\<lparr>mi_node := nth_opt (ch 0) (length (ch 0) - 1)\<rparr>) es (length es - 1)"
    by (rule mi_at_move [OF c]) (use c(2) in simp_all)
  then show ?thesis using mk.sl_SeekToLast_ok [OF c(1)] by (cases "es = []") (simp_all add: mi_SeekToLast_def)
qed

lemma mi_seek:
  assumes "mi_at it es i"
  shows "\<exists>it'. mi_Seek target it = Some it' \<and> mi_at it' es (seek_pos target es)"
proof -
  obtain ch where c: "sl_wf MemtableKeyComparator (mi_list it) ch" "es = map (sl_key (mi_list it)) (ch 0)"
      "\<forall>e \<in> set es. e_seq e \<le> kMaxSequenceNumber"
    using assms by (rule mi_atE)
  let ?probe = "default_entry\<lparr>e_key := target, e_seq := kMaxSequenceNumber\<rparr>"
  have "ikey_less (ikey (sl_key (mi_list it) n)) (target, kMaxSequenceNumber) \<longleftrightarrow> e_key (sl_key (mi_list it) n) < target"
    if "n \<in> set (ch 0)" for n
    using c(2) c(3) that by (auto simp: ikey_less_def)
  then have "filter (\<lambda>n. MemtableKeyComparator (sl_key (mi_list it) n) ?probe < 0) (ch 0)
      = filter (\<lambda>n. e_key (sl_key (mi_list it) n) < target) (ch 0)"
    by (intro filter_cong) (simp_all add: default_entry_def)
  moreover have "length (filter (\<lambda>n. e_key (sl_key (mi_list it) n) < target) (ch 0)) = seek_pos target es"
    using seek_pos_filter [OF sorted_entries_keys [OF mi_at_sorted [OF assms]], of target]
    by (simp add: c(2) filter_map comp_def)
  ultimately have "mi_Seek target it = Some (it\<lparr>mi_node := nth_opt (ch 0) (seek_pos target es)\<rparr>)"
    using mk.sl_Seek_ok [OF c(1), of ?probe] by (simp add: mi_Seek_def)
  then show ?thesis using mi_at_move [OF c seek_pos_le refl] by blast
qed

lemma mi_next:
  assumes "mi_at it es i" and "i < length es"
  shows "\<exists>it'. mi_Next it = Some it' \<and> mi_at it' es (Suc i)"
proof -
  obtain ch where c: "sl_wf MemtableKeyComparator (mi_list it) ch" "es = map (sl_key (mi_list it)) (ch 0)"
      "mi_node it = nth_opt (ch 0) i" "\<forall>e \<in> set es. e_seq e \<le> kMaxSequenceNumber"
    using assms(1) by (rule mi_atE)
  have i: "i < length (ch 0)" using assms(2) c(2) by simp
  have "mi_Next it = Some (it\<lparr>mi_node := nth_opt (ch 0) (Suc i)\<rparr>)"
    using mk.sl_Next_ok [OF c(1) i] c(3) i by (simp add: mi_Next_def nth_opt_def)
  moreover have "mi_at (it\<lparr>mi_node := nth_opt (ch 0) (Suc i)\<rparr>) es (Suc i)"
    by (rule mi_at_move [OF c(1,2,4)]) (use assms(2) in simp_all)
  ultimately show ?thesis by blast
qed

lemma mi_prev:
  assumes "mi_at it es i" and "i < length es"
  shows "\<exists>it'. mi_Prev it = Some it' \<and> mi_at it' es (if i = 0 then length es else i - 1)"
proof -
  obtain ch where c: "sl_wf MemtableKeyComparator (mi_list it) ch" "es = map (sl_key (mi_list it)) (ch 0)"
      "mi_node it = nth_opt (ch 0) i" "\<forall>e \<in> set es. e_seq e \<le> kMaxSequenceNumber"
    using assms(1) by (rule mi_atE)
  have i: "i < length (ch 0)" using assms(2) c(2) by simp
  let ?n = "if i = 0 then None else Some (ch 0 ! (i - 1))"
  have "mi_Prev it = Some (it\<lparr>mi_node := ?n\<rparr>)"
    using mk.sl_Prev_ok [OF c(1) i] c(3) i by (simp add: mi_Prev_def nth_opt_def)
  moreover have "mi_at (it\<lparr>mi_node := ?n\<rparr>) es (if i = 0 then length es else i - 1)"
    by (rule mi_at_move [OF c(1,2,4)]) (use i c(2) in \<open>auto simp: nth_opt_def\<close>)
  ultimately show ?thesis by blast
qed

interpretation memtable_iterator: bidirectional_iterator
  "\<lambda>_ :: 'env. True" mi_at mi_Valid mi_Entry "\<lambda>it env. (the (mi_SeekToFirst it), env)"
  "\<lambda>target it env. (the (mi_Seek target it), env)" "\<lambda>it env. (the (mi_Next it), env)"
  "\<lambda>it env. (the (mi_SeekToLast it), env)" "\<lambda>it env. (the (mi_Prev it), env)"
proof unfold_locales
  fix it es i it' env env' target
  assume at: "mi_at it es i"
  then show "keys_sorted es \<and> i \<le> length es"
    using sorted_entries_keys [OF mi_at_sorted [OF at]] by (auto simp: mi_at_def)
  show "mi_Valid it = (i < length es)" "i < length es \<Longrightarrow> mi_Entry it = es ! i"
    using at by (auto simp: mi_at_def mi_Valid_def mi_Entry_def nth_opt_def split: if_splits)
  show "(the (mi_SeekToFirst it), env) = (it', env') \<Longrightarrow> mi_at it' es 0 \<and> True" using mi_first [OF at] by auto
  show "(the (mi_Seek target it), env) = (it', env') \<Longrightarrow> mi_at it' es (seek_pos target es) \<and> True"
    using mi_seek [OF at, of target] by auto
  show "(the (mi_SeekToLast it), env) = (it', env') \<Longrightarrow> mi_at it' es (if es = [] then 0 else length es - 1) \<and> True"
    using mi_last [OF at] by auto
  assume i: "i < length es"
  show "(the (mi_Next it), env) = (it', env') \<Longrightarrow> mi_at it' es (Suc i) \<and> True" using mi_next [OF at i] by auto
  show "(the (mi_Prev it), env) = (it', env') \<Longrightarrow> mi_at it' es (if i = 0 then length es else i - 1) \<and> True"
    using mi_prev [OF at i] by auto
qed

section \<open>Properties\<close>

text \<open>A sequence of writes to a memtable, each with its sequence number.\<close>

fun add_all :: "(nat \<Rightarrow> nat) \<Rightarrow> MemtableEntry list \<Rightarrow> Memtable \<Rightarrow> Memtable option" where
  "add_all dist [] m = Some m"
| "add_all dist (e # es) m = do {
     m' \<leftarrow> Memtable_Add dist (e_seq e) (e_type e) (e_key e) (e_value e) m;
     add_all dist es m'
   }"

lemma add_all_rep:
  assumes "mt_rep m es" and "distinct (map ikey (ws @ es))"
  shows "\<exists>m' es'. add_all dist ws m = Some m' \<and> mt_rep m' es' \<and> set es' = set es \<union> set ws
    \<and> mt_count m' = mt_count m + of_nat (length ws)"
  using assms
proof (induction ws arbitrary: m es)
  case (Cons e ws)
  have new: "ikey x \<noteq> (e_key e, e_seq e)" if "x \<in> set es" for x
    using Cons.prems(2) that by (auto simp: image_iff)
  have "\<lparr>e_key = e_key e, e_seq = e_seq e, e_type = e_type e, e_value = e_value e\<rparr> = e" by simp
  with mt_rep_Add [OF Cons.prems(1) new, of dist "e_type e" "e_value e"] obtain m1 where
    m1: "Memtable_Add dist (e_seq e) (e_type e) (e_key e) (e_value e) m = Some m1" "mt_rep m1 (insert_entry e es)"
      "mt_count m1 = mt_count m + 1" by auto
  have "distinct (map ikey (insert_entry e es))"
    using mt_rep_sorted [OF m1(2)] by (rule sorted_entries_distinct)
  then have "distinct (map ikey (ws @ insert_entry e es))" using Cons.prems(2) by auto
  from Cons.IH [OF m1(2) this] obtain m' es' where "add_all dist ws m1 = Some m'" "mt_rep m' es'"
      "set es' = set (insert_entry e es) \<union> set ws" "mt_count m' = mt_count m1 + of_nat (length ws)" by blast
  then show ?case using m1 by (intro exI [of _ m'] exI [of _ es']) (simp add: ac_simps)
qed auto

text \<open>The newest version of a key a reader at \<open>seq\<close> may see, among a set of entries.\<close>

definition newest :: "bytes \<Rightarrow> SequenceNumber \<Rightarrow> MemtableEntry set \<Rightarrow> MemtableEntry option \<Rightarrow> bool" where
  "newest key seq E r \<longleftrightarrow> (case r of
     None \<Rightarrow> \<forall>e \<in> E. \<not> readable key seq e
   | Some e \<Rightarrow> e \<in> E \<and> readable key seq e \<and> (\<forall>e' \<in> E. readable key seq e' \<longrightarrow> e_seq e' \<le> e_seq e))"

lemma newest_simps:
  "newest key seq E None \<longleftrightarrow> (\<forall>e \<in> E. \<not> readable key seq e)"
  "newest key seq E (Some e) \<longleftrightarrow> e \<in> E \<and> readable key seq e \<and> (\<forall>e' \<in> E. readable key seq e' \<longrightarrow> e_seq e' \<le> e_seq e)"
  by (simp_all add: newest_def)

lemma newest_find: "sorted_entries es \<Longrightarrow> newest key seq (set es) (find (readable key seq) es)"
proof (induction es)
  case (Cons e es)
  show ?case
  proof (cases "readable key seq e")
    case True
    have "e_seq e' \<le> e_seq e" if "e' \<in> set es" "readable key seq e'" for e'
    proof -
      have "entry_less e e'" using that(1) Cons.prems by simp
      then show ?thesis using True that(2) by (simp add: readable_def ikey_less_def)
    qed
    with True show ?thesis by (simp add: newest_simps)
  next
    case False
    have "newest key seq (set es) (find (readable key seq) es)" using Cons by simp
    with False show ?thesis by (cases "find (readable key seq) es") (simp_all add: newest_simps)
  qed
qed (simp add: newest_simps)

text \<open>C25: A memtable is a versioned map: after any writes with distinct versions, made at any skip-list
  heights, the insertions all return, the count is the number of writes, and a lookup at any
  sequence number returns the newest version of the key that is not newer than it: its value,
  a deletion, or nothing when there is none.\<close>

theorem memtable_get_newest:
  assumes "distinct (map ikey ws)" and "\<forall>e \<in> set ws. e_type e \<in> {kTypeValue, kTypeDeletion}"
  shows "\<exists>m r. add_all dist ws Memtable_new = Some m \<and> Memtable_Count m = of_nat (length ws)
    \<and> newest key seq (set ws) r \<and> Memtable_Get key seq m = Some (found_result r)"
proof -
  obtain m es where m: "add_all dist ws Memtable_new = Some m" "mt_rep m es" "set es = set ws" "mt_count m = of_nat (length ws)"
    using add_all_rep [OF mt_rep_new, of ws dist] assms(1) by (auto simp: Memtable_new_def)
  have "Memtable_Get key seq m = Some (found_result (find (readable key seq) es))"
    using m(2) by (rule Memtable_Get_ok) (use assms(2) m(3) in blast)
  with m newest_find [OF mt_rep_sorted [OF m(2)], of key seq] show ?thesis by (auto simp: Memtable_Count_def)
qed

theorem memtable_get_newest_witness:
  "\<exists>m r. add_all (\<lambda>n. n mod 2) [\<lparr>e_key = [97], e_seq = 1, e_type = 1, e_value = [5]\<rparr>,
       \<lparr>e_key = [97], e_seq = 3, e_type = 0, e_value = []\<rparr>] Memtable_new = Some m \<and> Memtable_Get [97] 2 m = Some (found_result r)
     \<and> r \<noteq> None"
proof -
  let ?ws = "[\<lparr>e_key = [97], e_seq = 1, e_type = 1, e_value = [5]\<rparr>, \<lparr>e_key = [97], e_seq = 3, e_type = 0, e_value = []\<rparr>] :: MemtableEntry list"
  have "\<exists>m r. add_all (\<lambda>n. n mod 2) ?ws Memtable_new = Some m \<and> Memtable_Count m = of_nat (length ?ws)
    \<and> newest [97] 2 (set ?ws) r \<and> Memtable_Get [97] 2 m = Some (found_result r)"
    by (rule memtable_get_newest) (simp_all add: kTypeValue_def kTypeDeletion_def)
  moreover have "r \<noteq> None" if "newest [97] 2 (set ?ws) r" for r
    using that by (cases r) (auto simp: newest_def readable_def kTypeValue_def)
  ultimately show ?thesis by blast
qed

text \<open>The setting of an insertion with a concurrent search: the writer has prepared the new node.\<close>

lemma insertion_ready:
  assumes rep: "sl_rep MemtableKeyComparator sl es" and new: "\<And>x. x \<in> set es \<Longrightarrow> ikey x \<noteq> ikey e"
    and find: "FindGreaterOrEqual MemtableKeyComparator sl e = Some (n0, prev)"
    and p: "prepare_insert dist e prev sl = (x, h, prev1, sl1)"
  obtains ch P where "sl_wf MemtableKeyComparator sl1 ch" "splits P ch" "fresh_node sl1 ch x" "sl_height sl1 x = h"
    "h \<le> sl_max_height sl1" "1 \<le> h" "\<forall>i < h. prev1 i = Some (border P ch i)"
    "\<forall>n \<in> set (ch 0). if P n then MemtableKeyComparator (sl_key sl1 n) (sl_key sl1 x) < 0
      else MemtableKeyComparator (sl_key sl1 x) (sl_key sl1 n) < 0"
    "map (sl_key sl1) (ch 0) = es" "\<forall>i > 0. map (sl_key sl1) (linked P x i ch 0) = insert_entry e es"
proof -
  obtain ch where wf: "sl_wf MemtableKeyComparator sl ch" and es: "map (sl_key sl) (ch 0) = es"
    using rep by (auto simp: sl_rep_def)
  let ?P = "\<lambda>n. MemtableKeyComparator (sl_key sl n) e < 0"
  have prev: "prev = (\<lambda>i. if i < sl_max_height sl then Some (border ?P ch i) else None)"
    using find mk.FindGreaterOrEqual_ok [OF wf, of e] by simp
  have ne: "MemtableKeyComparator (sl_key sl n) e \<noteq> 0" if "n \<in> set (ch 0)" for n
  proof -
    have "sl_key sl n \<in> set es" using that es by auto
    then show ?thesis using new [of "sl_key sl n"] by simp
  qed
  note R = mk.prepare_insert_ok [OF wf ne p prev]
  have x: "n \<noteq> x" if "n \<in> set (ch 0)" for n using R(3) that by (auto simp: fresh_node_def kMaxHeight_def)
  have keys: "map (sl_key sl1) (ch 0) = es" using x by (auto simp: R(7) es [symmetric])
  have "map (sl_key sl1) (linked ?P x i ch 0) = insert_entry e es" if "i > 0" for i
    using that x by (auto simp: linked_def insert_entry_def R(7) es [symmetric] filter_map comp_def)
  then show thesis
    using that [OF R(1) mk.splits_before [OF wf, of e] R(3,4,6,5)] R(8,9) keys by blast
qed

text \<open>C26: Searches need no lock: a search that runs while an entry is inserted, its loads interleaved in any
  way with the stores of the insertion, never follows a dangling link, and returns the first
  entry not before the target either of the list without the new entry or of the list with it.\<close>

theorem skiplist_concurrent_search:
  assumes "sl_rep MemtableKeyComparator sl es" and "\<forall>x \<in> set es. ikey x \<noteq> ikey e"
    and "FindGreaterOrEqual MemtableKeyComparator sl e = Some (n0, prev)"
    and "prepare_insert dist e prev sl = (x, h, prev1, sl1)" and "l < kMaxHeight"
    and "(conc_step MemtableKeyComparator target prev1 x h)\<^sup>*\<^sup>* (sl1, 0, False, Searching 0 l) (sl', i, b, r)"
  shows "(\<forall>y k. r = Searching y k \<longrightarrow> Node_Next sl' y k \<noteq> None)
    \<and> (\<forall>n. r = Returned n \<longrightarrow> map_option (sl_key sl') n \<in>
        {first_opt (filter (\<lambda>a. \<not> entry_less a target) es), first_opt (filter (\<lambda>a. \<not> entry_less a target) (insert_entry e es))})"
proof -
  obtain ch P where R: "sl_wf MemtableKeyComparator sl1 ch" "splits P ch" "fresh_node sl1 ch x" "sl_height sl1 x = h"
    "h \<le> sl_max_height sl1" "1 \<le> h" "\<forall>i < h. prev1 i = Some (border P ch i)"
    "\<forall>n \<in> set (ch 0). if P n then MemtableKeyComparator (sl_key sl1 n) (sl_key sl1 x) < 0
      else MemtableKeyComparator (sl_key sl1 x) (sl_key sl1 n) < 0"
    "map (sl_key sl1) (ch 0) = es" "\<forall>i > 0. map (sl_key sl1) (linked P x i ch 0) = insert_entry e es"
    using insertion_ready [OF assms(1) _ assms(3,4)] assms(2) by blast
  have init: "mk.conc_inv sl1 target P x h ch (sl1, 0, False, Searching 0 l)"
    using R(1) assms(5) unfolding mk.conc_inv_iff by (simp add: sl_frame_refl mk.reader_ok_def)
  have inv: "mk.conc_inv sl1 target P x h ch (sl', i, b, r)"
    using assms(6)
  proof (induction rule: rtranclp_induct)
    case (step s s')
    then show ?case using mk.conc_inv_step [OF R(1-5), of prev1 target s s'] R(7,8) by blast
  qed (rule init)
  have keys: "sl_key sl' = sl_key sl1" using inv by (simp add: mk.conc_inv_iff sl_frame_def)
  have "Node_Next sl' y k \<noteq> None" if "r = Searching y k" for y k
    using mk.conc_inv_reader [OF inv [unfolded that]] by blast
  moreover have "map_option (sl_key sl') n \<in> {first_opt (filter (\<lambda>a. \<not> entry_less a target) es),
      first_opt (filter (\<lambda>a. \<not> entry_less a target) (insert_entry e es))}" if r: "r = Returned n" for n
  proof -
    obtain j where n: "n = first_opt (filter (\<lambda>n. \<not> entry_less (sl_key sl1 n) target) (linked P x j ch 0))"
      using inv [unfolded r mk.conc_inv_iff mk.reader_ok_def reader.case MemtableKeyComparator_less] by blast
    have "map_option (sl_key sl') n = first_opt (filter (\<lambda>a. \<not> entry_less a target) (map (sl_key sl1) (linked P x j ch 0)))"
      unfolding n keys by (simp add: first_opt_map filter_map comp_def)
    then show ?thesis using R(9,10) by (cases "j = 0") auto
  qed
  ultimately show ?thesis by blast
qed

text \<open>C27: Searching and inserting are free of deadlock and livelock: no interleaving of the two is
  infinite, and one that cannot continue has linked the entry on all its levels and the search
  has returned.\<close>

theorem skiplist_concurrent_progress:
  assumes "sl_rep MemtableKeyComparator sl es" and "\<forall>x \<in> set es. ikey x \<noteq> ikey e"
    and "FindGreaterOrEqual MemtableKeyComparator sl e = Some (n0, prev)"
    and "prepare_insert dist e prev sl = (x, h, prev1, sl1)" and "l < kMaxHeight"
  shows "(\<nexists>f. f 0 = (sl1, 0, False, Searching 0 l) \<and> (\<forall>k. conc_step MemtableKeyComparator target prev1 x h (f k) (f (Suc k))))
    \<and> (\<forall>s. (conc_step MemtableKeyComparator target prev1 x h)\<^sup>*\<^sup>* (sl1, 0, False, Searching 0 l) s
        \<longrightarrow> (\<nexists>s'. conc_step MemtableKeyComparator target prev1 x h s s')
        \<longrightarrow> (\<exists>sl' n. s = (sl', h, False, Returned n) \<and> sl_rep MemtableKeyComparator sl' (insert_entry e es)))"
proof -
  let ?step = "conc_step MemtableKeyComparator target prev1 x h" and ?s0 = "(sl1, 0, False, Searching 0 l)"
  obtain ch P where R: "sl_wf MemtableKeyComparator sl1 ch" "splits P ch" "fresh_node sl1 ch x" "sl_height sl1 x = h"
    "h \<le> sl_max_height sl1" "1 \<le> h" "\<forall>i < h. prev1 i = Some (border P ch i)"
    "\<forall>n \<in> set (ch 0). if P n then MemtableKeyComparator (sl_key sl1 n) (sl_key sl1 x) < 0
      else MemtableKeyComparator (sl_key sl1 x) (sl_key sl1 n) < 0"
    "map (sl_key sl1) (ch 0) = es" "\<forall>i > 0. map (sl_key sl1) (linked P x i ch 0) = insert_entry e es"
    using insertion_ready [OF assms(1) _ assms(3,4)] assms(2) by blast
  have init: "mk.conc_inv sl1 target P x h ch ?s0"
    using R(1) assms(5) unfolding mk.conc_inv_iff by (simp add: sl_frame_refl mk.reader_ok_def)
  have step: "mk.conc_inv sl1 target P x h ch s'" if "?step s s'" "mk.conc_inv sl1 target P x h ch s" for s s'
    using mk.conc_inv_step [OF R(1-5), of prev1 target s s'] R(7,8) that by blast
  have "\<nexists>f. f 0 = ?s0 \<and> (\<forall>k. ?step (f k) (f (Suc k)))"
  proof
    assume "\<exists>f. f 0 = ?s0 \<and> (\<forall>k. ?step (f k) (f (Suc k)))"
    then obtain f where f: "f 0 = ?s0" "\<And>k. ?step (f k) (f (Suc k))" by blast
    have inv: "mk.conc_inv sl1 target P x h ch (f k)" for k
      by (induction k) (use init step f in \<open>simp_all, blast\<close>)
    have "(mk.conc_measure sl1 target P x h ch (f (Suc k)), mk.conc_measure sl1 target P x h ch (f k))
        \<in> less_than <*lex*> less_than <*lex*> less_than" for k
      using mk.conc_step_measure [OF inv f(2)] .
    then have "\<exists>g. \<forall>k. (g (Suc k), g k) \<in> less_than <*lex*> less_than <*lex*> less_than"
      by (intro exI [of _ "\<lambda>k. mk.conc_measure sl1 target P x h ch (f k)"]) blast
    moreover have "wf (less_than <*lex*> less_than <*lex*> less_than)" by (intro wf_lex_prod wf_less_than)
    ultimately show False unfolding wf_iff_no_infinite_down_chain by (rule notE [rotated])
  qed
  moreover have "\<exists>sl' n. s = (sl', h, False, Returned n) \<and> sl_rep MemtableKeyComparator sl' (insert_entry e es)"
    if run: "?step\<^sup>*\<^sup>* ?s0 s" and stuck: "\<nexists>s'. ?step s s'" for s
  proof -
    have inv: "mk.conc_inv sl1 target P x h ch s"
      using run by (induction rule: rtranclp_induct) (use init step in blast)+
    obtain sl' n where s: "s = (sl', h, False, Returned n)"
      using mk.conc_progress [OF R(1-5) _ inv, of prev1] R(7) stuck by blast
    have "sl_wf MemtableKeyComparator sl' (linked P x h ch)" "sl_key sl' = sl_key sl1"
      using inv unfolding s mk.conc_inv_iff by (simp_all add: sl_frame_def)
    then show ?thesis using s R(6,10) by (auto simp: sl_rep_def)
  qed
  ultimately show ?thesis by blast
qed

lemma sample_insertion:
  obtains prev x h prev1 sl1 where "FindGreaterOrEqual MemtableKeyComparator (SkipList_new default_entry) e = Some (None, prev)"
    "prepare_insert (\<lambda>_. 1) e prev (SkipList_new default_entry) = (x, h, prev1, sl1)" "Node_Next sl1 0 0 = Some None"
    "sl_rep MemtableKeyComparator (SkipList_new default_entry) []"
proof -
  let ?sl = "SkipList_new default_entry"
  have wf: "sl_wf MemtableKeyComparator ?sl (\<lambda>_. [])" by (rule mk.SkipList_new_wf)
  obtain prev where f: "FindGreaterOrEqual MemtableKeyComparator ?sl e = Some (None, prev)"
    using mk.FindGreaterOrEqual_ok [OF wf, of e] by simp
  obtain x h prev1 sl1 where p: "prepare_insert (\<lambda>_. 1) e prev ?sl = (x, h, prev1, sl1)" by (metis prod_cases4)
  have "Node_Next sl1 0 0 = Some None"
    using p by (auto simp: prepare_insert_def NewNode_def Node_Next_def SkipList_new_def kMaxHeight_def Let_def
        split: prod.splits if_splits)
  moreover have "sl_rep MemtableKeyComparator ?sl []" using wf by (auto simp: sl_rep_def)
  ultimately show thesis using that f p by blast
qed

theorem skiplist_concurrent_search_witness:
  "\<exists>prev x h prev1 sl1. prepare_insert (\<lambda>_. 1) default_entry prev (SkipList_new default_entry) = (x, h, prev1, sl1)
     \<and> (conc_step MemtableKeyComparator default_entry prev1 x h)\<^sup>*\<^sup>* (sl1, 0, False, Searching 0 0) (sl1, 0, False, Returned None)
     \<and> map_option (sl_key sl1) None \<in> {None, Some default_entry}"
proof -
  obtain prev x h prev1 sl1 where s: "FindGreaterOrEqual MemtableKeyComparator (SkipList_new default_entry) default_entry = Some (None, prev)"
    "prepare_insert (\<lambda>_. 1) default_entry prev (SkipList_new default_entry) = (x, h, prev1, sl1)" "Node_Next sl1 0 0 = Some None"
    "sl_rep MemtableKeyComparator (SkipList_new default_entry) []"
    by (rule sample_insertion)
  have run: "(conc_step MemtableKeyComparator default_entry prev1 x h)\<^sup>*\<^sup>* (sl1, 0, False, Searching 0 0) (sl1, 0, False, Returned None)"
    by (rule r_into_rtranclp, rule conc_step.return [OF s(3)]) (simp add: KeyIsAfterNode_def)
  from skiplist_concurrent_search [OF s(4) _ s(1,2) _ run] have "map_option (sl_key sl1) None \<in> {None, Some default_entry}"
    by (simp add: kMaxHeight_def)
  with s(2) run show ?thesis by blast
qed

theorem skiplist_concurrent_progress_witness:
  "\<exists>prev x h prev1 sl1. prepare_insert (\<lambda>_. 1) default_entry prev (SkipList_new default_entry) = (x, h, prev1, sl1)
     \<and> (\<nexists>f. f 0 = (sl1, 0, False, Searching 0 0) \<and> (\<forall>k. conc_step MemtableKeyComparator default_entry prev1 x h (f k) (f (Suc k))))"
proof -
  obtain prev x h prev1 sl1 where s: "FindGreaterOrEqual MemtableKeyComparator (SkipList_new default_entry) default_entry = Some (None, prev)"
    "prepare_insert (\<lambda>_. 1) default_entry prev (SkipList_new default_entry) = (x, h, prev1, sl1)" "Node_Next sl1 0 0 = Some None"
    "sl_rep MemtableKeyComparator (SkipList_new default_entry) []"
    by (rule sample_insertion)
  have "0 < kMaxHeight" by (simp add: kMaxHeight_def)
  from skiplist_concurrent_progress [OF s(4) _ s(1,2) this, of default_entry, THEN conjunct1]
  have "\<nexists>f. f 0 = (sl1, 0, False, Searching 0 0) \<and> (\<forall>k. conc_step MemtableKeyComparator default_entry prev1 x h (f k) (f (Suc k)))"
    by simp
  with s(2) show ?thesis by (intro exI conjI)
qed

end
