(* ===== verification/Merging_Iterator.thy ===== *)
theory Merging_Iterator
  imports Table_Iterator Memtable "HOL-Library.Multiset"
begin

text \<open>
  Merging several internal iterators (src/merging_iterator.h, src/merging_iterator.cc).  The
  engine merges iterators of memtables and of tables, so a child is one of the two and a call
  through \<^verbatim>\<open>InternalIterator\<close> is a case distinction.  \<open>mg_at\<close> says that the merging
  iterator is at a position of the sorted merge of what the children hold; the interpretation of
  \<open>forward_iterator\<close> shows that forward moves and seeks keep it.
\<close>

datatype Child = MemChild MemTableIterator | TableChild TwoLevelIterator

definition child_Valid :: "Child \<Rightarrow> bool" where
  "child_Valid c = (case c of MemChild m \<Rightarrow> mi_Valid m | TableChild t \<Rightarrow> tl_Valid t)"

definition child_Entry :: "Child \<Rightarrow> MemtableEntry" where
  "child_Entry c = (case c of MemChild m \<Rightarrow> mi_Entry m | TableChild t \<Rightarrow> tl_Entry t)"

definition child_status :: "Child \<Rightarrow> Status" where
  "child_status c = (case c of MemChild m \<Rightarrow> mi_status m | TableChild t \<Rightarrow> tl_status_of t)"

definition child_SeekToFirst :: "Child \<Rightarrow> env \<Rightarrow> (Child \<times> env) option" where
  "child_SeekToFirst c env = (case c of
     MemChild m \<Rightarrow> map_option (\<lambda>m. (MemChild m, env)) (mi_SeekToFirst m)
   | TableChild t \<Rightarrow> Some (apfst TableChild (tl_SeekToFirst t env)))"

definition child_SeekToLast :: "Child \<Rightarrow> env \<Rightarrow> (Child \<times> env) option" where
  "child_SeekToLast c env = (case c of
     MemChild m \<Rightarrow> map_option (\<lambda>m. (MemChild m, env)) (mi_SeekToLast m)
   | TableChild t \<Rightarrow> map_option (apfst TableChild) (tl_SeekToLast t env))"

definition child_Seek :: "bytes \<Rightarrow> Child \<Rightarrow> env \<Rightarrow> (Child \<times> env) option" where
  "child_Seek target c env = (case c of
     MemChild m \<Rightarrow> map_option (\<lambda>m. (MemChild m, env)) (mi_Seek target m)
   | TableChild t \<Rightarrow> map_option (apfst TableChild) (tl_Seek target t env))"

definition child_Next :: "Child \<Rightarrow> env \<Rightarrow> (Child \<times> env) option" where
  "child_Next c env = (case c of
     MemChild m \<Rightarrow> map_option (\<lambda>m. (MemChild m, env)) (mi_Next m)
   | TableChild t \<Rightarrow> Some (apfst TableChild (tl_Next t env)))"

definition child_Prev :: "Child \<Rightarrow> env \<Rightarrow> (Child \<times> env) option" where
  "child_Prev c env = (case c of
     MemChild m \<Rightarrow> map_option (\<lambda>m. (MemChild m, env)) (mi_Prev m)
   | TableChild t \<Rightarrow> map_option (apfst TableChild) (tl_Prev t env))"

definition CompareIterators :: "Child \<Rightarrow> Child \<Rightarrow> int" where
  "CompareIterators a b =
     (let ea = child_Entry a; eb = child_Entry b; r = slice_compare (e_key ea) (e_key eb)
      in if r \<noteq> 0 then r
         else if e_seq ea > e_seq eb then -1
         else if e_seq ea < e_seq eb then 1
         else if e_type ea > e_type eb then -1
         else if e_type ea < e_type eb then 1
         else 0)"

text \<open>\<^verbatim>\<open>current_\<close> points at a child, here by its index.\<close>

record MergingIterator =
  mg_children :: "Child list"
  mg_current :: "nat option"

definition MergingIterator_new :: "Child list \<Rightarrow> MergingIterator" where
  "MergingIterator_new children = \<lparr>mg_children = children, mg_current = None\<rparr>"

definition NewMergingIterator :: "Child list \<Rightarrow> MergingIterator option" where
  "NewMergingIterator children = (if children = [] then None else Some (MergingIterator_new children))"

definition mg_Valid :: "MergingIterator \<Rightarrow> bool" where
  "mg_Valid it = (case mg_current it of None \<Rightarrow> False | Some j \<Rightarrow> child_Valid (mg_children it ! j))"

fun find_best :: "(Child \<Rightarrow> Child \<Rightarrow> bool) \<Rightarrow> Child list \<Rightarrow> nat list \<Rightarrow> nat option \<Rightarrow> nat option" where
  "find_best better cs [] best = best"
| "find_best better cs (i # js) best =
     find_best better cs js
       (if child_Valid (cs ! i) \<and> (case best of None \<Rightarrow> True | Some b \<Rightarrow> better (cs ! i) (cs ! b))
        then Some i else best)"

definition FindSmallest :: "MergingIterator \<Rightarrow> MergingIterator" where
  "FindSmallest it = it\<lparr>mg_current :=
     find_best (\<lambda>c best. CompareIterators c best < 0) (mg_children it) [0..<length (mg_children it)] None\<rparr>"

definition FindLargest :: "MergingIterator \<Rightarrow> MergingIterator" where
  "FindLargest it = it\<lparr>mg_current :=
     find_best (\<lambda>c best. CompareIterators c best > 0) (mg_children it) [0..<length (mg_children it)] None\<rparr>"

fun move_all :: "(Child \<Rightarrow> env \<Rightarrow> (Child \<times> env) option) \<Rightarrow> Child list \<Rightarrow> env \<Rightarrow> (Child list \<times> env) option" where
  "move_all move [] env = Some ([], env)"
| "move_all move (c # cs) env = do {
     (c', env1) \<leftarrow> move c env;
     (cs', env2) \<leftarrow> move_all move cs env1;
     Some (c' # cs', env2)
   }"

definition mg_SeekToFirst :: "MergingIterator \<Rightarrow> env \<Rightarrow> (MergingIterator \<times> env) option" where
  "mg_SeekToFirst it env = do {
     (cs, env1) \<leftarrow> move_all child_SeekToFirst (mg_children it) env;
     Some (FindSmallest (it\<lparr>mg_children := cs\<rparr>), env1)
   }"

definition mg_SeekToLast :: "MergingIterator \<Rightarrow> env \<Rightarrow> (MergingIterator \<times> env) option" where
  "mg_SeekToLast it env = do {
     (cs, env1) \<leftarrow> move_all child_SeekToLast (mg_children it) env;
     Some (FindLargest (it\<lparr>mg_children := cs\<rparr>), env1)
   }"

definition mg_Seek :: "bytes \<Rightarrow> MergingIterator \<Rightarrow> env \<Rightarrow> (MergingIterator \<times> env) option" where
  "mg_Seek target it env = do {
     (cs, env1) \<leftarrow> move_all (child_Seek target) (mg_children it) env;
     Some (FindSmallest (it\<lparr>mg_children := cs\<rparr>), env1)
   }"

definition mg_Next :: "MergingIterator \<Rightarrow> env \<Rightarrow> (MergingIterator \<times> env) option" where
  "mg_Next it env = (if \<not> mg_Valid it then None else do {
     j \<leftarrow> mg_current it;
     (c, env1) \<leftarrow> child_Next (mg_children it ! j) env;
     Some (FindSmallest (it\<lparr>mg_children := (mg_children it)[j := c]\<rparr>), env1)
   })"

definition mg_Prev :: "MergingIterator \<Rightarrow> env \<Rightarrow> (MergingIterator \<times> env) option" where
  "mg_Prev it env = (if \<not> mg_Valid it then None else do {
     j \<leftarrow> mg_current it;
     (c, env1) \<leftarrow> child_Prev (mg_children it ! j) env;
     Some (FindLargest (it\<lparr>mg_children := (mg_children it)[j := c]\<rparr>), env1)
   })"

definition mg_Entry :: "MergingIterator \<Rightarrow> MemtableEntry" where
  "mg_Entry it = child_Entry (mg_children it ! the (mg_current it))"

fun first_error :: "Status list \<Rightarrow> Status" where
  "first_error [] = OK"
| "first_error (s # ss) = (if \<not> ok s then s else first_error ss)"

definition mg_status :: "MergingIterator \<Rightarrow> Status" where
  "mg_status it = first_error (map child_status (mg_children it))"

section \<open>Children\<close>

definition child_at :: "tables \<Rightarrow> Child \<Rightarrow> MemtableEntry list \<Rightarrow> nat \<Rightarrow> bool" where
  "child_at tabs c es i \<longleftrightarrow> sorted_entries es \<and>
     (case c of MemChild m \<Rightarrow> mi_at m es i | TableChild t \<Rightarrow> tl_at tabs t es i)"

lemma child_at_basic:
  assumes "child_at tabs c es i"
  shows "sorted_entries es" "i \<le> length es" "child_Valid c \<longleftrightarrow> i < length es" "i < length es \<Longrightarrow> child_Entry c = es ! i"
  using assms memtable_iterator.at_sorted memtable_iterator.valid_iff memtable_iterator.entry_at
    table_iterator.at_sorted table_iterator.valid_iff table_iterator.entry_at
  by (auto simp: child_at_def child_Valid_def child_Entry_def split: Child.splits)

lemma child_at_status: "child_at tabs c es i \<Longrightarrow> child_status c = OK"
  by (auto simp: child_at_def child_status_def mi_status_def tl_at_status split: Child.splits)

definition moves :: "(Child \<Rightarrow> env \<Rightarrow> (Child \<times> env) option) \<Rightarrow> tables \<Rightarrow> Child \<Rightarrow> MemtableEntry list \<Rightarrow> nat \<Rightarrow> nat \<Rightarrow> bool" where
  "moves move tabs c es i j \<longleftrightarrow> (\<forall>env. child_at tabs c es i \<longrightarrow> env_ok tabs env \<longrightarrow>
     (\<exists>c' env'. move c env = Some (c', env') \<and> child_at tabs c' es j \<and> env_ok tabs env'))"

lemma child_first: "moves child_SeekToFirst tabs c es i 0"
proof (cases c)
  case (MemChild m)
  then show ?thesis using mi_first [of m es i] by (auto simp: moves_def child_at_def child_SeekToFirst_def)
next
  case (TableChild t)
  show ?thesis unfolding moves_def
  proof (intro allI impI)
    fix env assume a: "child_at tabs c es i" "env_ok tabs env"
    obtain t' env' where t': "tl_SeekToFirst t env = (t', env')" by (metis surj_pair)
    then show "\<exists>c' env'. child_SeekToFirst c env = Some (c', env') \<and> child_at tabs c' es 0 \<and> env_ok tabs env'"
      using tl_first [OF _ a(2) t', of es i] a(1) TableChild by (simp add: child_at_def child_SeekToFirst_def)
  qed
qed

lemma child_next: "i < length es \<Longrightarrow> moves child_Next tabs c es i (Suc i)"
proof (cases c)
  case (MemChild m)
  then show "i < length es \<Longrightarrow> ?thesis" using mi_next [of m es i] by (auto simp: moves_def child_at_def child_Next_def)
next
  case (TableChild t)
  assume i: "i < length es"
  show ?thesis unfolding moves_def
  proof (intro allI impI)
    fix env assume a: "child_at tabs c es i" "env_ok tabs env"
    obtain t' env' where t': "tl_Next t env = (t', env')" by (metis surj_pair)
    then show "\<exists>c' env'. child_Next c env = Some (c', env') \<and> child_at tabs c' es (Suc i) \<and> env_ok tabs env'"
      using tl_next [OF _ i a(2) t'] a(1) TableChild by (simp add: child_at_def child_Next_def)
  qed
qed

lemma child_seek: "moves (child_Seek target) tabs c es i (seek_pos target es)"
proof (cases c)
  case (MemChild m)
  then show ?thesis using mi_seek [of m es i target] by (auto simp: moves_def child_at_def child_Seek_def)
next
  case (TableChild t)
  show ?thesis unfolding moves_def
  proof (intro allI impI)
    fix env assume a: "child_at tabs c es i" "env_ok tabs env"
    then obtain t' env' where "tl_Seek target t env = Some (t', env')" "tl_at tabs t' es (seek_pos target es)" "env_ok tabs env'"
      using tl_seek [OF _ a(2), of t es i target] TableChild by (auto simp: child_at_def)
    then show "\<exists>c' env'. child_Seek target c env = Some (c', env') \<and> child_at tabs c' es (seek_pos target es) \<and> env_ok tabs env'"
      using a(1) TableChild by (simp add: child_at_def child_Seek_def)
  qed
qed

lemma child_last: "moves child_SeekToLast tabs c es i (if es = [] then 0 else length es - 1)"
proof (cases c)
  case (MemChild m)
  then show ?thesis using mi_last [of m es i] by (auto simp: moves_def child_at_def child_SeekToLast_def)
next
  case (TableChild t)
  let ?j = "if es = [] then 0 else length es - 1"
  show ?thesis unfolding moves_def
  proof (intro allI impI)
    fix env assume a: "child_at tabs c es i" "env_ok tabs env"
    then obtain t' env' where "tl_SeekToLast t env = Some (t', env')" "tl_at tabs t' es ?j" "env_ok tabs env'"
      using tl_last [OF _ a(2), of t es i] TableChild by (auto simp: child_at_def)
    then show "\<exists>c' env'. child_SeekToLast c env = Some (c', env') \<and> child_at tabs c' es ?j \<and> env_ok tabs env'"
      using a(1) TableChild by (simp add: child_at_def child_SeekToLast_def)
  qed
qed

lemma child_prev: "i < length es \<Longrightarrow> moves child_Prev tabs c es i (if i = 0 then length es else i - 1)"
proof (cases c)
  case (MemChild m)
  then show "i < length es \<Longrightarrow> ?thesis" using mi_prev [of m es i] by (auto simp: moves_def child_at_def child_Prev_def)
next
  case (TableChild t)
  assume i: "i < length es"
  let ?j = "if i = 0 then length es else i - 1"
  show ?thesis unfolding moves_def
  proof (intro allI impI)
    fix env assume a: "child_at tabs c es i" "env_ok tabs env"
    then obtain t' env' where "tl_Prev t env = Some (t', env')" "tl_at tabs t' es ?j" "env_ok tabs env'"
      using tl_prev [OF _ i a(2), of t] TableChild by (auto simp: child_at_def)
    then show "\<exists>c' env'. child_Prev c env = Some (c', env') \<and> child_at tabs c' es ?j \<and> env_ok tabs env'"
      using a(1) TableChild by (simp add: child_at_def child_Prev_def)
  qed
qed

section \<open>The smallest child\<close>

lemma find_best_spec:
  assumes asym: "\<And>a b. better a b \<Longrightarrow> \<not> better b a"
    and negtrans: "\<And>a b c. \<not> better a b \<Longrightarrow> \<not> better b c \<Longrightarrow> \<not> better a c"
  shows "case find_best better cs js best of
      None \<Rightarrow> best = None \<and> (\<forall>i \<in> set js. \<not> child_Valid (cs ! i))
    | Some j \<Rightarrow> (best = Some j \<or> j \<in> set js \<and> child_Valid (cs ! j))
        \<and> (\<forall>i \<in> set js. child_Valid (cs ! i) \<longrightarrow> \<not> better (cs ! i) (cs ! j))
        \<and> (\<forall>b. best = Some b \<longrightarrow> \<not> better (cs ! b) (cs ! j))"
proof (induction js arbitrary: best)
  case Nil
  then show ?case using asym by (auto split: option.splits)
next
  case (Cons i js)
  let ?best = "if child_Valid (cs ! i) \<and> (case best of None \<Rightarrow> True | Some b \<Rightarrow> better (cs ! i) (cs ! b)) then Some i else best"
  show ?case
  proof (cases "find_best better cs js ?best")
    case None
    then show ?thesis using Cons [of ?best] by (auto split: if_splits option.splits)
  next
    case (Some j)
    have j: "?best = Some j \<or> j \<in> set js \<and> child_Valid (cs ! j)"
      "\<forall>i \<in> set js. child_Valid (cs ! i) \<longrightarrow> \<not> better (cs ! i) (cs ! j)"
      "\<And>b. ?best = Some b \<Longrightarrow> \<not> better (cs ! b) (cs ! j)"
      using Cons [of ?best] Some by simp_all
    have 1: "best = Some j \<or> j \<in> set (i # js) \<and> child_Valid (cs ! j)"
      using j(1) by (auto split: if_splits)
    have 2: "\<not> better (cs ! i) (cs ! j)" if "child_Valid (cs ! i)"
    proof (cases best)
      case None
      then show ?thesis using that j(3) [of i] by simp
    next
      case b: (Some b)
      then show ?thesis
        using that j(3) [of i] j(3) [of b] negtrans [of "cs ! i" "cs ! b" "cs ! j"]
        by (cases "better (cs ! i) (cs ! b)") simp_all
    qed
    have 3: "\<not> better (cs ! b) (cs ! j)" if "best = Some b" for b
      using that j(3) [of i] j(3) [of b] asym [of "cs ! i" "cs ! b"] negtrans [of "cs ! b" "cs ! i" "cs ! j"]
      by (cases "child_Valid (cs ! i) \<and> better (cs ! i) (cs ! b)") auto
    show ?thesis using 1 2 3 j(2) Some by auto
  qed
qed

lemma CompareIterators_lex:
  "CompareIterators a b =
     (if entry_less (child_Entry a) (child_Entry b) then -1
      else if entry_less (child_Entry b) (child_Entry a) then 1
      else if e_type (child_Entry b) < e_type (child_Entry a) then -1
      else if e_type (child_Entry a) < e_type (child_Entry b) then 1 else 0)"
  by (auto simp: CompareIterators_def Let_def ikey_less_def slice_compare_lex)

interpretation ci: comparator CompareIterators
  by unfold_locales (auto simp: CompareIterators_lex ikey_less_def split: if_splits)

lemma FindSmallest_children [simp]: "mg_children (FindSmallest it) = mg_children it"
  by (simp add: FindSmallest_def)

lemma FindLargest_children [simp]: "mg_children (FindLargest it) = mg_children it"
  by (simp add: FindLargest_def)

lemma CompareIterators_negtrans:
  "\<not> CompareIterators a b < 0 \<Longrightarrow> \<not> CompareIterators b c < 0 \<Longrightarrow> \<not> CompareIterators a c < 0"
  using ci.cmp_le_trans by blast

lemma FindSmallest_spec:
  "case mg_current (FindSmallest it) of
      None \<Rightarrow> (\<forall>k < length (mg_children it). \<not> child_Valid (mg_children it ! k))
    | Some j \<Rightarrow> j < length (mg_children it) \<and> child_Valid (mg_children it ! j)
        \<and> (\<forall>k < length (mg_children it). child_Valid (mg_children it ! k) \<longrightarrow>
             \<not> CompareIterators (mg_children it ! k) (mg_children it ! j) < 0)"
proof -
  note best = find_best_spec [where better = "\<lambda>c best. CompareIterators c best < 0" and cs = "mg_children it"
      and js = "[0..<length (mg_children it)]" and best = None]
  show ?thesis using best [OF _ CompareIterators_negtrans]
    by (auto simp: FindSmallest_def ci.cmp_less_asym split: option.splits)
qed

lemma FindLargest_spec:
  "case mg_current (FindLargest it) of
      None \<Rightarrow> (\<forall>k < length (mg_children it). \<not> child_Valid (mg_children it ! k))
    | Some j \<Rightarrow> j < length (mg_children it) \<and> child_Valid (mg_children it ! j)
        \<and> (\<forall>k < length (mg_children it). child_Valid (mg_children it ! k) \<longrightarrow>
             \<not> CompareIterators (mg_children it ! j) (mg_children it ! k) < 0)"
proof -
  note best = find_best_spec [where better = "\<lambda>c best. CompareIterators best c < 0" and cs = "mg_children it"
      and js = "[0..<length (mg_children it)]" and best = None]
  show ?thesis using best [OF _ CompareIterators_negtrans]
    by (auto simp: FindLargest_def ci.cmp_less_asym ci.cmp_flip [symmetric] split: option.splits)
qed

section \<open>The merge the iterator walks through\<close>

text \<open>
  \<open>merge_of ess es\<close>: \<open>es\<close> holds the entries of all children in the order of internal keys.
  Two children may hold a copy of one version (a log replayed twice), but never two different
  entries under one internal key.
\<close>

definition merge_of :: "MemtableEntry list list \<Rightarrow> MemtableEntry list \<Rightarrow> bool" where
  "merge_of ess es \<longleftrightarrow> mset es = mset (concat ess) \<and> sorted_wrt (\<lambda>a b. \<not> entry_less b a) es
     \<and> (\<forall>a \<in> set es. \<forall>b \<in> set es. ikey a = ikey b \<longrightarrow> a = b)"

lemma merge_of_keys: "merge_of ess es \<Longrightarrow> keys_sorted es"
  unfolding merge_of_def keys_sorted_def sorted_map
  by (elim conjE, erule sorted_wrt_mono_rel [rotated]) (auto simp: ikey_less_def not_less)

lemma keys_sorted_drop_seek: "keys_sorted es \<Longrightarrow> drop (seek_pos target es) es = filter (\<lambda>e. target \<le> e_key e) es"
proof (induction es)
  case (Cons e es)
  have s: "keys_sorted es" "\<And>x. x \<in> set es \<Longrightarrow> e_key e \<le> e_key x" using Cons.prems by (auto simp: keys_sorted_def)
  show ?case
  proof (cases "e_key e < target")
    case True
    then show ?thesis using Cons.IH [OF s(1)] by (simp add: seek_pos_def)
  next
    case False
    then have "filter (\<lambda>e. target \<le> e_key e) es = es" using s(2) by (fastforce intro: filter_True)
    then show ?thesis using False by (simp add: seek_pos_def)
  qed
qed (simp add: seek_pos_def)

lemma mset_concat_filter: "mset (concat (map (filter P) ess)) = filter_mset P (mset (concat ess))"
  by (induction ess) simp_all

definition children_at :: "tables \<Rightarrow> Child list \<Rightarrow> MemtableEntry list list \<Rightarrow> nat list \<Rightarrow> bool" where
  "children_at tabs cs ess ps \<longleftrightarrow> length ess = length cs \<and> length ps = length cs
     \<and> (\<forall>j < length cs. child_at tabs (cs ! j) (ess ! j) (ps ! j))"

abbreviation rest :: "MemtableEntry list list \<Rightarrow> nat list \<Rightarrow> MemtableEntry list" where
  "rest ess ps \<equiv> concat (map2 drop ps ess)"

definition mg_at :: "tables \<Rightarrow> MergingIterator \<Rightarrow> MemtableEntry list \<Rightarrow> nat \<Rightarrow> bool" where
  "mg_at tabs it es i \<longleftrightarrow> i \<le> length es \<and>
     (\<exists>ess ps. merge_of ess es \<and> children_at tabs (mg_children it) ess ps
       \<and> mset (drop i es) = mset (rest ess ps) \<and> mg_current it = mg_current (FindSmallest it))"

text \<open>Before the first move only what the children hold is known.\<close>

definition mg_holds :: "tables \<Rightarrow> MergingIterator \<Rightarrow> MemtableEntry list \<Rightarrow> bool" where
  "mg_holds tabs it es \<longleftrightarrow> (\<exists>ess ps. merge_of ess es \<and> children_at tabs (mg_children it) ess ps)"

lemma mg_at_holds: "mg_at tabs it es i \<Longrightarrow> mg_holds tabs it es"
  by (auto simp: mg_at_def mg_holds_def)

lemma children_at_Cons:
  "children_at tabs (c # cs) ess ps \<longleftrightarrow>
     (\<exists>es ess' p ps'. ess = es # ess' \<and> ps = p # ps' \<and> child_at tabs c es p \<and> children_at tabs cs ess' ps')"
proof
  assume a: "children_at tabs (c # cs) ess ps"
  then obtain es ess' p ps' where "ess = es # ess'" "ps = p # ps'"
    by (cases ess; cases ps) (auto simp: children_at_def)
  then show "\<exists>es ess' p ps'. ess = es # ess' \<and> ps = p # ps' \<and> child_at tabs c es p \<and> children_at tabs cs ess' ps'"
    using a by (auto simp: children_at_def)
next
  assume "\<exists>es ess' p ps'. ess = es # ess' \<and> ps = p # ps' \<and> child_at tabs c es p \<and> children_at tabs cs ess' ps'"
  then show "children_at tabs (c # cs) ess ps" by (auto simp: children_at_def nth_Cons split: nat.split)
qed

lemma children_at_Nil [simp]: "children_at tabs [] ess ps \<longleftrightarrow> ess = [] \<and> ps = []"
  by (auto simp: children_at_def)

lemma move_all_ok:
  assumes "\<And>c es i. moves move tabs c es i (g es)"
  shows "children_at tabs cs ess ps \<Longrightarrow> env_ok tabs env \<Longrightarrow>
    \<exists>cs' env'. move_all move cs env = Some (cs', env') \<and> children_at tabs cs' ess (map g ess) \<and> env_ok tabs env'"
proof (induction cs arbitrary: ess ps env)
  case (Cons c cs)
  obtain es ess' p ps' where e: "ess = es # ess'" "child_at tabs c es p" "children_at tabs cs ess' ps'"
    using Cons.prems(1) by (auto simp: children_at_Cons)
  obtain c' env1 where c': "move c env = Some (c', env1)" "child_at tabs c' es (g es)" "env_ok tabs env1"
    using assms [of c es p] e(2) Cons.prems(2) unfolding moves_def by blast
  obtain cs' env2 where "move_all move cs env1 = Some (cs', env2)" "children_at tabs cs' ess' (map g ess')" "env_ok tabs env2"
    using Cons.IH [OF e(3) c'(3)] by blast
  then show ?case using c' e(1) by (auto simp: children_at_Cons)
qed simp

lemma mg_atE:
  assumes "mg_at tabs it es i"
  obtains ess ps where "i \<le> length es" "merge_of ess es" "children_at tabs (mg_children it) ess ps"
    "mset (drop i es) = mset (rest ess ps)" "mg_current it = mg_current (FindSmallest it)"
  using assms unfolding mg_at_def by blast

lemma mg_atI:
  assumes "merge_of ess es" and "children_at tabs cs ess ps" and "i \<le> length es" and "mset (drop i es) = mset (rest ess ps)"
    and "mg_children it = cs"
  shows "mg_at tabs (FindSmallest it) es i"
  unfolding mg_at_def using assms by (auto simp: FindSmallest_def)

lemma map2_drop_map: "map2 drop (map g ess) ess = map (\<lambda>es. drop (g es) es) ess"
  by (induction ess) simp_all

lemma children_sorted: "children_at tabs cs ess ps \<Longrightarrow> \<forall>es \<in> set ess. sorted_entries es"
  using child_at_basic(1) by (fastforce simp: children_at_def in_set_conv_nth)

lemma mg_move_all:
  assumes "mg_holds tabs it es" and "env_ok tabs env" and moves: "\<And>c es i. moves move tabs c es i (g es)"
    and k: "k \<le> length es" "\<And>ess. merge_of ess es \<Longrightarrow> \<forall>es' \<in> set ess. sorted_entries es' \<Longrightarrow>
      mset (drop k es) = mset (concat (map (\<lambda>es. drop (g es) es) ess))"
  shows "\<exists>cs env'. move_all move (mg_children it) env = Some (cs, env') \<and> env_ok tabs env'
    \<and> mg_at tabs (FindSmallest (it\<lparr>mg_children := cs\<rparr>)) es k"
proof -
  obtain ess ps where m: "merge_of ess es" "children_at tabs (mg_children it) ess ps"
    using assms(1) by (auto simp: mg_holds_def)
  obtain cs env' where c: "move_all move (mg_children it) env = Some (cs, env')" "env_ok tabs env'"
      "children_at tabs cs ess (map g ess)"
    using move_all_ok [OF moves m(2) assms(2)] by blast
  have "\<forall>es' \<in> set ess. sorted_entries es'" using m(2) by (rule children_sorted)
  then have "mg_at tabs (FindSmallest (it\<lparr>mg_children := cs\<rparr>)) es k"
    by (intro mg_atI [OF m(1) c(3) k(1)]) (use k(2) [OF m(1)] in \<open>simp_all add: map2_drop_map\<close>)
  then show ?thesis using c(1,2) by blast
qed

lemma mg_first:
  assumes "mg_holds tabs it es" and "env_ok tabs env"
  shows "\<exists>it' env'. mg_SeekToFirst it env = Some (it', env') \<and> mg_at tabs it' es 0 \<and> env_ok tabs env'"
proof -
  have "mset (drop 0 es) = mset (concat (map (\<lambda>es. drop 0 es) ess))" if "merge_of ess es" for ess
    using that by (simp add: merge_of_def)
  then show ?thesis
    using mg_move_all [OF assms child_first, of 0] by (auto simp: mg_SeekToFirst_def)
qed

lemma mg_seek:
  assumes "mg_holds tabs it es" and "env_ok tabs env"
  shows "\<exists>it' env'. mg_Seek target it env = Some (it', env') \<and> mg_at tabs it' es (seek_pos target es) \<and> env_ok tabs env'"
proof -
  have "mset (drop (seek_pos target es) es) = mset (concat (map (\<lambda>es. drop (seek_pos target es) es) ess))"
    if m: "merge_of ess es" and s: "\<forall>es' \<in> set ess. sorted_entries es'" for ess
  proof -
    have "map (\<lambda>es. drop (seek_pos target es) es) ess = map (filter (\<lambda>e. target \<le> e_key e)) ess"
      using s by (simp add: keys_sorted_drop_seek sorted_entries_keys)
    then show ?thesis
      using m by (simp only: keys_sorted_drop_seek [OF merge_of_keys [OF m]] mset_concat_filter mset_filter merge_of_def)
  qed
  then show ?thesis
    using mg_move_all [OF assms child_seek [where target = target], of "seek_pos target es"] seek_pos_le
    by (auto simp: mg_Seek_def)
qed

lemma in_rest:
  assumes "children_at tabs cs ess ps"
  shows "e \<in> set (rest ess ps) \<longleftrightarrow> (\<exists>j < length cs. e \<in> set (drop (ps ! j) (ess ! j)))"
proof -
  have l: "length ess = length cs" "length ps = length cs" using assms by (simp_all add: children_at_def)
  have "set (rest ess ps) = (\<Union>j < length cs. set (drop (ps ! j) (ess ! j)))"
    by (auto simp: l set_zip)
  then show ?thesis by auto
qed

lemma rest_update:
  "length ess = length ps \<Longrightarrow> j < length ps \<Longrightarrow> ps ! j < length (ess ! j) \<Longrightarrow>
    mset (rest ess ps) = add_mset (ess ! j ! (ps ! j)) (mset (rest ess (ps[j := Suc (ps ! j)])))"
proof (induction ps arbitrary: ess j)
  case Nil
  then show ?case by simp
next
  case (Cons p ps)
  then obtain es ess' where e: "ess = es # ess'" by (cases ess) auto
  show ?case
  proof (cases j)
    case 0
    then have "drop p es = es ! p # drop (Suc p) es" using Cons.prems e by (simp add: Cons_nth_drop_Suc)
    then show ?thesis using 0 e by simp
  next
    case (Suc k)
    then show ?thesis using Cons.IH [of ess' k] Cons.prems e by simp
  qed
qed

lemma sorted_entries_rest: "sorted_entries es \<Longrightarrow> i < length es \<Longrightarrow> e \<in> set (drop i es) \<Longrightarrow> \<not> entry_less e (es ! i)"
proof -
  assume "sorted_entries es" "i < length es" "e \<in> set (drop i es)"
  moreover have "drop i es = es ! i # drop (Suc i) es" using \<open>i < length es\<close> by (simp add: Cons_nth_drop_Suc)
  ultimately have "e = es ! i \<or> entry_less (es ! i) e"
    by (metis append_take_drop_id set_ConsD sorted_entries_Cons sorted_entries_append)
  then show ?thesis using ikey_less_asym by auto
qed

lemma merge_of_rest:
  assumes "merge_of ess es" and "i < length es" and "e \<in> set (drop i es)"
  shows "\<not> entry_less e (es ! i)"
proof -
  have "drop i es = es ! i # drop (Suc i) es" using assms(2) by (simp add: Cons_nth_drop_Suc)
  moreover have "sorted_wrt (\<lambda>a b. \<not> entry_less b a) (drop i es)"
    using assms(1) by (simp add: merge_of_def sorted_wrt_drop)
  ultimately show ?thesis using assms(3) by auto
qed

lemma mg_current_cases:
  assumes "mg_at tabs it es i" and "merge_of ess es" and c: "children_at tabs (mg_children it) ess ps"
    and r: "mset (drop i es) = mset (rest ess ps)"
  shows "if i < length es
    then \<exists>j < length ps. mg_current it = Some j \<and> ps ! j < length (ess ! j) \<and> ess ! j ! (ps ! j) = es ! i
    else mg_current it = None"
proof -
  let ?cs = "mg_children it"
  have cur: "mg_current it = mg_current (FindSmallest it)" using assms(1) by (rule mg_atE)
  have ch: "child_at tabs (?cs ! k) (ess ! k) (ps ! k)" if "k < length ?cs" for k
    using c that by (simp add: children_at_def)
  have l: "length ess = length ?cs" "length ps = length ?cs" using c by (simp_all add: children_at_def)
  note val = child_at_basic(3) [OF ch] and ent = child_at_basic(4) [OF ch]
  have s: "set (drop i es) = set (rest ess ps)" using r by (metis set_mset_mset)
  show ?thesis
  proof (cases "i < length es")
    case False
    then have "set (rest ess ps) = {}" using s by simp
    then have "\<not> ps ! k < length (ess ! k)" if "k < length ?cs" for k
      using that in_rest [OF c] by (metis Cons_nth_drop_Suc empty_iff list.set_intros(1))
    then have "\<forall>k < length ?cs. \<not> child_Valid (?cs ! k)" using val by blast
    then have "mg_current it = None"
      using FindSmallest_spec [of it] unfolding cur by (cases "mg_current (FindSmallest it)") auto
    then show ?thesis using False by simp
  next
    case True
    then have d: "drop i es = es ! i # drop (Suc i) es" by (simp add: Cons_nth_drop_Suc)
    then obtain k where k: "k < length ?cs" "es ! i \<in> set (drop (ps ! k) (ess ! k))"
      using s in_rest [OF c] by (metis list.set_intros(1))
    then have "child_Valid (?cs ! k)" using val by (metis drop_all empty_iff empty_set not_le)
    then obtain j where j: "mg_current it = Some j" "j < length ?cs" "child_Valid (?cs ! j)"
        "\<forall>k < length ?cs. child_Valid (?cs ! k) \<longrightarrow> \<not> CompareIterators (?cs ! k) (?cs ! j) < 0"
      using FindSmallest_spec [of it] cur k(1) by (auto split: option.splits)
    have pj: "ps ! j < length (ess ! j)" using j(2,3) val by simp
    let ?e = "ess ! j ! (ps ! j)"
    have e: "?e \<in> set (drop i es)"
      using s in_rest [OF c] j(2) pj by (metis Cons_nth_drop_Suc list.set_intros(1))
    have le: "\<not> entry_less ?e (es ! i)"
      using merge_of_rest [OF assms(2) True e] .
    have kv: "ps ! k < length (ess ! k)" using k(2) by (metis drop_all empty_iff empty_set not_le)
    have "\<not> CompareIterators (?cs ! k) (?cs ! j) < 0" using j(4) k(1) kv val by blast
    then have hk: "\<not> entry_less (ess ! k ! (ps ! k)) ?e"
      using ent [OF k(1) kv] ent [OF j(2) pj] by (auto simp: CompareIterators_lex)
    have "\<not> entry_less (es ! i) (ess ! k ! (ps ! k))"
      using sorted_entries_rest [OF child_at_basic(1) [OF ch [OF k(1)]] kv k(2)] .
    then have ge: "\<not> entry_less (es ! i) ?e" using hk by (auto simp: ikey_less_def not_less)
    have "ikey (es ! i) = ikey ?e" using le ge ikey_less_linear by blast
    then have "es ! i = ?e" using assms(2) e True unfolding merge_of_def by (metis in_set_dropD nth_mem)
    then show ?thesis using j(1,2) pj l True by auto
  qed
qed

lemma mg_at_basic:
  assumes "mg_at tabs it es i"
  shows "keys_sorted es" "i \<le> length es" "mg_Valid it \<longleftrightarrow> i < length es" "i < length es \<Longrightarrow> mg_Entry it = es ! i"
    "mg_status it = OK"
proof -
  obtain ess ps where m: "i \<le> length es" "merge_of ess es" "children_at tabs (mg_children it) ess ps"
    "mset (drop i es) = mset (rest ess ps)" using assms by (rule mg_atE)
  show "keys_sorted es" "i \<le> length es" using m merge_of_keys by blast+
  note cur = mg_current_cases [OF assms m(2-4)]
  have ch: "child_at tabs (mg_children it ! k) (ess ! k) (ps ! k)" if "k < length ps" for k
    using m(3) that by (simp add: children_at_def)
  show "mg_Valid it \<longleftrightarrow> i < length es"
    using cur child_at_basic(3) [OF ch] by (auto simp: mg_Valid_def split: if_splits)
  show "mg_Entry it = es ! i" if "i < length es"
    using cur child_at_basic(4) [OF ch] that by (auto simp: mg_Entry_def)
  have "\<forall>s \<in> set ss. s = OK \<Longrightarrow> first_error ss = OK" for ss by (induction ss) auto
  moreover have "\<forall>s \<in> set (map child_status (mg_children it)). s = OK"
    using ch child_at_status m(3) by (fastforce simp: children_at_def in_set_conv_nth)
  ultimately show "mg_status it = OK" by (simp add: mg_status_def)
qed

lemma mg_next:
  assumes "mg_at tabs it es i" and i: "i < length es" and "env_ok tabs env"
  shows "\<exists>it' env'. mg_Next it env = Some (it', env') \<and> mg_at tabs it' es (Suc i) \<and> env_ok tabs env'"
proof -
  obtain ess ps where m: "merge_of ess es" "children_at tabs (mg_children it) ess ps"
    "mset (drop i es) = mset (rest ess ps)" using assms(1) by (rule mg_atE)
  obtain j where j: "j < length ps" "mg_current it = Some j" "ps ! j < length (ess ! j)" "ess ! j ! (ps ! j) = es ! i"
    using mg_current_cases [OF assms(1) m] i by auto
  have l: "length ess = length (mg_children it)" "length ps = length (mg_children it)"
    and cj: "child_at tabs (mg_children it ! j) (ess ! j) (ps ! j)" using m(2) j(1) by (simp_all add: children_at_def)
  obtain c env' where c: "child_Next (mg_children it ! j) env = Some (c, env')"
      "child_at tabs c (ess ! j) (Suc (ps ! j))" "env_ok tabs env'"
    using child_next [OF j(3)] cj assms(3) unfolding moves_def by blast
  have at: "children_at tabs ((mg_children it)[j := c]) ess (ps[j := Suc (ps ! j)])"
    using m(2) c(2) j(1) by (auto simp: children_at_def nth_list_update)
  have d: "drop i es = es ! i # drop (Suc i) es" using i by (simp add: Cons_nth_drop_Suc)
  have "mset (drop (Suc i) es) = mset (rest ess (ps[j := Suc (ps ! j)]))"
    using m(3) rest_update [of ess ps j] j(1,3,4) l unfolding d by simp
  then have "mg_at tabs (FindSmallest (it\<lparr>mg_children := (mg_children it)[j := c]\<rparr>)) es (Suc i)"
    using i by (intro mg_atI [OF m(1) at]) simp_all
  then show ?thesis using c j(2) mg_at_basic(3) [OF assms(1)] i by (simp add: mg_Next_def)
qed

interpretation merging_iterator: forward_iterator
  "env_ok tabs" "mg_at tabs" mg_Valid mg_Entry "\<lambda>it env. the (mg_SeekToFirst it env)"
  "\<lambda>target it env. the (mg_Seek target it env)" "\<lambda>it env. the (mg_Next it env)" for tabs
proof unfold_locales
  fix it es i it' env env' target
  assume at: "mg_at tabs it es i"
  show "keys_sorted es \<and> i \<le> length es" "mg_Valid it = (i < length es)" "i < length es \<Longrightarrow> mg_Entry it = es ! i"
    using mg_at_basic [OF at] by blast+
  assume e: "env_ok tabs env"
  show "the (mg_SeekToFirst it env) = (it', env') \<Longrightarrow> mg_at tabs it' es 0 \<and> env_ok tabs env'"
    using mg_first [OF mg_at_holds [OF at] e] by auto
  show "the (mg_Seek target it env) = (it', env') \<Longrightarrow> mg_at tabs it' es (seek_pos target es) \<and> env_ok tabs env'"
    using mg_seek [OF mg_at_holds [OF at] e, of target] by auto
  show "i < length es \<Longrightarrow> the (mg_Next it env) = (it', env') \<Longrightarrow> mg_at tabs it' es (Suc i) \<and> env_ok tabs env'"
    using mg_next [OF at _ e] by auto
qed

text \<open>A client that moves \<open>n\<close> entries forward.\<close>

primrec mg_nexts :: "nat \<Rightarrow> MergingIterator \<Rightarrow> env \<Rightarrow> (MergingIterator \<times> env) option" where
  "mg_nexts 0 it env = Some (it, env)"
| "mg_nexts (Suc n) it env = do { (it', env') \<leftarrow> mg_nexts n it env; mg_Next it' env' }"

lemma mg_nexts_ok:
  assumes "mg_at tabs it es i" and "env_ok tabs env"
  shows "i + n \<le> length es \<Longrightarrow> \<exists>it' env'. mg_nexts n it env = Some (it', env') \<and> mg_at tabs it' es (i + n) \<and> env_ok tabs env'"
proof (induction n)
  case 0
  then show ?case using assms by auto
next
  case (Suc n)
  then obtain it' env' where "mg_nexts n it env = Some (it', env')" "mg_at tabs it' es (i + n)" "env_ok tabs env'" by auto
  then show ?case using mg_next [of tabs it' es "i + n" env'] Suc.prems by auto
qed

section \<open>Properties\<close>

text \<open>C30: A merging iterator over memtables and tables visits, from the first entry that is not before
  the sought key, every entry of every child in the order of internal keys, and then becomes
  invalid; no call fails and the status stays OK.\<close>

theorem merging_iteration:
  assumes "children_at tabs (mg_children it) ess ps" and "merge_of ess es" and "env_ok tabs env"
    and "seek_pos target es + n \<le> length es"
  shows "\<exists>it1 env1 it2 env2. mg_Seek target it env = Some (it1, env1) \<and> mg_nexts n it1 env1 = Some (it2, env2)
    \<and> mg_status it2 = OK \<and> (mg_Valid it2 \<longleftrightarrow> seek_pos target es + n < length es)
    \<and> (mg_Valid it2 \<longrightarrow> mg_Entry it2 = es ! (seek_pos target es + n))"
proof -
  have "mg_holds tabs it es" using assms(1,2) by (auto simp: mg_holds_def)
  then obtain it1 env1 where 1: "mg_Seek target it env = Some (it1, env1)" "mg_at tabs it1 es (seek_pos target es)" "env_ok tabs env1"
    using mg_seek [OF _ assms(3)] by blast
  obtain it2 env2 where 2: "mg_nexts n it1 env1 = Some (it2, env2)" "mg_at tabs it2 es (seek_pos target es + n)"
    using mg_nexts_ok [OF 1(2,3) assms(4)] by blast
  show ?thesis using 1(1) 2(1) mg_at_basic [OF 2(2)] by blast
qed

lemma split_entries: "tf_entries split_table =
    [\<lparr>e_key = [97], e_seq = 9, e_type = 1, e_value = []\<rparr>, \<lparr>e_key = [97], e_seq = 4, e_type = 1, e_value = [5]\<rparr>]"
  by (simp add: split_table_def tf_entries_def)

lemma merging_sample:
  "\<exists>m t env. children_at [1 \<mapsto> split_table] [MemChild m, TableChild t]
      [[\<lparr>e_key = [97], e_seq = 6, e_type = 1, e_value = []\<rparr>, \<lparr>e_key = [98], e_seq = 7, e_type = 0, e_value = []\<rparr>], tf_entries split_table] [2, 2]
    \<and> env_ok [1 \<mapsto> split_table] env"
proof -
  let ?ws = "[\<lparr>e_key = [97], e_seq = 6, e_type = 1, e_value = []\<rparr>, \<lparr>e_key = [98], e_seq = 7, e_type = 0, e_value = []\<rparr>] :: MemtableEntry list"
  obtain r env where e: "env_ok [1 \<mapsto> split_table] env" "reader_rep r 1 split_table" by (rule that [OF split_env])
  have tl: "tl_at [1 \<mapsto> split_table] (TwoLevelIterator_new r) (tf_entries split_table) 2"
    using tl_at_new [of "[1 \<mapsto> split_table]" 1 split_table r] e split_table_fits by (simp add: split_entries eval_nat_numeral)
  obtain m es where m: "mt_rep m es" "set es = set ?ws"
    using add_all_rep [OF mt_rep_new, of ?ws "\<lambda>_. 0"] by auto
  have "es = ?ws"
    using mt_rep_sorted [OF m(1)] by (rule sorted_entries_unique) (simp_all add: m(2) ikey_less_def)
  moreover have "mi_at (Memtable_NewIterator m) es (length es)"
    using m(1) by (rule mi_at_new) (auto simp: m(2) kMaxSequenceNumber_def)
  ultimately have "mi_at (Memtable_NewIterator m) ?ws 2" by (simp add: eval_nat_numeral)
  with tl have "children_at [1 \<mapsto> split_table] [MemChild (Memtable_NewIterator m), TableChild (TwoLevelIterator_new r)]
      [?ws, tf_entries split_table] [2, 2]"
    by (simp add: children_at_Cons child_at_def split_entries ikey_less_def)
  then show ?thesis using e(1) by blast
qed

theorem merging_iteration_witness:
  "\<exists>it env it1 env1 it2 env2. mg_Seek [97] it env = Some (it1, env1) \<and> mg_nexts 2 it1 env1 = Some (it2, env2)
     \<and> mg_Entry it2 = \<lparr>e_key = [97], e_seq = 4, e_type = 1, e_value = [5]\<rparr>"
proof -
  obtain m t env where c: "children_at [1 \<mapsto> split_table] [MemChild m, TableChild t]
      [[\<lparr>e_key = [97], e_seq = 6, e_type = 1, e_value = []\<rparr>, \<lparr>e_key = [98], e_seq = 7, e_type = 0, e_value = []\<rparr>], tf_entries split_table] [2, 2]"
      "env_ok [1 \<mapsto> split_table] env"
    using merging_sample by blast
  let ?es = "[\<lparr>e_key = [97], e_seq = 9, e_type = 1, e_value = []\<rparr>, \<lparr>e_key = [97], e_seq = 6, e_type = 1, e_value = []\<rparr>,
     \<lparr>e_key = [97], e_seq = 4, e_type = 1, e_value = [5]\<rparr>, \<lparr>e_key = [98], e_seq = 7, e_type = 0, e_value = []\<rparr>] :: MemtableEntry list"
  have "merge_of [[\<lparr>e_key = [97], e_seq = 6, e_type = 1, e_value = []\<rparr>, \<lparr>e_key = [98], e_seq = 7, e_type = 0, e_value = []\<rparr>], tf_entries split_table] ?es"
    by (simp add: merge_of_def split_table_def tf_entries_def ikey_less_def)
  from merging_iteration [of _ "\<lparr>mg_children = [MemChild m, TableChild t], mg_current = None\<rparr>", OF _ this c(2), of "[2, 2]" "[97]" 2] c(1)
  show ?thesis by (fastforce simp: seek_pos_def numeral_eq_Suc)
qed

text \<open>C31: After a forward move \<^verbatim>\<open>Prev\<close> does not go back: when the current child stands at its first
  entry and another child still has an entry, \<^verbatim>\<open>Prev\<close> lands on an entry that is not before the
  current one, because the other children are not moved behind the current entry first.\<close>

theorem merging_prev_not_back:
  assumes "mg_at tabs it es i" and "env_ok tabs env" and "children_at tabs (mg_children it) ess ps"
    and "mg_current it = Some j" and "j < length ps" and "ps ! j = 0" and "0 < length (ess ! j)"
    and "k < length ps" and "k \<noteq> j" and "ps ! k < length (ess ! k)"
  shows "\<exists>it' env'. mg_Prev it env = Some (it', env') \<and> mg_Valid it' \<and> \<not> entry_less (mg_Entry it') (mg_Entry it)"
proof -
  let ?cs = "mg_children it"
  have l: "length ?cs = length ps" and ch: "\<And>n. n < length ps \<Longrightarrow> child_at tabs (?cs ! n) (ess ! n) (ps ! n)"
    using assms(3) by (simp_all add: children_at_def)
  obtain c env' where c: "child_Prev (?cs ! j) env = Some (c, env')" "child_at tabs c (ess ! j) (length (ess ! j))"
    using child_prev [OF assms(7), of tabs "?cs ! j"] ch [OF assms(5)] assms(2) unfolding moves_def assms(6) if_P [OF refl] by blast
  define it' where "it' = FindLargest (it\<lparr>mg_children := ?cs[j := c]\<rparr>)"
  have kv: "child_Valid (?cs ! k)" using child_at_basic(3) [OF ch [OF assms(8)]] assms(10) by simp
  obtain n where n: "mg_current it' = Some n" "n < length ps" "child_Valid (?cs[j := c] ! n)"
      "\<not> CompareIterators (?cs[j := c] ! n) (?cs[j := c] ! k) < 0"
    using FindLargest_spec [of "it\<lparr>mg_children := ?cs[j := c]\<rparr>"] kv assms(8,9) l
    by (auto simp: it'_def split: option.splits)
  have nj: "n \<noteq> j" using n(3) child_at_basic(3) [OF c(2)] n(2) l by auto
  have cur: "mg_current it = mg_current (FindSmallest it)" using assms(1) by (rule mg_atE)
  have "\<not> CompareIterators (?cs ! k) (?cs ! j) < 0"
    using FindSmallest_spec [of it] assms(4,8) kv l unfolding cur by simp
  then have "\<not> CompareIterators (?cs ! n) (?cs ! j) < 0"
    using n(4) nj assms(9) CompareIterators_negtrans [of "?cs ! n" "?cs ! k" "?cs ! j"] by simp
  then have "\<not> entry_less (child_Entry (?cs ! n)) (child_Entry (?cs ! j))" by (simp add: CompareIterators_lex split: if_splits)
  moreover have "mg_Valid it"
    using assms(4,7) child_at_basic(3) [OF ch [OF assms(5)]] by (simp add: mg_Valid_def assms(6))
  then have "mg_Prev it env = Some (it', env')" using assms(4) c(1) by (simp add: mg_Prev_def it'_def)
  ultimately show ?thesis using n nj assms(4) by (simp add: mg_Valid_def mg_Entry_def it'_def)
qed

theorem merging_prev_not_back_witness:
  "\<exists>it env it' env'. mg_Prev it env = Some (it', env') \<and> \<not> entry_less (mg_Entry it') (mg_Entry it)"
proof -
  let ?T = "[1 \<mapsto> split_table]"
  let ?ws = "[\<lparr>e_key = [97], e_seq = 6, e_type = 1, e_value = []\<rparr>, \<lparr>e_key = [98], e_seq = 7, e_type = 0, e_value = []\<rparr>] :: MemtableEntry list"
  let ?es = "[\<lparr>e_key = [97], e_seq = 9, e_type = 1, e_value = []\<rparr>, \<lparr>e_key = [97], e_seq = 6, e_type = 1, e_value = []\<rparr>,
     \<lparr>e_key = [97], e_seq = 4, e_type = 1, e_value = [5]\<rparr>, \<lparr>e_key = [98], e_seq = 7, e_type = 0, e_value = []\<rparr>] :: MemtableEntry list"
  let ?ess = "[?ws, tf_entries split_table]"
  obtain m t env where c: "children_at ?T [MemChild m, TableChild t] ?ess [2, 2]" "env_ok ?T env"
    using merging_sample by blast
  have at: "child_at ?T (MemChild m) ?ws 2" "child_at ?T (TableChild t) (tf_entries split_table) 2"
    using c(1) by (simp_all add: children_at_Cons)
  obtain c0 where c0: "child_at ?T c0 ?ws 0" using child_first at(1) c(2) unfolding moves_def by blast
  obtain c1 env1 where c1: "child_at ?T c1 (tf_entries split_table) 0" "env_ok ?T env1"
    using child_first at(2) c(2) unfolding moves_def by blast
  obtain c2 where c2: "child_at ?T c2 (tf_entries split_table) 1"
    using child_next [of 0 "tf_entries split_table"] c1 unfolding moves_def One_nat_def
    by (metis length_greater_0_conv list.distinct(1) split_entries)
  have m: "merge_of ?ess ?es" by (simp add: merge_of_def split_entries ikey_less_def)
  have ca: "children_at ?T [c0, c2] ?ess [0, 1]" using c0 c2 by (simp add: children_at_Cons)
  define it where "it = FindSmallest \<lparr>mg_children = [c0, c2], mg_current = None\<rparr>"
  have r: "mset (drop 1 ?es) = mset (rest ?ess [0, 1])" by (simp add: split_entries)
  have mg: "mg_at ?T it ?es 1" unfolding it_def by (rule mg_atI [OF m ca _ r]) simp_all
  have ci: "children_at ?T (mg_children it) ?ess [0, 1]" using ca by (simp add: it_def)
  have "mg_current it = Some 0"
    using mg_current_cases [OF mg m ci r] by (auto simp: split_entries less_Suc_eq)
  then have "\<exists>it' env'. mg_Prev it env = Some (it', env') \<and> mg_Valid it' \<and> \<not> entry_less (mg_Entry it') (mg_Entry it)"
    by (rule merging_prev_not_back [OF mg c(2) ci, of 0 1]) (simp_all add: split_entries)
  then show ?thesis by blast
qed

end
