(* ===== verification/DB_Iterator.thy ===== *)
theory DB_Iterator
  imports Merging_Iterator
begin

text \<open>
  The iterator a client of the database sees (src/db_iterator.h, src/db_iterator.cc).  It hides
  the versions of a key: \<open>user_view\<close> is the list of keys and values a reader at a sequence number
  should see, with the newest readable version of each key and without deleted keys.  The lemmas
  show that every move of the iterator ends at the right position of this list.

  The pins of the version and of the memtables keep these objects alive while the iterator
  reads them; in the model the children hold what they read, so the pins have no counterpart.
\<close>

record DBIterator =
  di_iter :: "MergingIterator option"
  di_sequence :: SequenceNumber
  di_valid :: bool
  di_saved_key :: bytes
  di_saved_value :: bytes

definition DBIterator_new :: "MergingIterator option \<Rightarrow> SequenceNumber \<Rightarrow> DBIterator" where
  "DBIterator_new iter sequence =
     \<lparr>di_iter = iter, di_sequence = sequence, di_valid = False, di_saved_key = [], di_saved_value = []\<rparr>"

text \<open>The loop \<^verbatim>\<open>while (iter_->Valid() && iter_->Key() == key) iter_->Next()\<close>.\<close>

partial_function (option) skip_key ::
  "bytes \<Rightarrow> MergingIterator \<Rightarrow> env \<Rightarrow> (MergingIterator \<times> env) option" where
  "skip_key key it env =
     (if mg_Valid it \<and> e_key (mg_Entry it) = key
      then do { (it', env') \<leftarrow> mg_Next it env; skip_key key it' env' }
      else Some (it, env))"

text \<open>The outer loop of \<^verbatim>\<open>FindNextUserEntry\<close>: the entry it saves, if any.\<close>

partial_function (option) find_user ::
  "SequenceNumber \<Rightarrow> MergingIterator \<Rightarrow> env \<Rightarrow> ((bytes \<times> bytes) option \<times> MergingIterator \<times> env) option" where
  "find_user sequence it env =
     (if \<not> mg_Valid it then Some (None, it, env)
      else let e = mg_Entry it in
        if e_seq e > sequence then do { (it', env') \<leftarrow> mg_Next it env; find_user sequence it' env' }
        else if e_type e = kTypeValue then Some (Some (e_key e, e_value e), it, env)
        else if e_type e = kTypeDeletion then do { (it', env') \<leftarrow> skip_key (e_key e) it env; find_user sequence it' env' }
        else do { (it', env') \<leftarrow> mg_Next it env; find_user sequence it' env' })"

declare skip_key.simps [code]
declare find_user.simps [code]

definition FindNextUserEntry :: "DBIterator \<Rightarrow> MergingIterator \<Rightarrow> env \<Rightarrow> (DBIterator \<times> env) option" where
  "FindNextUserEntry it mg env = do {
     (found, mg', env') \<leftarrow> find_user (di_sequence it) mg env;
     Some (case found of
       None \<Rightarrow> (it\<lparr>di_iter := Some mg', di_valid := False\<rparr>, env')
     | Some (k, v) \<Rightarrow> (it\<lparr>di_iter := Some mg', di_valid := True, di_saved_key := k, di_saved_value := v\<rparr>, env'))
   }"

definition di_SeekToFirst :: "DBIterator \<Rightarrow> env \<Rightarrow> (DBIterator \<times> env) option" where
  "di_SeekToFirst it env = (case di_iter it of
     None \<Rightarrow> Some (it, env)
   | Some mg \<Rightarrow> do { (mg', env') \<leftarrow> mg_SeekToFirst mg env; FindNextUserEntry it mg' env' })"

definition di_Seek :: "bytes \<Rightarrow> DBIterator \<Rightarrow> env \<Rightarrow> (DBIterator \<times> env) option" where
  "di_Seek target it env = (case di_iter it of
     None \<Rightarrow> Some (it, env)
   | Some mg \<Rightarrow> do { (mg', env') \<leftarrow> mg_Seek target mg env; FindNextUserEntry it mg' env' })"

definition di_Next :: "DBIterator \<Rightarrow> env \<Rightarrow> (DBIterator \<times> env) option" where
  "di_Next it env = (if \<not> di_valid it then None else do {
     mg \<leftarrow> di_iter it;
     (mg', env') \<leftarrow> skip_key (di_saved_key it) mg env;
     FindNextUserEntry it mg' env'
   })"

text \<open>
  The scans of \<^verbatim>\<open>SeekToLast\<close> and \<^verbatim>\<open>Prev\<close>: move forward while \<open>P\<close> holds of the current key and
  keep the last key and value seen.
\<close>

partial_function (option) scan_while ::
  "(bytes \<Rightarrow> bool) \<Rightarrow> (bytes \<times> bytes) option \<Rightarrow> DBIterator \<Rightarrow> env \<Rightarrow> ((bytes \<times> bytes) option \<times> DBIterator \<times> env) option" where
  "scan_while P seen it env =
     (if di_valid it \<and> P (di_saved_key it)
      then do { (it', env') \<leftarrow> di_Next it env; scan_while P (Some (di_saved_key it, di_saved_value it)) it' env' }
      else Some (seen, it, env))"

declare scan_while.simps [code]

definition restore :: "(bytes \<times> bytes) \<Rightarrow> DBIterator \<Rightarrow> DBIterator" where
  "restore kv it = it\<lparr>di_saved_key := fst kv, di_saved_value := snd kv, di_valid := True\<rparr>"

definition di_SeekToLast :: "DBIterator \<Rightarrow> env \<Rightarrow> (DBIterator \<times> env) option" where
  "di_SeekToLast it env = (case di_iter it of
     None \<Rightarrow> Some (it, env)
   | Some _ \<Rightarrow> do {
       (it1, env1) \<leftarrow> di_SeekToFirst it env;
       (seen, it2, env2) \<leftarrow> scan_while (\<lambda>_. True) None it1 env1;
       Some (case seen of None \<Rightarrow> it2 | Some kv \<Rightarrow> restore kv it2, env2)
     })"

definition di_Prev :: "DBIterator \<Rightarrow> env \<Rightarrow> (DBIterator \<times> env) option" where
  "di_Prev it env = (if \<not> di_valid it then None else do {
     (it1, env1) \<leftarrow> di_SeekToFirst it env;
     (seen, it2, env2) \<leftarrow> scan_while (\<lambda>k. k < di_saved_key it) None it1 env1;
     Some (case seen of None \<Rightarrow> it2\<lparr>di_valid := False\<rparr> | Some kv \<Rightarrow> restore kv it2, env2)
   })"

definition di_Key :: "DBIterator \<Rightarrow> bytes option" where
  "di_Key it = (if di_valid it then Some (di_saved_key it) else None)"

definition di_Value :: "DBIterator \<Rightarrow> bytes option" where
  "di_Value it = (if di_valid it then Some (di_saved_value it) else None)"

definition di_status :: "DBIterator \<Rightarrow> Status" where
  "di_status it = (case di_iter it of None \<Rightarrow> OK | Some mg \<Rightarrow> mg_status mg)"

section \<open>What a reader should see\<close>

function user_view :: "SequenceNumber \<Rightarrow> MemtableEntry list \<Rightarrow> (bytes \<times> bytes) list" where
  "user_view seq [] = []"
| "user_view seq (e # es) =
     (if e_seq e > seq then user_view seq es
      else if e_type e = kTypeValue then (e_key e, e_value e) # user_view seq (dropWhile (\<lambda>x. e_key x = e_key e) es)
      else if e_type e = kTypeDeletion then user_view seq (dropWhile (\<lambda>x. e_key x = e_key e) es)
      else user_view seq es)"
  by pat_completeness auto
termination
  by (relation "measure (\<lambda>(_, es). length es)") (auto simp: less_Suc_eq_le length_dropWhile_le)

lemma keys_sorted_Cons: "keys_sorted (e # es) \<longleftrightarrow> (\<forall>x \<in> set es. e_key e \<le> e_key x) \<and> keys_sorted es"
  by (auto simp: keys_sorted_def)

lemma keys_sorted_filter: "keys_sorted es \<Longrightarrow> keys_sorted (filter P es)"
  by (simp add: keys_sorted_def sorted_filter)

lemma dropWhile_key: "keys_sorted (e # es) \<Longrightarrow> dropWhile (\<lambda>x. e_key x = e_key e) es = filter (\<lambda>x. e_key x \<noteq> e_key e) es"
proof (induction es)
  case (Cons x xs)
  show ?case
  proof (cases "e_key x = e_key e")
    case True
    then show ?thesis using Cons by (simp add: keys_sorted_Cons)
  next
    case False
    then have "\<forall>y \<in> set xs. e_key y \<noteq> e_key e"
      using Cons.prems by (fastforce simp: keys_sorted_Cons)
    then show ?thesis using False by simp
  qed
qed simp

lemma user_view_filter:
  "keys_sorted es \<Longrightarrow> user_view seq (filter (\<lambda>e. P (e_key e)) es) = filter (\<lambda>kv. P (fst kv)) (user_view seq es)"
proof (induction seq es rule: user_view.induct)
  case (2 seq e es)
  let ?P = "\<lambda>e. P (e_key e)" and ?ne = "\<lambda>x. e_key x \<noteq> e_key e"
  have s: "keys_sorted es" using 2(5) by (simp add: keys_sorted_Cons)
  have d: "dropWhile (\<lambda>x. e_key x = e_key e) es = filter ?ne es" using 2(5) by (rule dropWhile_key)
  have d2: "dropWhile (\<lambda>x. e_key x = e_key e) (filter ?P es) = filter ?P (filter ?ne es)"
    using dropWhile_key [of e "filter ?P es"] keys_sorted_filter [OF s] 2(5)
    by (simp add: keys_sorted_Cons conj_commute)
  have d3: "filter ?P es = filter ?P (filter ?ne es)" if "\<not> P (e_key e)"
    unfolding filter_filter by (rule filter_cong) (use that in auto)
  consider "e_seq e > seq" | "\<not> e_seq e > seq" "e_type e = kTypeValue \<or> e_type e = kTypeDeletion"
    | "\<not> e_seq e > seq" "e_type e \<noteq> kTypeValue" "e_type e \<noteq> kTypeDeletion" by blast
  then show ?case
  proof cases
    case 1
    then show ?thesis using 2(1) s by simp
  next
    case 2
    then have IH: "user_view seq (filter ?P (filter ?ne es)) = filter (\<lambda>kv. P (fst kv)) (user_view seq (filter ?ne es))"
      using "2.IH"(2,3) keys_sorted_filter [OF s] unfolding d by (cases "e_type e = kTypeValue") simp_all
    show ?thesis
    proof (cases "P (e_key e)")
      case True
      then show ?thesis using 2 IH d d2 by auto
    next
      case False
      then show ?thesis using 2 IH d d3 by auto
    qed
  next
    case 3
    then show ?thesis using 2(4) s by simp
  qed
qed simp

lemma user_view_keys: "kv \<in> set (user_view seq es) \<Longrightarrow> fst kv \<in> e_key ` set es"
proof (induction seq es rule: user_view.induct)
  case (2 seq e es)
  then show ?case by (auto split: if_splits dest: set_dropWhileD)
qed simp

lemma user_view_sorted: "keys_sorted es \<Longrightarrow> sorted_wrt (<) (map fst (user_view seq es))"
proof (induction seq es rule: user_view.induct)
  case (2 seq e es)
  have d: "dropWhile (\<lambda>x. e_key x = e_key e) es = filter (\<lambda>x. e_key x \<noteq> e_key e) es" using 2(5) by (rule dropWhile_key)
  have s: "keys_sorted es" "\<forall>x \<in> set es. e_key e \<le> e_key x" using 2(5) by (simp_all add: keys_sorted_Cons)
  have "e_key e < fst kv" if "kv \<in> set (user_view seq (filter (\<lambda>x. e_key x \<noteq> e_key e) es))" for kv
    using user_view_keys [OF that] s(2) by fastforce
  then show ?case using 2(1-4) keys_sorted_filter [OF s(1)] s(1) unfolding user_view.simps d by simp
qed simp

text \<open>The view of a key is the newest readable version, when that is a value.\<close>

definition visible_value :: "MemtableEntry option \<Rightarrow> bytes option" where
  "visible_value r = (case r of None \<Rightarrow> None | Some e \<Rightarrow> if e_type e = kTypeValue then Some (e_value e) else None)"

lemma user_view_lookup:
  "keys_sorted es \<Longrightarrow> map_of (user_view seq es) key = visible_value (find (readable key seq) es)"
proof (induction seq es rule: user_view.induct)
  case (2 seq e es)
  have d: "dropWhile (\<lambda>x. e_key x = e_key e) es = filter (\<lambda>x. e_key x \<noteq> e_key e) es" using 2(5) by (rule dropWhile_key)
  have s: "keys_sorted es" using 2(5) by (simp add: keys_sorted_Cons)
  have r: "e_key x = k" if "readable k seq x" for x k using that by (simp add: readable_def)
  have f: "find (readable key seq) (filter (\<lambda>x. e_key x \<noteq> e_key e) es) = (if key = e_key e then None else find (readable key seq) es)"
    by (induction es) (auto dest: r)
  show ?case
    using 2(1-4) s keys_sorted_filter [OF s, of "\<lambda>x. e_key x \<noteq> e_key e"] f unfolding user_view.simps d
    by (auto simp: readable_def [of key seq e] visible_value_def kTypeValue_def kTypeDeletion_def)
qed (simp add: visible_value_def)

section \<open>The loops end, and where\<close>

lemma drop_at: "i < length es \<Longrightarrow> drop i es = es ! i # drop (Suc i) es"
  by (simp add: Cons_nth_drop_Suc)

lemma skip_key_ok:
  assumes "mg_at tabs mg es i" and "env_ok tabs env"
  shows "\<exists>mg' env' j. skip_key k mg env = Some (mg', env') \<and> mg_at tabs mg' es j \<and> env_ok tabs env'
    \<and> drop j es = dropWhile (\<lambda>e. e_key e = k) (drop i es)"
  using assms
proof (induction "length es - i" arbitrary: mg env i)
  case 0
  then have "\<not> mg_Valid mg" "drop i es = []" using mg_at_basic(3) by auto
  then show ?case using 0 by (subst skip_key.simps) auto
next
  case (Suc n)
  then have i: "i < length es" "mg_Valid mg" "mg_Entry mg = es ! i" using mg_at_basic by auto
  show ?case
  proof (cases "e_key (es ! i) = k")
    case True
    obtain mg' env' where m: "mg_Next mg env = Some (mg', env')" "mg_at tabs mg' es (Suc i)" "env_ok tabs env'"
      using mg_next [OF Suc.prems(1) i(1) Suc.prems(2)] by blast
    obtain mg2 env2 j where 2: "skip_key k mg' env' = Some (mg2, env2)" "mg_at tabs mg2 es j" "env_ok tabs env2"
        "drop j es = dropWhile (\<lambda>e. e_key e = k) (drop (Suc i) es)"
      using Suc.hyps(1) [of "Suc i" mg' env'] m(2,3) Suc.hyps(2) by (metis Suc_diff_Suc i(1) nat.inject)
    have "skip_key k mg env = Some (mg2, env2)" using 2(1) m(1) i True by (subst skip_key.simps) simp
    then show ?thesis using 2 True i(1) by (metis (mono_tags, lifting) drop_at dropWhile.simps(2))
  next
    case False
    then have "skip_key k mg env = Some (mg, env)" using i by (subst skip_key.simps) simp
    moreover have "drop i es = dropWhile (\<lambda>e. e_key e = k) (drop i es)" using False i(1) by (simp add: drop_at)
    ultimately show ?thesis using Suc.prems by metis
  qed
qed

text \<open>
  Where the search for the next user entry ends: at the entry it returns, or at the end.
\<close>

definition user_at :: "MemtableEntry list \<Rightarrow> nat \<Rightarrow> (bytes \<times> bytes) option \<Rightarrow> bool" where
  "user_at es i found \<longleftrightarrow> (case found of
     None \<Rightarrow> i = length es
   | Some (k, v) \<Rightarrow> i < length es \<and> e_key (es ! i) = k)"

lemma find_user_ok:
  assumes "mg_at tabs mg es i" and "env_ok tabs env"
  shows "\<exists>found mg' env' j. find_user seq mg env = Some (found, mg', env') \<and> mg_at tabs mg' es j \<and> env_ok tabs env'
    \<and> user_at es j found \<and> user_view seq (drop j es) = user_view seq (drop i es)
    \<and> found = (case user_view seq (drop i es) of [] \<Rightarrow> None | kv # _ \<Rightarrow> Some kv)"
  using assms
proof (induction "length es - i" arbitrary: mg env i rule: less_induct)
  case less
  note at = mg_at_basic [OF less.prems(1)]
  show ?case
  proof (cases "i < length es")
    case False
    then show ?thesis using at less.prems by (subst find_user.simps) (auto simp: user_at_def)
  next
    case i: True
    note d = drop_at [OF i]
    have go: ?thesis if step: "find_user seq mg env = find_user seq mg' env'" and at': "mg_at tabs mg' es j" "env_ok tabs env'"
      and j: "i < j" "user_view seq (drop i es) = user_view seq (drop j es)" for mg' env' j
      using less.hyps [of j mg' env', OF _ at'] i j unfolding step j(2) by simp
    obtain mgn envn where n: "mg_Next mg env = Some (mgn, envn)" "mg_at tabs mgn es (Suc i)" "env_ok tabs envn"
      using mg_next [OF less.prems(1) i less.prems(2)] by blast
    obtain mgs envs js where s: "skip_key (e_key (es ! i)) mg env = Some (mgs, envs)" "mg_at tabs mgs es js" "env_ok tabs envs"
        "drop js es = dropWhile (\<lambda>e. e_key e = e_key (es ! i)) (drop i es)"
      using skip_key_ok [OF less.prems, of "e_key (es ! i)"] by blast
    have s': "drop js es = dropWhile (\<lambda>e. e_key e = e_key (es ! i)) (drop (Suc i) es)" using s(4) unfolding d by simp
    then have "length (drop js es) \<le> length (drop (Suc i) es)" by (simp only: length_dropWhile_le)
    then have js: "i < js" using i by simp
    consider "e_seq (es ! i) > seq" | "\<not> e_seq (es ! i) > seq" "e_type (es ! i) = kTypeValue"
      | "\<not> e_seq (es ! i) > seq" "e_type (es ! i) = kTypeDeletion"
      | "\<not> e_seq (es ! i) > seq" "e_type (es ! i) \<noteq> kTypeValue" "e_type (es ! i) \<noteq> kTypeDeletion" by blast
    then show ?thesis
    proof cases
      case 1
      have "find_user seq mg env = find_user seq mgn envn" using 1 at i n(1) by (subst find_user.simps) simp
      then show ?thesis by (rule go [OF _ n(2,3)]) (use 1 in \<open>simp_all add: d\<close>)
    next
      case 2
      have "find_user seq mg env = Some (Some (e_key (es ! i), e_value (es ! i)), mg, env)"
        using 2 at i by (subst find_user.simps) (simp add: Let_def)
      moreover have "user_view seq (drop i es) = (e_key (es ! i), e_value (es ! i)) # user_view seq (drop js es)"
        using 2 s' by (simp add: d)
      ultimately show ?thesis using less.prems i by (auto simp: user_at_def)
    next
      case 3
      have "find_user seq mg env = find_user seq mgs envs"
        using 3 at i s(1) by (subst find_user.simps) (simp add: kTypeValue_def kTypeDeletion_def)
      then show ?thesis by (rule go [OF _ s(2,3) js]) (use 3 s' in \<open>simp add: d kTypeValue_def kTypeDeletion_def\<close>)
    next
      case 4
      have "find_user seq mg env = find_user seq mgn envn" using 4 at i n(1) by (subst find_user.simps) simp
      then show ?thesis by (rule go [OF _ n(2,3)]) (use 4 in \<open>simp_all add: d\<close>)
    qed
  qed
qed

section \<open>Positions of the iterator\<close>

abbreviation di_view :: "DBIterator \<Rightarrow> MemtableEntry list \<Rightarrow> (bytes \<times> bytes) list" where
  "di_view it es \<equiv> user_view (di_sequence it) es"

text \<open>\<open>di_holds\<close>: what is under the iterator.  \<open>di_at\<close>: it is at position \<open>j\<close> of the view, and moving
  forward from where the inner iterator stands goes to the position after it.  \<open>di_fresh\<close>: the inner
  iterator moreover stands at the entry that is shown.\<close>

definition di_holds :: "tables \<Rightarrow> DBIterator \<Rightarrow> MemtableEntry list \<Rightarrow> bool" where
  "di_holds tabs it es \<longleftrightarrow> (\<exists>mg. di_iter it = Some mg \<and> mg_holds tabs mg es)"

definition shows_at :: "DBIterator \<Rightarrow> MemtableEntry list \<Rightarrow> nat \<Rightarrow> bool" where
  "shows_at it es j \<longleftrightarrow> j \<le> length (di_view it es) \<and> (di_valid it \<longleftrightarrow> j < length (di_view it es))
     \<and> (j < length (di_view it es) \<longrightarrow> (di_saved_key it, di_saved_value it) = di_view it es ! j)"

definition di_at :: "tables \<Rightarrow> DBIterator \<Rightarrow> MemtableEntry list \<Rightarrow> nat \<Rightarrow> bool" where
  "di_at tabs it es j \<longleftrightarrow> shows_at it es j \<and> (\<exists>mg i. di_iter it = Some mg \<and> mg_at tabs mg es i
     \<and> (di_valid it \<longrightarrow>
          di_view it (dropWhile (\<lambda>e. e_key e = di_saved_key it) (drop i es)) = drop (Suc j) (di_view it es)))"

definition di_fresh :: "tables \<Rightarrow> DBIterator \<Rightarrow> MemtableEntry list \<Rightarrow> nat \<Rightarrow> bool" where
  "di_fresh tabs it es j \<longleftrightarrow> shows_at it es j \<and> (\<exists>mg i. di_iter it = Some mg \<and> mg_at tabs mg es i
     \<and> di_view it (drop i es) = drop j (di_view it es)
     \<and> (if j < length (di_view it es) then i < length es \<and> e_key (es ! i) = fst (di_view it es ! j) else i = length es))"

lemma di_at_holds: "di_at tabs it es j \<Longrightarrow> di_holds tabs it es"
  by (auto simp: di_at_def di_holds_def intro: mg_at_holds)

lemma user_view_skip:
  assumes "keys_sorted es" and "user_view seq es = (k, v) # vs" and "es \<noteq> []" and "e_key (hd es) = k"
  shows "user_view seq (dropWhile (\<lambda>e. e_key e = k) es) = vs"
proof -
  obtain e es' where es: "es = e # es'" "e_key e = k" using assms(3,4) by (cases es) auto
  have d: "dropWhile (\<lambda>e. e_key e = k) es = filter (\<lambda>e. e_key e \<noteq> k) es"
    using dropWhile_key [of e es'] assms(1) es by auto
  have "sorted_wrt (<) (map fst ((k, v) # vs))" using user_view_sorted [OF assms(1), of seq] assms(2) by simp
  then have "filter (\<lambda>kv. fst kv \<noteq> k) vs = vs" by (auto intro!: filter_True)
  then show ?thesis using user_view_filter [OF assms(1), of seq "\<lambda>x. x \<noteq> k"] assms(2) unfolding d by simp
qed

lemma keys_sorted_drop: "keys_sorted es \<Longrightarrow> keys_sorted (drop i es)"
  by (simp add: keys_sorted_def drop_map [symmetric] sorted_wrt_drop)

lemma di_fresh_at: "di_fresh tabs it es j \<Longrightarrow> di_at tabs it es j"
proof -
  assume "di_fresh tabs it es j"
  then obtain mg i where m: "shows_at it es j" "di_iter it = Some mg" "mg_at tabs mg es i"
      "di_view it (drop i es) = drop j (di_view it es)"
      "if j < length (di_view it es) then i < length es \<and> e_key (es ! i) = fst (di_view it es ! j) else i = length es"
    by (auto simp: di_fresh_def)
  have "di_view it (dropWhile (\<lambda>e. e_key e = di_saved_key it) (drop i es)) = drop (Suc j) (di_view it es)" if "di_valid it"
  proof (rule user_view_skip)
    have j: "j < length (di_view it es)" "di_view it es ! j = (di_saved_key it, di_saved_value it)"
      using m(1) that by (auto simp: shows_at_def)
    show "keys_sorted (drop i es)" using mg_at_basic(1) [OF m(3)] by (rule keys_sorted_drop)
    show "di_view it (drop i es) = (di_saved_key it, di_saved_value it) # drop (Suc j) (di_view it es)"
      using m(4) j by (simp add: drop_at)
    show "drop i es \<noteq> []" "e_key (hd (drop i es)) = di_saved_key it" using m(5) j by (simp_all add: hd_drop_conv_nth)
  qed
  then show ?thesis using m unfolding di_at_def by blast
qed

lemma FindNextUserEntry_ok:
  assumes "mg_at tabs mg es i" and "env_ok tabs env" and v: "di_view it (drop i es) = drop j (di_view it es)" and "j \<le> length (di_view it es)"
  shows "\<exists>it' env'. FindNextUserEntry it mg env = Some (it', env') \<and> di_fresh tabs it' es j \<and> env_ok tabs env'
    \<and> di_sequence it' = di_sequence it"
proof -
  obtain found mg' env' i' where f: "find_user (di_sequence it) mg env = Some (found, mg', env')" "mg_at tabs mg' es i'"
      "env_ok tabs env'" "user_at es i' found" "di_view it (drop i' es) = drop j (di_view it es)"
      "found = (case drop j (di_view it es) of [] \<Rightarrow> None | kv # _ \<Rightarrow> Some kv)"
    using find_user_ok [OF assms(1,2), of "di_sequence it"] unfolding v by blast
  show ?thesis
  proof (cases "j < length (di_view it es)")
    case True
    then have "found = Some (di_view it es ! j)" using f(6) by (simp add: drop_at)
    moreover obtain k v where kv: "di_view it es ! j = (k, v)" by fastforce
    ultimately show ?thesis
      using f True by (auto simp: FindNextUserEntry_def di_fresh_def shows_at_def user_at_def)
  next
    case False
    then have "found = None" using f(6) by simp
    then show ?thesis
      using f False assms(4) by (auto simp: FindNextUserEntry_def di_fresh_def shows_at_def user_at_def)
  qed
qed

text \<open>The moves return, keep the sequence number, and end where they should.\<close>

definition arrives :: "(DBIterator \<times> env) option \<Rightarrow> tables \<Rightarrow> DBIterator \<Rightarrow> MemtableEntry list \<Rightarrow> nat \<Rightarrow> bool" where
  "arrives r tabs it es j \<longleftrightarrow> (\<exists>it' env'. r = Some (it', env') \<and> di_at tabs it' es j \<and> env_ok tabs env'
     \<and> di_sequence it' = di_sequence it)"

lemma di_first_fresh:
  assumes "di_holds tabs it es" and "env_ok tabs env"
  shows "\<exists>it' env'. di_SeekToFirst it env = Some (it', env') \<and> di_fresh tabs it' es 0 \<and> env_ok tabs env'
    \<and> di_sequence it' = di_sequence it"
proof -
  obtain mg where m: "di_iter it = Some mg" "mg_holds tabs mg es" using assms(1) by (auto simp: di_holds_def)
  obtain mg' env' where f: "mg_SeekToFirst mg env = Some (mg', env')" "mg_at tabs mg' es 0" "env_ok tabs env'"
    using mg_first [OF m(2) assms(2)] by blast
  show ?thesis using FindNextUserEntry_ok [OF f(2,3), of it 0] f(1) m(1) by (simp add: di_SeekToFirst_def)
qed

definition view_pos :: "bytes \<Rightarrow> (bytes \<times> bytes) list \<Rightarrow> nat" where
  "view_pos target vs = length (takeWhile (\<lambda>kv. fst kv < target) vs)"

lemma drop_view_pos:
  "sorted_wrt (<) (map fst vs) \<Longrightarrow> drop (view_pos target vs) vs = filter (\<lambda>kv. target \<le> fst kv) vs"
proof (induction vs)
  case (Cons kv vs)
  show ?case
  proof (cases "fst kv < target")
    case False
    then have "filter (\<lambda>kv. target \<le> fst kv) vs = vs" using Cons.prems by (fastforce intro: filter_True)
    then show ?thesis using False by (simp add: view_pos_def)
  qed (use Cons in \<open>simp add: view_pos_def\<close>)
qed (simp add: view_pos_def)

lemma view_pos_le: "view_pos target vs \<le> length vs"
  by (simp add: view_pos_def length_takeWhile_le)

lemma di_seek:
  assumes "di_holds tabs it es" and "env_ok tabs env"
  shows "arrives (di_Seek target it env) tabs it es (view_pos target (di_view it es))"
proof -
  obtain mg where m: "di_iter it = Some mg" "mg_holds tabs mg es" using assms(1) by (auto simp: di_holds_def)
  obtain mg' env' where f: "mg_Seek target mg env = Some (mg', env')" "mg_at tabs mg' es (seek_pos target es)" "env_ok tabs env'"
    using mg_seek [OF m(2) assms(2)] by blast
  have s: "keys_sorted es" using mg_at_basic(1) [OF f(2)] .
  have "di_view it (drop (seek_pos target es) es) = drop (view_pos target (di_view it es)) (di_view it es)"
    using user_view_filter [OF s, of "di_sequence it" "\<lambda>k. target \<le> k"]
    by (simp add: keys_sorted_drop_seek [OF s] drop_view_pos [OF user_view_sorted [OF s]])
  then show ?thesis
    using FindNextUserEntry_ok [OF f(2,3) _ view_pos_le] f(1) m(1) di_fresh_at by (fastforce simp: di_Seek_def arrives_def)
qed

lemma di_next_fresh:
  assumes "di_at tabs it es j" and "env_ok tabs env" and "j < length (di_view it es)"
  shows "\<exists>it' env'. di_Next it env = Some (it', env') \<and> di_fresh tabs it' es (Suc j) \<and> env_ok tabs env'
    \<and> di_sequence it' = di_sequence it"
proof -
  have v: "di_valid it" using assms(1,3) by (simp add: di_at_def shows_at_def)
  then obtain mg i where m: "di_iter it = Some mg" "mg_at tabs mg es i"
      "di_view it (dropWhile (\<lambda>e. e_key e = di_saved_key it) (drop i es)) = drop (Suc j) (di_view it es)"
    using assms(1) by (auto simp: di_at_def)
  obtain mg' env' i' where s: "skip_key (di_saved_key it) mg env = Some (mg', env')" "mg_at tabs mg' es i'" "env_ok tabs env'"
      "drop i' es = dropWhile (\<lambda>e. e_key e = di_saved_key it) (drop i es)"
    using skip_key_ok [OF m(2) assms(2)] by blast
  show ?thesis
    using FindNextUserEntry_ok [OF s(2,3), of it "Suc j"] m(1,3) s(1,4) assms(3) v by (simp add: di_Next_def)
qed

lemma scan_while_ok:
  assumes "di_fresh tabs it es j" and "env_ok tabs env"
    and "n = j + length (takeWhile (\<lambda>kv. P (fst kv)) (drop j (di_view it es)))"
  shows "\<exists>it' env'. scan_while P seen it env = Some (if n = j then seen else Some (di_view it es ! (n - 1)), it', env')
    \<and> di_fresh tabs it' es n \<and> env_ok tabs env' \<and> di_sequence it' = di_sequence it"
  using assms
proof (induction "n - j" arbitrary: it env j seen)
  case 0
  have "\<not> (di_valid it \<and> P (di_saved_key it))"
  proof
    assume v: "di_valid it \<and> P (di_saved_key it)"
    then have "j < length (di_view it es)" "fst (di_view it es ! j) = di_saved_key it"
      using 0(2) unfolding di_fresh_def shows_at_def by (metis fst_conv)+
    then show False using 0(1,4) v by (simp add: drop_at)
  qed
  moreover have "n = j" using 0(1,4) by simp
  ultimately show ?case using 0(2,3) by (subst scan_while.simps) (cases env, auto)
next
  case (Suc m)
  let ?vs = "di_view it es"
  have "takeWhile (\<lambda>kv. P (fst kv)) (drop j ?vs) \<noteq> []" using Suc.hyps(2) Suc.prems(3) by auto
  then have j: "j < length ?vs" by (metis drop_all not_le takeWhile.simps(1))
  then have P: "P (fst (?vs ! j))" using \<open>takeWhile _ _ \<noteq> []\<close> by (auto simp: drop_at split: if_splits)
  have s: "di_valid it" "(di_saved_key it, di_saved_value it) = ?vs ! j" using Suc.prems(1) j by (auto simp: di_fresh_def shows_at_def)
  obtain it1 env1 where 1: "di_Next it env = Some (it1, env1)" "di_fresh tabs it1 es (Suc j)" "env_ok tabs env1" "di_sequence it1 = di_sequence it"
    using di_next_fresh [OF di_fresh_at [OF Suc.prems(1)] Suc.prems(2) j] by blast
  have n: "n = Suc j + length (takeWhile (\<lambda>kv. P (fst kv)) (drop (Suc j) (di_view it1 es)))"
    using Suc.prems(3) P j 1(4) by (simp add: drop_at)
  have m: "m = n - Suc j" using Suc.hyps(2) by simp
  have step: "scan_while P seen it env = scan_while P (Some (?vs ! j)) it1 env1"
    using s P 1(1) by (subst scan_while.simps) (simp add: s(2) [symmetric])
  obtain it2 env2 where 2: "scan_while P (Some (?vs ! j)) it1 env1 = Some (if n = Suc j then Some (?vs ! j) else Some (?vs ! (n - 1)), it2, env2)"
      "di_fresh tabs it2 es n" "env_ok tabs env2" "di_sequence it2 = di_sequence it"
    using Suc.hyps(1) [OF _ 1(2,3) n, of "Some (?vs ! j)"] m unfolding 1(4) by blast
  then show ?case using step n by auto
qed

lemma restore_simps [simp]:
  "di_iter (restore kv it) = di_iter it" "di_sequence (restore kv it) = di_sequence it" "di_valid (restore kv it)"
  "di_saved_key (restore kv it) = fst kv" "di_saved_value (restore kv it) = snd kv"
  by (simp_all add: restore_def)

text \<open>Showing again the entry before the one the inner iterator stands at.\<close>

lemma di_at_restore:
  assumes "di_fresh tabs it es (Suc j)" and "j < length (di_view it es)"
  shows "di_at tabs (restore (di_view it es ! j) it) es j"
proof -
  let ?vs = "di_view it es"
  obtain mg i where m: "di_iter it = Some mg" "mg_at tabs mg es i" "di_view it (drop i es) = drop (Suc j) ?vs"
      "if Suc j < length ?vs then i < length es \<and> e_key (es ! i) = fst (?vs ! Suc j) else i = length es"
    using assms(1) by (auto simp: di_fresh_def)
  have "e_key (es ! i) \<noteq> fst (?vs ! j)" if "i < length es"
  proof -
    have j: "Suc j < length ?vs" "e_key (es ! i) = fst (?vs ! Suc j)" using m(4) that by (auto split: if_splits)
    have "fst (?vs ! j) < fst (?vs ! Suc j)"
      using sorted_wrt_nth_less [OF user_view_sorted [OF mg_at_basic(1) [OF m(2)]], of j "Suc j"] j(1) by simp
    then show ?thesis using j(2) by simp
  qed
  then have "dropWhile (\<lambda>e. e_key e = fst (?vs ! j)) (drop i es) = drop i es"
    by (cases "i < length es") (simp_all add: drop_at)
  then show ?thesis using m(1-3) assms(2) by (auto simp: di_at_def shows_at_def)
qed

lemma di_last:
  assumes "di_holds tabs it es" and "env_ok tabs env"
  shows "arrives (di_SeekToLast it env) tabs it es (if di_view it es = [] then 0 else length (di_view it es) - 1)"
proof -
  let ?n = "length (di_view it es)"
  obtain it1 env1 where 1: "di_SeekToFirst it env = Some (it1, env1)" "di_fresh tabs it1 es 0" "env_ok tabs env1" "di_sequence it1 = di_sequence it"
    using di_first_fresh [OF assms] by blast
  have n: "?n = 0 + length (takeWhile (\<lambda>kv. True) (drop 0 (di_view it1 es)))" using 1(4) by (simp add: takeWhile_eq_all_conv [THEN iffD2])
  obtain it2 env2 where 2: "scan_while (\<lambda>_. True) None it1 env1 = Some (if ?n = 0 then None else Some (di_view it es ! (?n - 1)), it2, env2)"
      "di_fresh tabs it2 es ?n" "env_ok tabs env2" "di_sequence it2 = di_sequence it"
    using scan_while_ok [OF 1(2,3) n, of None] 1(4) by auto
  obtain mg where "di_iter it = Some mg" using assms(1) by (auto simp: di_holds_def)
  then have r: "di_SeekToLast it env = Some (if ?n = 0 then it2 else restore (di_view it es ! (?n - 1)) it2, env2)"
    using 1(1) 2(1) by (simp add: di_SeekToLast_def)
  show ?thesis
  proof (cases "?n = 0")
    case True
    then show ?thesis using r 2(2,3,4) di_fresh_at [OF 2(2)] by (auto simp: arrives_def)
  next
    case False
    then have "di_at tabs (restore (di_view it2 es ! (?n - 1)) it2) es (?n - 1)"
      using di_at_restore [of tabs it2 es "?n - 1"] 2(2,4) by simp
    then show ?thesis using r False 2(3,4) by (auto simp: arrives_def)
  qed
qed

lemma takeWhile_less_nth:
  assumes "sorted_wrt (<) (map fst vs)" and "j < length vs"
  shows "length (takeWhile (\<lambda>kv. fst kv < (fst (vs ! j) :: bytes)) vs) = j"
  using assms
proof (induction vs arbitrary: j)
  case (Cons kv vs)
  then show ?case by (cases j) auto
qed simp

lemma di_prev:
  assumes "di_at tabs it es j" and "env_ok tabs env" and "j < length (di_view it es)"
  shows "if j = 0 then \<exists>it' env'. di_Prev it env = Some (it', env') \<and> \<not> di_valid it' \<and> di_holds tabs it' es \<and> env_ok tabs env'
      \<and> di_sequence it' = di_sequence it
    else arrives (di_Prev it env) tabs it es (j - 1)"
proof -
  let ?vs = "di_view it es"
  have v: "di_valid it" "fst (?vs ! j) = di_saved_key it"
    using assms(1,3) unfolding di_at_def shows_at_def by (metis fst_conv)+
  obtain it1 env1 where 1: "di_SeekToFirst it env = Some (it1, env1)" "di_fresh tabs it1 es 0" "env_ok tabs env1" "di_sequence it1 = di_sequence it"
    using di_first_fresh [OF di_at_holds [OF assms(1)] assms(2)] by blast
  obtain mg i where "mg_at tabs mg es i" using assms(1) by (auto simp: di_at_def)
  then have "sorted_wrt (<) (map fst ?vs)" by (rule user_view_sorted [OF mg_at_basic(1)])
  then have n: "j = 0 + length (takeWhile (\<lambda>kv. fst kv < di_saved_key it) (drop 0 (di_view it1 es)))"
    using takeWhile_less_nth [of ?vs j] assms(3) 1(4) v(2) by simp
  obtain it2 env2 where 2: "scan_while (\<lambda>k. k < di_saved_key it) None it1 env1 = Some (if j = 0 then None else Some (?vs ! (j - 1)), it2, env2)"
      "di_fresh tabs it2 es j" "env_ok tabs env2" "di_sequence it2 = di_sequence it"
    using scan_while_ok [OF 1(2,3) n, of None] 1(4) by auto
  then have r: "di_Prev it env = Some (if j = 0 then it2\<lparr>di_valid := False\<rparr> else restore (?vs ! (j - 1)) it2, env2)"
    using 1(1) v(1) by (simp add: di_Prev_def)
  show ?thesis
  proof (cases "j = 0")
    case True
    then show ?thesis using r 2(3,4) di_at_holds [OF di_fresh_at [OF 2(2)]] by (auto simp: di_holds_def)
  next
    case False
    then have "di_at tabs (restore (di_view it2 es ! (j - 1)) it2) es (j - 1)"
      using di_at_restore [of tabs it2 es "j - 1"] 2(2,4) assms(3) by simp
    then show ?thesis using r False 2(3,4) by (auto simp: arrives_def)
  qed
qed

text \<open>A client that moves \<open>n\<close> keys forward.\<close>

primrec di_nexts :: "nat \<Rightarrow> DBIterator \<Rightarrow> env \<Rightarrow> (DBIterator \<times> env) option" where
  "di_nexts 0 it env = Some (it, env)"
| "di_nexts (Suc n) it env = do { (it', env') \<leftarrow> di_nexts n it env; di_Next it' env' }"

lemma di_nexts_ok:
  assumes "di_at tabs it es 0" and "env_ok tabs env"
  shows "n \<le> length (di_view it es) \<Longrightarrow> arrives (di_nexts n it env) tabs it es n"
proof (induction n)
  case 0
  then show ?case using assms by (auto simp: arrives_def)
next
  case (Suc n)
  then obtain it' env' where i: "di_nexts n it env = Some (it', env')" "di_at tabs it' es n" "env_ok tabs env'" "di_sequence it' = di_sequence it"
    by (auto simp: arrives_def)
  obtain it2 env2 where "di_Next it' env' = Some (it2, env2)" "di_fresh tabs it2 es (Suc n)" "env_ok tabs env2" "di_sequence it2 = di_sequence it'"
    using di_next_fresh [OF i(2,3)] Suc.prems i(4) by auto
  then show ?case using i(1,4) di_fresh_at by (auto simp: arrives_def)
qed

lemma di_shown:
  assumes "di_at tabs it es j"
  shows "di_status it = OK" "di_Key it = (if j < length (di_view it es) then Some (fst (di_view it es ! j)) else None)"
    "di_Value it = (if j < length (di_view it es) then Some (snd (di_view it es ! j)) else None)"
proof -
  show "di_status it = OK" using assms mg_at_basic(5) by (auto simp: di_at_def di_status_def)
  have s: "di_valid it \<longleftrightarrow> j < length (di_view it es)"
    "j < length (di_view it es) \<Longrightarrow> di_view it es ! j = (di_saved_key it, di_saved_value it)"
    using assms by (simp_all add: di_at_def shows_at_def)
  then show "di_Key it = (if j < length (di_view it es) then Some (fst (di_view it es ! j)) else None)"
    "di_Value it = (if j < length (di_view it es) then Some (snd (di_view it es ! j)) else None)"
    by (simp_all add: di_Key_def di_Value_def)
qed

section \<open>Properties\<close>

text \<open>C28: A database iterator shows each live key once, in ascending order, with the value of its newest
  version not newer than the iterator's sequence number; deleted keys are skipped.  Walking from the
  first key visits exactly this list, every call returns, and the status stays OK.\<close>

theorem db_iteration:
  assumes "children_at tabs (mg_children mg) ess ps" and "merge_of ess es" and "env_ok tabs env"
  shows "\<exists>vs. sorted_wrt (<) (map fst vs) \<and> (\<forall>k. map_of vs k = visible_value (find (readable k seq) es))
    \<and> (\<forall>n \<le> length vs. \<exists>it1 env1 it2 env2. di_SeekToFirst (DBIterator_new (Some mg) seq) env = Some (it1, env1)
        \<and> di_nexts n it1 env1 = Some (it2, env2) \<and> di_status it2 = OK
        \<and> di_Key it2 = (if n < length vs then Some (fst (vs ! n)) else None)
        \<and> di_Value it2 = (if n < length vs then Some (snd (vs ! n)) else None))"
proof (intro exI [of _ "user_view seq es"] conjI allI impI)
  let ?it = "DBIterator_new (Some mg) seq" and ?vs = "user_view seq es"
  have s: "keys_sorted es" using assms(2) by (rule merge_of_keys)
  show "sorted_wrt (<) (map fst ?vs)" using s by (rule user_view_sorted)
  show "map_of ?vs k = visible_value (find (readable k seq) es)" for k using s by (rule user_view_lookup)
  fix n assume n: "n \<le> length ?vs"
  have h: "di_holds tabs ?it es" using assms(1,2) by (auto simp: di_holds_def mg_holds_def DBIterator_new_def)
  obtain it1 env1 where 1: "di_SeekToFirst ?it env = Some (it1, env1)" "di_at tabs it1 es 0" "env_ok tabs env1" "di_sequence it1 = seq"
    using di_first_fresh [OF h assms(3)] di_fresh_at by (auto simp: DBIterator_new_def)
  obtain it2 env2 where 2: "di_nexts n it1 env1 = Some (it2, env2)" "di_at tabs it2 es n" "di_sequence it2 = seq"
    using di_nexts_ok [OF 1(2,3), of n] n 1(4) by (auto simp: arrives_def)
  show "\<exists>it1 env1 it2 env2. di_SeekToFirst ?it env = Some (it1, env1)
        \<and> di_nexts n it1 env1 = Some (it2, env2) \<and> di_status it2 = OK
        \<and> di_Key it2 = (if n < length ?vs then Some (fst (?vs ! n)) else None)
        \<and> di_Value it2 = (if n < length ?vs then Some (snd (?vs ! n)) else None)"
    using 1(1) 2(1) di_shown [OF 2(2)] unfolding 2(3) by blast
qed

text \<open>C29: The other moves of a database iterator end where they should: \<^verbatim>\<open>Seek\<close> at the first live key that is
  not before the target, \<^verbatim>\<open>Prev\<close> from there at the live key before it, \<^verbatim>\<open>SeekToLast\<close> at the last live
  key, and each of them returns.\<close>

theorem db_seek_prev_last:
  assumes "children_at tabs (mg_children mg) ess ps" and "merge_of ess es" and "env_ok tabs env"
  shows "\<exists>vs j. sorted_wrt (<) (map fst vs) \<and> (\<forall>k. map_of vs k = visible_value (find (readable k seq) es))
    \<and> j = length (filter (\<lambda>kv. fst kv < target) vs)
    \<and> (\<exists>it1 env1. di_Seek target (DBIterator_new (Some mg) seq) env = Some (it1, env1)
        \<and> di_Key it1 = (if j < length vs then Some (fst (vs ! j)) else None)
        \<and> (j < length vs \<longrightarrow> (\<exists>it2 env2. di_Prev it1 env1 = Some (it2, env2)
             \<and> di_Key it2 = (if 0 < j then Some (fst (vs ! (j - 1))) else None))))
    \<and> (\<exists>it1 env1. di_SeekToLast (DBIterator_new (Some mg) seq) env = Some (it1, env1)
        \<and> di_Key it1 = (if vs = [] then None else Some (fst (last vs))))"
proof -
  let ?it = "DBIterator_new (Some mg) seq" and ?vs = "user_view seq es"
  let ?j = "view_pos target ?vs"
  have s: "keys_sorted es" using assms(2) by (rule merge_of_keys)
  have sv: "sorted_wrt (<) (map fst ?vs)" using s by (rule user_view_sorted)
  have j: "?j = length (filter (\<lambda>kv. fst kv < target) ?vs)"
    using drop_view_pos [OF sv, of target] sum_length_filter_compl [of "\<lambda>kv. fst kv < target" ?vs] view_pos_le [of target ?vs]
    by (metis (no_types, lifting) add_diff_cancel_right' diff_diff_cancel filter_cong length_drop linorder_not_less)
  have h: "di_holds tabs ?it es" using assms(1,2) by (auto simp: di_holds_def mg_holds_def DBIterator_new_def)
  have q: "di_sequence ?it = seq" by (simp add: DBIterator_new_def)
  obtain it1 env1 where 1: "di_Seek target ?it env = Some (it1, env1)" "di_at tabs it1 es ?j" "env_ok tabs env1" "di_sequence it1 = seq"
    using di_seek [OF h assms(3), of target] by (auto simp: arrives_def q)
  have prev: "\<exists>it2 env2. di_Prev it1 env1 = Some (it2, env2) \<and> di_Key it2 = (if 0 < ?j then Some (fst (?vs ! (?j - 1))) else None)"
    if jl: "?j < length ?vs"
  proof (cases "?j = 0")
    case True
    then show ?thesis using di_prev [OF 1(2,3)] jl 1(4) by (auto simp: di_Key_def)
  next
    case False
    then obtain it2 env2 where "di_Prev it1 env1 = Some (it2, env2)" "di_at tabs it2 es (?j - 1)" "di_sequence it2 = seq"
      using di_prev [OF 1(2,3)] jl 1(4) by (auto simp: arrives_def)
    then show ?thesis using di_shown(2) [of tabs it2 es "?j - 1"] False jl by auto
  qed
  obtain it3 env3 where 3: "di_SeekToLast ?it env = Some (it3, env3)" "di_sequence it3 = seq"
      "di_at tabs it3 es (if ?vs = [] then 0 else length ?vs - 1)"
    using di_last [OF h assms(3)] unfolding arrives_def q by blast
  have last: "di_Key it3 = (if ?vs = [] then None else Some (fst (last ?vs)))"
    using di_shown(2) [OF 3(3)] 3(2) by (auto simp: last_conv_nth)
  show ?thesis
    by (rule exI [of _ ?vs], rule exI [of _ ?j])
      (use sv user_view_lookup [OF s] j 1 di_shown(2) [OF 1(2)] prev 3(1) last in \<open>auto\<close>)
qed

lemma merged_sample:
  "merge_of [[\<lparr>e_key = [97], e_seq = 6, e_type = 1, e_value = []\<rparr>, \<lparr>e_key = [98], e_seq = 7, e_type = 0, e_value = []\<rparr>], tf_entries split_table]
    [\<lparr>e_key = [97], e_seq = 9, e_type = 1, e_value = []\<rparr>, \<lparr>e_key = [97], e_seq = 6, e_type = 1, e_value = []\<rparr>,
     \<lparr>e_key = [97], e_seq = 4, e_type = 1, e_value = [5]\<rparr>, \<lparr>e_key = [98], e_seq = 7, e_type = 0, e_value = []\<rparr>]"
  by (simp add: merge_of_def split_entries ikey_less_def)

lemma visible_sample:
  "visible_value (find (readable k 5)
    [\<lparr>e_key = [97], e_seq = 9, e_type = 1, e_value = []\<rparr>, \<lparr>e_key = [97], e_seq = 6, e_type = 1, e_value = []\<rparr>,
     \<lparr>e_key = [97], e_seq = 4, e_type = 1, e_value = [5]\<rparr>, \<lparr>e_key = [98], e_seq = 7, e_type = 0, e_value = []\<rparr>])
   = (if k = [97] then Some [5] else None)"
  by (simp add: readable_def visible_value_def kTypeValue_def kTypeDeletion_def eq_commute [of "[97]"])

theorem db_iteration_witness:
  "\<exists>mg env it1 env1 it2 env2. di_SeekToFirst (DBIterator_new (Some mg) 5) env = Some (it1, env1)
     \<and> di_nexts 0 it1 env1 = Some (it2, env2) \<and> di_Key it2 = Some [97] \<and> di_Value it2 = Some [5]"
proof -
  obtain m t env where c: "children_at [1 \<mapsto> split_table] [MemChild m, TableChild t]
      [[\<lparr>e_key = [97], e_seq = 6, e_type = 1, e_value = []\<rparr>, \<lparr>e_key = [98], e_seq = 7, e_type = 0, e_value = []\<rparr>], tf_entries split_table] [2, 2]"
      "env_ok [1 \<mapsto> split_table] env"
    using merging_sample by blast
  let ?mg = "MergingIterator_new [MemChild m, TableChild t]"
  have "children_at [1 \<mapsto> split_table] (mg_children ?mg)
      [[\<lparr>e_key = [97], e_seq = 6, e_type = 1, e_value = []\<rparr>, \<lparr>e_key = [98], e_seq = 7, e_type = 0, e_value = []\<rparr>], tf_entries split_table] [2, 2]"
    using c(1) by (simp add: MergingIterator_new_def)
  from db_iteration [OF this merged_sample c(2), of 5] obtain vs where
    vs: "\<forall>k. map_of vs k = (if k = [97] then Some [5] else None)"
      "\<forall>n \<le> length vs. \<exists>it1 env1 it2 env2. di_SeekToFirst (DBIterator_new (Some ?mg) 5) env = Some (it1, env1)
        \<and> di_nexts n it1 env1 = Some (it2, env2) \<and> di_status it2 = OK
        \<and> di_Key it2 = (if n < length vs then Some (fst (vs ! n)) else None)
        \<and> di_Value it2 = (if n < length vs then Some (snd (vs ! n)) else None)"
    unfolding visible_sample by blast
  obtain kv vs' where v: "vs = kv # vs'" using vs(1) by (cases vs) (auto dest: spec [of _ "[97]"])
  have "map_of vs (fst kv) = Some (snd kv)" by (simp add: v)
  then have "fst kv = [97]" "snd kv = [5]" using vs(1) by (metis option.distinct(1) option.inject)+
  then show ?thesis using vs(2) [THEN spec, of 0] unfolding v by fastforce
qed

theorem db_seek_prev_last_witness:
  "\<exists>mg env it1 env1. di_SeekToLast (DBIterator_new (Some mg) 5) env = Some (it1, env1) \<and> di_Key it1 = Some [97]"
proof -
  obtain m t env where c: "children_at [1 \<mapsto> split_table] [MemChild m, TableChild t]
      [[\<lparr>e_key = [97], e_seq = 6, e_type = 1, e_value = []\<rparr>, \<lparr>e_key = [98], e_seq = 7, e_type = 0, e_value = []\<rparr>], tf_entries split_table] [2, 2]"
      "env_ok [1 \<mapsto> split_table] env"
    using merging_sample by blast
  let ?mg = "MergingIterator_new [MemChild m, TableChild t]"
  have "children_at [1 \<mapsto> split_table] (mg_children ?mg)
      [[\<lparr>e_key = [97], e_seq = 6, e_type = 1, e_value = []\<rparr>, \<lparr>e_key = [98], e_seq = 7, e_type = 0, e_value = []\<rparr>], tf_entries split_table] [2, 2]"
    using c(1) by (simp add: MergingIterator_new_def)
  from db_seek_prev_last [OF this merged_sample c(2), of 5 "[97]"] obtain vs :: "(bytes \<times> bytes) list" where
    vs: "\<forall>k. map_of vs k = (if k = [97] then Some [5] else None)"
      "\<exists>it1 env1. di_SeekToLast (DBIterator_new (Some ?mg) 5) env = Some (it1, env1)
        \<and> di_Key it1 = (if vs = [] then None else Some (fst (last vs)))"
    unfolding visible_sample by blast
  have ne: "vs \<noteq> []" using vs(1) by (auto dest: spec [of _ "[97]"])
  moreover have "fst (last vs) = [97]"
    using vs(1) ne last_in_set [of vs] by (metis imageI map_of_eq_None_iff)
  ultimately show ?thesis using vs(2) by fastforce
qed

end
