(* ===== verification/Version_Edit.thy ===== *)
theory Version_Edit
  imports SSTable_Reader "HOL-Library.Product_Lexorder"
begin

text \<open>
  Version edits: the records of the manifest (src/version_set.h, src/version_set.cc).  An edit
  lists the counters that changed and the table files that a version gains and loses.  The lemmas
  show that an edit reads back as it was written, that decoding always returns, and that the only
  error it reports is corruption.

  The level of a file is a C++ \<^verbatim>\<open>int\<close>; it is written as its 32-bit pattern and read back through
  the conversion to a signed number, which is the identity on the range of \<^verbatim>\<open>int\<close>.
\<close>

record FileMetaData =
  fm_number :: u64
  fm_file_size :: u64
  fm_smallest_key :: bytes
  fm_largest_key :: bytes
  fm_reader :: "SSTableReader option"

definition kTagComparator :: byte where "kTagComparator = 1"
definition kTagLogNumber :: byte where "kTagLogNumber = 2"
definition kTagNextFileNumber :: byte where "kTagNextFileNumber = 3"
definition kTagLastSequence :: byte where "kTagLastSequence = 4"
definition kTagDeletedFile :: byte where "kTagDeletedFile = 5"
definition kTagNewFile :: byte where "kTagNewFile = 6"

lemmas tag_defs = kTagComparator_def kTagLogNumber_def kTagNextFileNumber_def kTagLastSequence_def
  kTagDeletedFile_def kTagNewFile_def

text \<open>\<^verbatim>\<open>deleted_files_\<close> is a \<^verbatim>\<open>std::set\<close>: an ascending list without repetition.\<close>

record VersionEdit =
  ve_has_comparator :: bool
  ve_comparator_name :: bytes
  ve_has_log_number :: bool
  ve_log_number :: u64
  ve_has_next_file_number :: bool
  ve_next_file_number :: u64
  ve_has_last_sequence :: bool
  ve_last_sequence :: u64
  ve_deleted_files :: "(int \<times> u64) list"
  ve_new_files :: "(int \<times> FileMetaData) list"

definition VersionEdit_new :: VersionEdit where
  "VersionEdit_new = \<lparr>ve_has_comparator = False, ve_comparator_name = [], ve_has_log_number = False, ve_log_number = 0,
     ve_has_next_file_number = False, ve_next_file_number = 0, ve_has_last_sequence = False, ve_last_sequence = 0,
     ve_deleted_files = [], ve_new_files = []\<rparr>"

definition Edit_Clear :: "VersionEdit \<Rightarrow> VersionEdit" where
  "Edit_Clear edit = edit\<lparr>ve_has_comparator := False, ve_comparator_name := [], ve_has_log_number := False, ve_log_number := 0,
     ve_has_next_file_number := False, ve_next_file_number := 0, ve_has_last_sequence := False, ve_last_sequence := 0,
     ve_deleted_files := [], ve_new_files := []\<rparr>"

definition SetComparatorName :: "bytes \<Rightarrow> VersionEdit \<Rightarrow> VersionEdit" where
  "SetComparatorName name edit = edit\<lparr>ve_has_comparator := True, ve_comparator_name := name\<rparr>"

definition SetLogNumber :: "u64 \<Rightarrow> VersionEdit \<Rightarrow> VersionEdit" where
  "SetLogNumber num edit = edit\<lparr>ve_has_log_number := True, ve_log_number := num\<rparr>"

definition SetNextFile :: "u64 \<Rightarrow> VersionEdit \<Rightarrow> VersionEdit" where
  "SetNextFile num edit = edit\<lparr>ve_has_next_file_number := True, ve_next_file_number := num\<rparr>"

definition Edit_SetLastSequence :: "u64 \<Rightarrow> VersionEdit \<Rightarrow> VersionEdit" where
  "Edit_SetLastSequence seq edit = edit\<lparr>ve_has_last_sequence := True, ve_last_sequence := seq\<rparr>"

definition DeleteFile :: "int \<Rightarrow> u64 \<Rightarrow> VersionEdit \<Rightarrow> VersionEdit" where
  "DeleteFile level file edit = edit\<lparr>ve_deleted_files := insort_insert (level, file) (ve_deleted_files edit)\<rparr>"

definition AddFile :: "int \<Rightarrow> u64 \<Rightarrow> u64 \<Rightarrow> bytes \<Rightarrow> bytes \<Rightarrow> SSTableReader option \<Rightarrow> VersionEdit \<Rightarrow> VersionEdit" where
  "AddFile level file file_size smallest largest reader edit =
     edit\<lparr>ve_new_files := ve_new_files edit @
       [(level, \<lparr>fm_number = file, fm_file_size = file_size, fm_smallest_key = smallest, fm_largest_key = largest, fm_reader = reader\<rparr>)]\<rparr>"

definition encode_level :: "int \<Rightarrow> bytes" where
  "encode_level level = EncodeFixed32 (word_of_int level)"

definition encode_sized :: "bytes \<Rightarrow> bytes" where
  "encode_sized s = EncodeFixed32 (of_nat (length s)) @ s"

definition encode_deleted :: "int \<times> u64 \<Rightarrow> bytes" where
  "encode_deleted d = [kTagDeletedFile] @ encode_level (fst d) @ EncodeFixed64 (snd d)"

definition encode_new :: "int \<times> FileMetaData \<Rightarrow> bytes" where
  "encode_new n = [kTagNewFile] @ encode_level (fst n) @ EncodeFixed64 (fm_number (snd n)) @ EncodeFixed64 (fm_file_size (snd n))
     @ encode_sized (fm_smallest_key (snd n)) @ encode_sized (fm_largest_key (snd n))"

definition Edit_EncodeTo :: "VersionEdit \<Rightarrow> bytes" where
  "Edit_EncodeTo edit =
     (if ve_has_comparator edit then [kTagComparator] @ encode_sized (ve_comparator_name edit) else [])
     @ (if ve_has_log_number edit then [kTagLogNumber] @ EncodeFixed64 (ve_log_number edit) else [])
     @ (if ve_has_next_file_number edit then [kTagNextFileNumber] @ EncodeFixed64 (ve_next_file_number edit) else [])
     @ (if ve_has_last_sequence edit then [kTagLastSequence] @ EncodeFixed64 (ve_last_sequence edit) else [])
     @ concat (map encode_deleted (ve_deleted_files edit))
     @ concat (map encode_new (ve_new_files edit))"

text \<open>A length and that many bytes; the two error messages are those of the caller.\<close>

definition decode_sized :: "string \<Rightarrow> string \<Rightarrow> bytes \<Rightarrow> Status + bytes \<times> bytes" where
  "decode_sized bad truncated input =
     (if length input < 4 then Inl (Corruption bad)
      else let len = unat (DecodeFixed32 input); input = drop 4 input in
        if length input < len then Inl (Corruption truncated) else Inr (take len input, drop len input))"

definition decode_num :: "string \<Rightarrow> bytes \<Rightarrow> Status + u64 \<times> bytes" where
  "decode_num bad input = (if length input < 8 then Inl (Corruption bad) else Inr (DecodeFixed64 input, drop 8 input))"

definition decode_new :: "bytes \<Rightarrow> Status + (int \<times> FileMetaData) \<times> bytes" where
  "decode_new input =
     (if length input < 20 then Inl (Corruption ''Bad new file in edit'')
      else let level = sint (DecodeFixed32 input); number = DecodeFixed64 (drop 4 input);
               file_size = DecodeFixed64 (drop 12 input) in
        case decode_sized ''Bad smallest key len'' ''Truncated smallest key'' (drop 20 input) of
          Inl s \<Rightarrow> Inl s
        | Inr (smallest, input) \<Rightarrow> (case decode_sized ''Bad largest key len'' ''Truncated largest key'' input of
            Inl s \<Rightarrow> Inl s
          | Inr (largest, input) \<Rightarrow>
              Inr ((level, \<lparr>fm_number = number, fm_file_size = file_size, fm_smallest_key = smallest,
                fm_largest_key = largest, fm_reader = None\<rparr>), input)))"

text \<open>One round of the loop: the switch on the tag.\<close>

definition decode_field :: "byte \<Rightarrow> bytes \<Rightarrow> VersionEdit \<Rightarrow> Status + VersionEdit \<times> bytes" where
  "decode_field tag input edit =
     (if tag = kTagComparator then map_sum id (apfst (\<lambda>name. SetComparatorName name edit))
        (decode_sized ''Bad comparator in edit'' ''Truncated comparator'' input)
      else if tag = kTagLogNumber then map_sum id (apfst (\<lambda>num. SetLogNumber num edit)) (decode_num ''Bad log number in edit'' input)
      else if tag = kTagNextFileNumber then map_sum id (apfst (\<lambda>num. SetNextFile num edit)) (decode_num ''Bad next file in edit'' input)
      else if tag = kTagLastSequence then map_sum id (apfst (\<lambda>num. Edit_SetLastSequence num edit)) (decode_num ''Bad last sequence in edit'' input)
      else if tag = kTagDeletedFile then
        (if length input < 12 then Inl (Corruption ''Bad deleted file in edit'')
         else Inr (DeleteFile (sint (DecodeFixed32 input)) (DecodeFixed64 (drop 4 input)) edit, drop 12 input))
      else if tag = kTagNewFile then
        map_sum id (apfst (\<lambda>n. edit\<lparr>ve_new_files := ve_new_files edit @ [n]\<rparr>)) (decode_new input)
      else Inl (Corruption ''Unknown tag in VersionEdit''))"

lemma decode_sized_shorter: "decode_sized b t input = Inr (s, rest) \<Longrightarrow> length rest \<le> length input"
  by (auto simp: decode_sized_def Let_def split: if_splits)

lemma decode_num_shorter: "decode_num b input = Inr (s, rest) \<Longrightarrow> length rest \<le> length input"
  by (auto simp: decode_num_def split: if_splits)

lemma decode_new_shorter: "decode_new input = Inr (n, rest) \<Longrightarrow> length rest \<le> length input"
  by (auto simp: decode_new_def Let_def split: if_splits sum.splits dest!: decode_sized_shorter)

lemma map_sum_Inr: "map_sum id f x = Inr y \<longleftrightarrow> (\<exists>z. x = Inr z \<and> y = f z)"
  by (cases x) auto

lemma decode_field_shorter: "decode_field tag input edit = Inr (edit', rest) \<Longrightarrow> length rest \<le> length input"
  by (auto simp: decode_field_def map_sum_Inr split: if_splits
      dest!: decode_sized_shorter decode_num_shorter decode_new_shorter)

function decode_loop :: "bytes \<Rightarrow> VersionEdit \<Rightarrow> Status + VersionEdit" where
  "decode_loop [] edit = Inr edit"
| "decode_loop (tag # input) edit = (case decode_field tag input edit of
     Inl s \<Rightarrow> Inl s
   | Inr (edit', input') \<Rightarrow> decode_loop input' edit')"
  by pat_completeness auto
termination
  by (relation "measure (\<lambda>(input, _). length input)") (auto dest!: decode_field_shorter)

definition Edit_DecodeFrom :: "bytes \<Rightarrow> VersionEdit \<Rightarrow> Status + VersionEdit" where
  "Edit_DecodeFrom src edit = decode_loop src (Edit_Clear edit)"

section \<open>Round trip\<close>

definition edit_wf :: "VersionEdit \<Rightarrow> bool" where
  "edit_wf edit \<longleftrightarrow> sorted (ve_deleted_files edit) \<and> distinct (ve_deleted_files edit)"

definition int32 :: "int \<Rightarrow> bool" where
  "int32 i \<longleftrightarrow> - (2 ^ 31) \<le> i \<and> i < 2 ^ 31"

definition len32 :: "bytes \<Rightarrow> bool" where
  "len32 s \<longleftrightarrow> length s < 2 ^ 32"

text \<open>What fits into the encoding: levels in the range of \<^verbatim>\<open>int\<close>, lengths in 32 bits.\<close>

definition edit_fits :: "VersionEdit \<Rightarrow> bool" where
  "edit_fits edit \<longleftrightarrow> len32 (ve_comparator_name edit) \<and> (\<forall>d \<in> set (ve_deleted_files edit). int32 (fst d))
     \<and> (\<forall>n \<in> set (ve_new_files edit). int32 (fst n) \<and> len32 (fm_smallest_key (snd n))
          \<and> len32 (fm_largest_key (snd n)))"

text \<open>What of an edit the manifest keeps: everything but the readers and unset counters.\<close>

definition stored :: "VersionEdit \<Rightarrow> VersionEdit" where
  "stored edit = edit\<lparr>
     ve_comparator_name := if ve_has_comparator edit then ve_comparator_name edit else [],
     ve_log_number := if ve_has_log_number edit then ve_log_number edit else 0,
     ve_next_file_number := if ve_has_next_file_number edit then ve_next_file_number edit else 0,
     ve_last_sequence := if ve_has_last_sequence edit then ve_last_sequence edit else 0,
     ve_new_files := map (apsnd (fm_reader_update (\<lambda>_. None))) (ve_new_files edit)\<rparr>"

lemma sint_word_of_int32: "int32 i \<Longrightarrow> sint (word_of_int i :: u32) = i"
  by (simp add: int32_def sint_sbintrunc' signed_take_bit_int_eq_self)

lemma length_encode_level [simp]: "length (encode_level i) = 4"
  by (simp add: encode_level_def)

lemma Decode_encode_level [simp]: "DecodeFixed32 (encode_level i @ rest) = word_of_int i"
  by (simp add: encode_level_def)

lemma decode_sized_encode: "len32 s \<Longrightarrow> decode_sized b t (encode_sized s @ rest) = Inr (s, rest)"
  by (simp add: decode_sized_def encode_sized_def unat_of_nat32 Let_def len32_def)

lemma decode_num_encode: "decode_num b (EncodeFixed64 n @ rest) = Inr (n, rest)"
  by (simp add: decode_num_def)

lemma decode_new_encode:
  assumes "int32 level" and "len32 (fm_smallest_key f)" and "len32 (fm_largest_key f)"
  shows "decode_new (encode_level level @ EncodeFixed64 (fm_number f) @ EncodeFixed64 (fm_file_size f)
     @ encode_sized (fm_smallest_key f) @ encode_sized (fm_largest_key f) @ rest) = Inr ((level, f\<lparr>fm_reader := None\<rparr>), rest)"
  using assms by (simp add: decode_new_def Let_def sint_word_of_int32 decode_sized_encode)

lemma decode_field_tags [simp]:
  "decode_field kTagComparator input edit = map_sum id (apfst (\<lambda>name. SetComparatorName name edit))
     (decode_sized ''Bad comparator in edit'' ''Truncated comparator'' input)"
  "decode_field kTagLogNumber input edit = map_sum id (apfst (\<lambda>num. SetLogNumber num edit)) (decode_num ''Bad log number in edit'' input)"
  "decode_field kTagNextFileNumber input edit = map_sum id (apfst (\<lambda>num. SetNextFile num edit)) (decode_num ''Bad next file in edit'' input)"
  "decode_field kTagLastSequence input edit =
     map_sum id (apfst (\<lambda>num. Edit_SetLastSequence num edit)) (decode_num ''Bad last sequence in edit'' input)"
  "decode_field kTagDeletedFile input edit = (if length input < 12 then Inl (Corruption ''Bad deleted file in edit'')
     else Inr (DeleteFile (sint (DecodeFixed32 input)) (DecodeFixed64 (drop 4 input)) edit, drop 12 input))"
  "decode_field kTagNewFile input edit = map_sum id (apfst (\<lambda>n. edit\<lparr>ve_new_files := ve_new_files edit @ [n]\<rparr>)) (decode_new input)"
  by (simp_all add: decode_field_def tag_defs)

lemma decode_loop_new:
  "\<forall>n \<in> set ns. int32 (fst n) \<and> len32 (fm_smallest_key (snd n)) \<and> len32 (fm_largest_key (snd n)) \<Longrightarrow>
   decode_loop (concat (map encode_new ns)) edit =
     Inr (edit\<lparr>ve_new_files := ve_new_files edit @ map (apsnd (fm_reader_update (\<lambda>_. None))) ns\<rparr>)"
proof (induction ns arbitrary: edit)
  case (Cons n ns)
  obtain l f where n: "n = (l, f)" by fastforce
  have "decode_loop (concat (map encode_new (n # ns))) edit =
      decode_loop (concat (map encode_new ns)) (edit\<lparr>ve_new_files := ve_new_files edit @ [(l, f\<lparr>fm_reader := None\<rparr>)]\<rparr>)"
    using decode_new_encode [of l f "concat (map encode_new ns)"] Cons.prems
    by (simp add: n encode_new_def)
  then show ?case using Cons by (simp add: n)
qed simp

lemma insort_insert_last: "\<forall>x \<in> set xs. x < y \<Longrightarrow> insort_insert y xs = xs @ [y :: 'a::linorder]"
  by (induction xs) (auto simp: insort_insert_key_def)

lemma decode_loop_deleted:
  "\<forall>d \<in> set ds. int32 (fst d) \<Longrightarrow> sorted (ve_deleted_files edit @ ds) \<Longrightarrow> distinct (ve_deleted_files edit @ ds) \<Longrightarrow>
   decode_loop (concat (map encode_deleted ds) @ rest) edit =
     decode_loop rest (edit\<lparr>ve_deleted_files := ve_deleted_files edit @ ds\<rparr>)"
proof (induction ds arbitrary: edit)
  case (Cons d ds)
  have "\<forall>x \<in> set (ve_deleted_files edit). x < d" using Cons.prems(2,3) by (fastforce simp: sorted_append)
  then have "DeleteFile (fst d) (snd d) edit = edit\<lparr>ve_deleted_files := ve_deleted_files edit @ [d]\<rparr>"
    by (simp add: DeleteFile_def insort_insert_last)
  then have "decode_loop (concat (map encode_deleted (d # ds)) @ rest) edit =
      decode_loop (concat (map encode_deleted ds) @ rest) (edit\<lparr>ve_deleted_files := ve_deleted_files edit @ [d]\<rparr>)"
    using sint_word_of_int32 [of "fst d"] Cons.prems(1)
    by (simp add: encode_deleted_def)
  then show ?case using Cons by simp
qed simp

lemma Edit_roundtrip:
  assumes "edit_wf edit" and "edit_fits edit"
  shows "Edit_DecodeFrom (Edit_EncodeTo edit) e0 = Inr (stored edit)"
proof -
  let ?e1 = "\<lambda>e. if ve_has_comparator edit then SetComparatorName (ve_comparator_name edit) e else e"
  let ?e2 = "\<lambda>e. if ve_has_log_number edit then SetLogNumber (ve_log_number edit) e else e"
  let ?e3 = "\<lambda>e. if ve_has_next_file_number edit then SetNextFile (ve_next_file_number edit) e else e"
  let ?e4 = "\<lambda>e. if ve_has_last_sequence edit then Edit_SetLastSequence (ve_last_sequence edit) e else e"
  let ?rest = "concat (map encode_deleted (ve_deleted_files edit)) @ concat (map encode_new (ve_new_files edit))"
  define E where "E = ?e4 (?e3 (?e2 (?e1 (Edit_Clear e0))))"
  have E: "ve_deleted_files E = []" "ve_new_files E = []"
    by (simp_all add: E_def SetComparatorName_def SetLogNumber_def SetNextFile_def Edit_SetLastSequence_def Edit_Clear_def)
  have "Edit_DecodeFrom (Edit_EncodeTo edit) e0 = decode_loop ?rest E"
    using assms(2)
    by (simp add: E_def Edit_DecodeFrom_def Edit_EncodeTo_def edit_fits_def decode_sized_encode decode_num_encode)
  also have "\<dots> = Inr (E\<lparr>ve_deleted_files := ve_deleted_files edit,
      ve_new_files := map (apsnd (fm_reader_update (\<lambda>_. None))) (ve_new_files edit)\<rparr>)"
    using assms E by (simp add: decode_loop_deleted decode_loop_new edit_fits_def edit_wf_def)
  also have "\<dots> = Inr (stored edit)"
    by (simp add: E_def stored_def SetComparatorName_def SetLogNumber_def SetNextFile_def Edit_SetLastSequence_def Edit_Clear_def)
  finally show ?thesis .
qed

section \<open>What decoding accepts\<close>

definition edit_good :: "VersionEdit \<Rightarrow> bool" where
  "edit_good edit \<longleftrightarrow> edit_wf edit \<and> edit_fits edit \<and> stored edit = edit"

lemma int32_sint: "int32 (sint (w :: u32))"
  using sint_ge [of w] sint_lt [of w] by (simp add: int32_def)

lemma map_fixed: "map f xs = xs \<longleftrightarrow> (\<forall>x \<in> set xs. f x = x)"
  by (induction xs) auto

lemma reader_dropped: "apsnd (fm_reader_update (\<lambda>_. None)) n = n \<longleftrightarrow> fm_reader (snd n) = None"
  by (cases n) (auto simp: FileMetaData.equality dest: arg_cong [of _ _ fm_reader])

lemma stored_iff:
  "stored edit = edit \<longleftrightarrow> (\<not> ve_has_comparator edit \<longrightarrow> ve_comparator_name edit = [])
     \<and> (\<not> ve_has_log_number edit \<longrightarrow> ve_log_number edit = 0) \<and> (\<not> ve_has_next_file_number edit \<longrightarrow> ve_next_file_number edit = 0)
     \<and> (\<not> ve_has_last_sequence edit \<longrightarrow> ve_last_sequence edit = 0) \<and> (\<forall>n \<in> set (ve_new_files edit). fm_reader (snd n) = None)"
  by (cases edit) (auto simp: stored_def map_fixed reader_dropped)

lemma edit_good_setters:
  assumes "edit_good edit"
  shows "len32 name \<Longrightarrow> edit_good (SetComparatorName name edit)" "edit_good (SetLogNumber num edit)"
    "edit_good (SetNextFile num edit)" "edit_good (Edit_SetLastSequence num edit)"
    "int32 level \<Longrightarrow> edit_good (DeleteFile level file edit)"
  using assms
  by (auto simp: edit_good_def stored_iff edit_wf_def edit_fits_def SetComparatorName_def SetLogNumber_def SetNextFile_def
      Edit_SetLastSequence_def DeleteFile_def sorted_insort_insert distinct_insort_insert set_insort_insert)

lemma decode_sized_result:
  "decode_sized b t input = Inl s \<Longrightarrow> IsCorruption s" "decode_sized b t input = Inr (x, rest) \<Longrightarrow> len32 x"
  using unat_lt32 [of "DecodeFixed32 input"] by (auto simp: decode_sized_def Let_def len32_def split: if_splits)

lemma decode_num_error: "decode_num b input = Inl s \<Longrightarrow> IsCorruption s"
  by (auto simp: decode_num_def split: if_splits)

lemma decode_new_result:
  "decode_new input = Inl s \<Longrightarrow> IsCorruption s"
  "decode_new input = Inr (n, rest) \<Longrightarrow> int32 (fst n) \<and> len32 (fm_smallest_key (snd n))
     \<and> len32 (fm_largest_key (snd n)) \<and> fm_reader (snd n) = None"
  by (auto simp: decode_new_def Let_def int32_sint split: if_splits sum.splits dest!: decode_sized_result)

lemma map_sum_Inl: "map_sum id f x = Inl y \<longleftrightarrow> x = Inl y"
  by (cases x) auto

lemma decode_field_error: "decode_field tag input edit = Inl s \<Longrightarrow> IsCorruption s"
  by (auto simp: decode_field_def map_sum_Inl split: if_splits dest: decode_sized_result decode_num_error decode_new_result)

lemma edit_good_new:
  "edit_good edit \<Longrightarrow> int32 (fst n) \<and> len32 (fm_smallest_key (snd n)) \<and> len32 (fm_largest_key (snd n))
     \<and> fm_reader (snd n) = None \<Longrightarrow> edit_good (edit\<lparr>ve_new_files := ve_new_files edit @ [n]\<rparr>)"
  by (auto simp: edit_good_def stored_iff edit_wf_def edit_fits_def)

lemma decode_field_good: "decode_field tag input edit = Inr (edit', rest) \<Longrightarrow> edit_good edit \<Longrightarrow> edit_good edit'"
  by (auto simp: decode_field_def map_sum_Inr split: if_splits
      intro!: edit_good_setters edit_good_new int32_sint dest: decode_sized_result decode_new_result)

lemma decode_loop_result:
  "edit_good edit \<Longrightarrow> (\<forall>s. decode_loop input edit = Inl s \<longrightarrow> IsCorruption s) \<and> (\<forall>e. decode_loop input edit = Inr e \<longrightarrow> edit_good e)"
proof (induction input edit rule: decode_loop.induct)
  case (2 tag input edit)
  show ?case
  proof (cases "decode_field tag input edit")
    case (Inl s)
    then show ?thesis using decode_field_error by simp
  next
    case (Inr r)
    obtain e' i' where r: "r = (e', i')" by fastforce
    have "decode_loop (tag # input) edit = decode_loop i' e'" using Inr by (simp add: r)
    then show ?thesis using 2(1) [OF Inr r [symmetric] decode_field_good [OF Inr [unfolded r] 2(2)]] by (simp only: simp_thms)
  qed
qed simp

section \<open>Properties\<close>


text \<open>C34: A version edit written to the manifest reads back as it was: all counters that were set, the deleted
  files and the new files with their levels, sizes and key ranges; only the open readers are not kept.\<close>

theorem edit_roundtrip:
  assumes "sorted (ve_deleted_files edit)" and "distinct (ve_deleted_files edit)" and "edit_fits edit"
  shows "Edit_DecodeFrom (Edit_EncodeTo edit) e0 = Inr (stored edit)"
  using assms by (intro Edit_roundtrip) (simp_all add: edit_wf_def)

theorem edit_roundtrip_witness:
  "Edit_DecodeFrom (Edit_EncodeTo (AddFile 1 7 99 [97] [122] None (DeleteFile 0 5 (SetLogNumber 3 VersionEdit_new)))) VersionEdit_new
     = Inr (stored (AddFile 1 7 99 [97] [122] None (DeleteFile 0 5 (SetLogNumber 3 VersionEdit_new))))"
  by (rule edit_roundtrip)
    (simp_all add: AddFile_def DeleteFile_def SetLogNumber_def VersionEdit_new_def edit_fits_def int32_def len32_def insort_insert_key_def)

end
