(* ===== verification/Version.thy ===== *)
theory Version
  imports Version_Edit Merging_Iterator
begin

text \<open>
  A version: the table files of each level (src/version_set.h, src/version_set.cc).  \<open>version_rep\<close>
  says which entries the files hold; a lookup is shown to return the first readable version in
  search order, level 0 from the newest file to the oldest and then one file per deeper level,
  and the iterators to cover every file.

  Tables are opened on first use: a lookup may leave a reader in the metadata of a file, so the
  version is part of its result.  The mutex around this makes each opening atomic.
\<close>

definition kNumLevels :: nat where "kNumLevels = 7"

record Version =
  v_dbname :: string
  v_files :: "nat \<Rightarrow> FileMetaData list"

definition Version_new :: "string \<Rightarrow> Version" where
  "Version_new dbname = \<lparr>v_dbname = dbname, v_files = (\<lambda>_. [])\<rparr>"

definition NumLevelFiles :: "Version \<Rightarrow> nat \<Rightarrow> nat" where
  "NumLevelFiles v level = length (v_files v level)"

definition LevelBytes :: "Version \<Rightarrow> nat \<Rightarrow> u64" where
  "LevelBytes v level = fold (\<lambda>f total. total + fm_file_size f) (v_files v level) 0"

definition open_reader :: "Options \<Rightarrow> string \<Rightarrow> FileMetaData \<Rightarrow> World \<Rightarrow> (Status + SSTableReader) \<times> FileMetaData \<times> World" where
  "open_reader options dbname f w = (case fm_reader f of
     Some r \<Rightarrow> (Inr r, f, w)
   | None \<Rightarrow>
       (let (res, w') = SSTableReader_Open options (TableFileName dbname (fm_number f)) (fm_number f) (fm_file_size f) w
        in case res of
             Inl s \<Rightarrow> (Inl s, f, w')
           | Inr r \<Rightarrow> (Inr r, f\<lparr>fm_reader := Some r\<rparr>, w')))"

definition get_in_file ::
  "Options \<Rightarrow> string \<Rightarrow> bytes \<Rightarrow> SequenceNumber \<Rightarrow> FileMetaData \<Rightarrow> env \<Rightarrow> (lookup_result \<times> FileMetaData \<times> env) option" where
  "get_in_file options dbname user_key seq f env =
     (let (res, f', w) = open_reader options dbname f (snd env)
      in case res of
           Inl st \<Rightarrow> Some (Some (st, None), f', fst env, w)
         | Inr reader \<Rightarrow> do {
             (found, env') \<leftarrow> Table_Get user_key seq reader (fst env, w);
             Some (found, f', env')
           })"

text \<open>Level 0: every file whose range covers the key, newest first.\<close>

fun get_level0 ::
  "Options \<Rightarrow> string \<Rightarrow> bytes \<Rightarrow> SequenceNumber \<Rightarrow> FileMetaData list \<Rightarrow> env \<Rightarrow> (lookup_result \<times> FileMetaData list \<times> env) option" where
  "get_level0 options dbname ukey seq [] env = Some (None, [], env)"
| "get_level0 options dbname ukey seq (f # fs) env =
     (if ukey < fm_smallest_key f \<or> ukey > fm_largest_key f
      then do {
        (found, fs', env') \<leftarrow> get_level0 options dbname ukey seq fs env;
        Some (found, f # fs', env')
      }
      else do {
        (found, f', env1) \<leftarrow> get_in_file options dbname ukey seq f env;
        if found \<noteq> None then Some (found, f' # fs, env1)
        else do {
          (found, fs', env2) \<leftarrow> get_level0 options dbname ukey seq fs env1;
          Some (found, f' # fs', env2)
        }
      })"

text \<open>The binary search for the file of a deeper level that covers the key; no file is \<open>None\<close>.\<close>

function find_candidate :: "bytes \<Rightarrow> FileMetaData list \<Rightarrow> int \<Rightarrow> int \<Rightarrow> int option" where
  "find_candidate ukey fs left right =
     (if left \<le> right
      then let mid = left + (right - left) div 2; f = fs ! nat mid
        in if fm_largest_key f < ukey then find_candidate ukey fs (mid + 1) right
           else if fm_smallest_key f > ukey then find_candidate ukey fs left (mid - 1)
           else Some mid
      else None)"
  by pat_completeness auto
termination
  by (relation "measure (\<lambda>(_, _, left, right). nat (right - left + 1))") (auto simp: Let_def)

declare find_candidate.simps [simp del]

definition get_level ::
  "Options \<Rightarrow> string \<Rightarrow> bytes \<Rightarrow> SequenceNumber \<Rightarrow> FileMetaData list \<Rightarrow> env \<Rightarrow> (lookup_result \<times> FileMetaData list \<times> env) option" where
  "get_level options dbname ukey seq fs env =
     (if fs = [] then Some (None, fs, env)
      else case find_candidate ukey fs 0 (int (length fs) - 1) of
        None \<Rightarrow> Some (None, fs, env)
      | Some candidate \<Rightarrow> do {
          (found, f', env') \<leftarrow> get_in_file options dbname ukey seq (fs ! nat candidate) env;
          Some (found, fs[nat candidate := f'], env')
        })"

fun get_levels ::
  "Options \<Rightarrow> bytes \<Rightarrow> SequenceNumber \<Rightarrow> nat list \<Rightarrow> Version \<Rightarrow> env \<Rightarrow> (lookup_result \<times> Version \<times> env) option" where
  "get_levels options ukey seq [] v env = Some (None, v, env)"
| "get_levels options ukey seq (level # levels) v env = do {
     (found, fs, env') \<leftarrow> get_level options (v_dbname v) ukey seq (v_files v level) env;
     let v' = v\<lparr>v_files := (v_files v)(level := fs)\<rparr>;
     if found \<noteq> None then Some (found, v', env') else get_levels options ukey seq levels v' env'
   }"

definition Version_Get ::
  "Options \<Rightarrow> bytes \<Rightarrow> SequenceNumber \<Rightarrow> Version \<Rightarrow> env \<Rightarrow> (lookup_result \<times> Version \<times> env) option" where
  "Version_Get options user_key seq v env = do {
     (found, fs, env') \<leftarrow> get_level0 options (v_dbname v) user_key seq (v_files v 0) env;
     let v' = v\<lparr>v_files := (v_files v)(0 := fs)\<rparr>;
     if found \<noteq> None then Some (found, v', env')
     else get_levels options user_key seq [1..<kNumLevels] v' env'
   }"

text \<open>A table that cannot be opened is left out without a report.\<close>

fun add_file_iterators ::
  "Options \<Rightarrow> string \<Rightarrow> FileMetaData list \<Rightarrow> World \<Rightarrow> TwoLevelIterator list \<times> FileMetaData list \<times> World" where
  "add_file_iterators options dbname [] w = ([], [], w)"
| "add_file_iterators options dbname (f # fs) w =
     (let (res, f', w1) = open_reader options dbname f w;
          (iters, fs', w2) = add_file_iterators options dbname fs w1
      in (case res of Inl _ \<Rightarrow> iters | Inr r \<Rightarrow> TwoLevelIterator_new r # iters, f' # fs', w2))"

fun add_level_iterators ::
  "Options \<Rightarrow> nat list \<Rightarrow> Version \<Rightarrow> World \<Rightarrow> TwoLevelIterator list \<times> Version \<times> World" where
  "add_level_iterators options [] v w = ([], v, w)"
| "add_level_iterators options (level # levels) v w =
     (let (iters, fs, w1) = add_file_iterators options (v_dbname v) (v_files v level) w;
          (iters', v', w2) = add_level_iterators options levels (v\<lparr>v_files := (v_files v)(level := fs)\<rparr>) w1
      in (iters @ iters', v', w2))"

definition AddIterators :: "Options \<Rightarrow> Version \<Rightarrow> World \<Rightarrow> TwoLevelIterator list \<times> Version \<times> World" where
  "AddIterators options v w = add_level_iterators options [0..<kNumLevels] v w"

section \<open>Reading leaves the files alone\<close>

definition reads :: "World \<Rightarrow> World \<Rightarrow> bool" where
  "reads w w' \<longleftrightarrow> dir w' = dir w \<and> inodes w' = inodes w \<and> next_inode w' = next_inode w \<and> set (script w') \<subseteq> set (script w)"

lemma reads_refl [simp]: "reads w w"
  by (simp add: reads_def)

lemma reads_trans: "reads w w' \<Longrightarrow> reads w' w'' \<Longrightarrow> reads w w''"
  by (auto simp: reads_def)

lemma reads_simps: "reads w w' \<Longrightarrow> dir w' = dir w" "reads w w' \<Longrightarrow> inodes w' = inodes w" "reads w w' \<Longrightarrow> script w = [] \<Longrightarrow> script w' = []"
  by (auto simp: reads_def)

lemma reads_tl: "reads w (w\<lparr>script := tl (script w)\<rparr>)"
  using in_set_tlD by (auto simp: reads_def)

lemma reads_pread: "sys_pread i n pos w = (r, w') \<Longrightarrow> reads w w'"
  using sys_pread_eq(1) reads_tl by blast

lemma reads_upto: "read_upto i pos n w = (e, bs, w') \<Longrightarrow> reads w w'"
proof -
  assume "read_upto i pos n w = (e, bs, w')"
  from read_upto_effect [OF this] obtain x where "w' = w\<lparr>script := x\<rparr>" "set x \<subseteq> set (script w)" by blast
  then show ?thesis by (simp add: reads_def)
qed

lemma reads_open_rdonly: "sys_open_rdonly path w = (fd, w') \<Longrightarrow> reads w w'"
  using reads_tl by (auto simp: sys_open_rdonly_def next_outcome_eq)

lemma reads_ReadBlock: "ReadBlock h r w = (res, w') \<Longrightarrow> reads w w'"
  by (auto simp: ReadBlock_def Let_def split: if_splits option.splits prod.splits dest: reads_upto)

lemma reads_load: "load_data_block r h env = (res, env') \<Longrightarrow> reads (snd env) (snd env')"
  by (auto simp: load_data_block_def Let_def split: if_splits option.splits prod.splits sum.splits dest!: reads_ReadBlock)

lemma reads_Table_Get: "Table_Get key seq r env = Some (found, env') \<Longrightarrow> reads (snd env) (snd env')"
  by (auto simp: Table_Get_def Let_def split: if_splits option.splits prod.splits sum.splits dest!: reads_load)

lemma reads_filter: "read_filter h i w = (flt, w') \<Longrightarrow> reads w w'"
  by (auto simp: read_filter_def Let_def split: if_splits prod.splits rd_result.splits dest!: reads_pread)

lemma reads_Open: "SSTableReader_Open options name n sz w = (res, w') \<Longrightarrow> reads w w'"
  unfolding SSTableReader_Open_def Let_def
  by (auto split: if_splits option.splits prod.splits sum.splits rd_result.splits
      dest!: reads_open_rdonly reads_pread reads_ReadBlock reads_filter intro: reads_trans)

section \<open>What the files of a version hold\<close>

definition file_entries :: "tables \<Rightarrow> FileMetaData \<Rightarrow> MemtableEntry list" where
  "file_entries tabs f = (case tabs (fm_number f) of None \<Rightarrow> [] | Some t \<Rightarrow> tf_entries t)"

text \<open>A file of a version: the table behind it, its key range, and a reader, or a name under which
  the table can be opened.\<close>

definition file_rep :: "tables \<Rightarrow> string \<Rightarrow> World \<Rightarrow> FileMetaData \<Rightarrow> bool" where
  "file_rep tabs dbname w f \<longleftrightarrow> (\<exists>t. tabs (fm_number f) = Some t \<and> fm_file_size f = of_nat (length (tf_bytes t))
     \<and> sorted_entries (tf_entries t)
     \<and> (\<forall>e \<in> set (tf_entries t). fm_smallest_key f \<le> e_key e \<and> e_key e \<le> fm_largest_key f)
     \<and> (case fm_reader f of
          Some r \<Rightarrow> reader_rep r (fm_number f) t
        | None \<Rightarrow> dir w (TableFileName dbname (fm_number f)) = Some (tf_inode t) \<and> script w = []))"

definition same_file :: "FileMetaData \<Rightarrow> FileMetaData \<Rightarrow> bool" where
  "same_file f f' \<longleftrightarrow> fm_number f' = fm_number f \<and> fm_file_size f' = fm_file_size f
     \<and> fm_smallest_key f' = fm_smallest_key f \<and> fm_largest_key f' = fm_largest_key f"

lemma same_file_refl [simp]: "same_file f f"
  by (simp add: same_file_def)

lemma same_file_entries: "same_file f f' \<Longrightarrow> file_entries tabs f' = file_entries tabs f"
  by (simp add: same_file_def file_entries_def)

lemma file_rep_reads: "file_rep tabs dbname w f \<Longrightarrow> reads w w' \<Longrightarrow> file_rep tabs dbname w' f"
  using reads_simps [of w w'] by (auto simp: file_rep_def split: option.splits)

lemma env_ok_reads: "env_ok tabs (c, w) \<Longrightarrow> reads w w' \<Longrightarrow> env_ok tabs (c, w')"
  by (auto simp: env_ok_def reads_def)

lemma open_reader_ok:
  assumes f: "file_rep tabs dbname w f" and e: "env_ok tabs (c, w)"
  shows "\<exists>r f' w'. open_reader options dbname f w = (Inr r, f', w') \<and> reads w w' \<and> same_file f f' \<and> file_rep tabs dbname w' f'
    \<and> (\<exists>t. tabs (fm_number f) = Some t \<and> reader_rep r (fm_number f) t)"
proof (cases "fm_reader f")
  case (Some r)
  then show ?thesis using f by (auto simp: open_reader_def file_rep_def)
next
  case None
  then obtain t where t: "tabs (fm_number f) = Some t" "fm_file_size f = of_nat (length (tf_bytes t))" "sorted_entries (tf_entries t)"
      "\<forall>e \<in> set (tf_entries t). fm_smallest_key f \<le> e_key e \<and> e_key e \<le> fm_largest_key f"
      "dir w (TableFileName dbname (fm_number f)) = Some (tf_inode t)" "script w = []"
    using f by (auto simp: file_rep_def)
  obtain res w' where o: "SSTableReader_Open options (TableFileName dbname (fm_number f)) (fm_number f) (of_nat (length (tf_bytes t))) w = (res, w')"
    by fastforce
  have i: "inodes w (tf_inode t) = tf_bytes t" "table_fits t" using e t(1) by (auto simp: env_ok_def)
  have "case res of Inl s \<Rightarrow> IsIOError s \<and> script w \<noteq> [] | Inr r \<Rightarrow> reader_rep r (fm_number f) t"
    using Open_file [OF i(2) t(5) i(1) _ o] t(6) by simp
  then obtain r where r: "res = Inr r" "reader_rep r (fm_number f) t" using t(6) by (cases res) auto
  have "open_reader options dbname f w = (Inr r, f\<lparr>fm_reader := Some r\<rparr>, w')"
    using None o r(1) t(2) by (simp add: open_reader_def)
  moreover have "file_rep tabs dbname w' (f\<lparr>fm_reader := Some r\<rparr>)" using t r(2) by (simp add: file_rep_def)
  ultimately show ?thesis using reads_Open [OF o] t(1) r(2) by (auto simp: same_file_def)
qed

text \<open>All versions of the key are readable: what a reader at the last sequence number sees.\<close>

definition all_readable :: "bytes \<Rightarrow> SequenceNumber \<Rightarrow> MemtableEntry set \<Rightarrow> bool" where
  "all_readable key seq E \<longleftrightarrow> (\<forall>e \<in> E. e_key e = key \<longrightarrow> readable key seq e)"

lemma get_in_file_ok:
  assumes f: "file_rep tabs dbname (snd env) f" and e: "env_ok tabs env" and vis: "all_readable key seq (set (file_entries tabs f))"
  shows "\<exists>f' env'. get_in_file options dbname key seq f env = Some (found_result (find (readable key seq) (file_entries tabs f)), f', env')
    \<and> env_ok tabs env' \<and> reads (snd env) (snd env') \<and> same_file f f' \<and> file_rep tabs dbname (snd env') f'"
proof -
  obtain c w where env: "env = (c, w)" by fastforce
  obtain r f' w' t where o: "open_reader options dbname f w = (Inr r, f', w')" "reads w w'" "same_file f f'" "file_rep tabs dbname w' f'"
      "tabs (fm_number f) = Some t" "reader_rep r (fm_number f) t"
    using open_reader_ok [of tabs dbname w f c options] f e by (auto simp: env)
  have e': "env_ok tabs (c, w')" using e o(2) env_ok_reads by (simp add: env)
  have t: "file_entries tabs f = tf_entries t" by (simp add: file_entries_def o(5))
  have fits: "table_fits t" using e' o(5) by (auto simp: env_ok_def)
  obtain env' where g: "Table_Get key seq r (c, w') = Some (found_result (find (readable key seq) (tf_entries t)), env')" "env_ok tabs env'"
    using Table_Get_chunk [OF e' o(5,6), of key seq] find_in_chunk [OF fits, of key seq] vis unfolding t all_readable_def by auto
  have r: "reads w' (snd env')" using reads_Table_Get [OF g(1)] by simp
  have "get_in_file options dbname key seq f env = Some (found_result (find (readable key seq) (file_entries tabs f)), f', env')"
    by (simp add: get_in_file_def env o(1) g(1) t)
  moreover have "reads (snd env) (snd env')" using reads_trans [OF o(2) r] by (simp add: env)
  ultimately show ?thesis using g(2) o(3) file_rep_reads [OF o(4) r] by blast
qed

definition files_rep :: "tables \<Rightarrow> string \<Rightarrow> World \<Rightarrow> FileMetaData list \<Rightarrow> bool" where
  "files_rep tabs dbname w fs \<longleftrightarrow> (\<forall>f \<in> set fs. file_rep tabs dbname w f)"

abbreviation files_entries :: "tables \<Rightarrow> FileMetaData list \<Rightarrow> MemtableEntry list" where
  "files_entries tabs fs \<equiv> concat (map (file_entries tabs) fs)"

lemma files_rep_simps [simp]:
  "files_rep tabs dbname w []" "files_rep tabs dbname w (f # fs) \<longleftrightarrow> file_rep tabs dbname w f \<and> files_rep tabs dbname w fs"
  by (auto simp: files_rep_def)

lemma files_rep_reads: "files_rep tabs dbname w fs \<Longrightarrow> reads w w' \<Longrightarrow> files_rep tabs dbname w' fs"
  using file_rep_reads by (auto simp: files_rep_def)

lemma same_files_entries: "list_all2 same_file fs fs' \<Longrightarrow> files_entries tabs fs' = files_entries tabs fs"
  by (induction rule: list_all2_induct) (simp_all add: same_file_entries)

lemma file_rep_range:
  assumes "file_rep tabs dbname w f" and "key < fm_smallest_key f \<or> key > fm_largest_key f"
  shows "find (readable key seq) (file_entries tabs f) = None"
  using assms by (intro find_none) (fastforce simp: file_rep_def file_entries_def readable_def)

lemma found_result_None_iff [simp]: "found_result r = None \<longleftrightarrow> r = None"
  by (simp add: found_result_def split: option.split)

lemma all_readable_Un [simp]: "all_readable key seq (A \<union> B) \<longleftrightarrow> all_readable key seq A \<and> all_readable key seq B"
  by (auto simp: all_readable_def)

lemma get_level0_ok:
  assumes "files_rep tabs dbname (snd env) fs" and "env_ok tabs env" and "all_readable key seq (set (files_entries tabs fs))"
  shows "\<exists>fs' env'. get_level0 options dbname key seq fs env = Some (found_result (find (readable key seq) (files_entries tabs fs)), fs', env')
    \<and> env_ok tabs env' \<and> reads (snd env) (snd env') \<and> list_all2 same_file fs fs' \<and> files_rep tabs dbname (snd env') fs'"
  using assms
proof (induction fs arbitrary: env)
  case (Cons f fs)
  have prem: "file_rep tabs dbname (snd env) f" "files_rep tabs dbname (snd env) fs"
      "all_readable key seq (set (file_entries tabs f))" "all_readable key seq (set (files_entries tabs fs))"
    using Cons.prems(1,3) by simp_all
  show ?case
  proof (cases "key < fm_smallest_key f \<or> key > fm_largest_key f")
    case True
    obtain fs' env' where r: "get_level0 options dbname key seq fs env = Some (found_result (find (readable key seq) (files_entries tabs fs)), fs', env')"
        "env_ok tabs env'" "reads (snd env) (snd env')" "list_all2 same_file fs fs'" "files_rep tabs dbname (snd env') fs'"
      using Cons.IH [OF prem(2) Cons.prems(2) prem(4)] by blast
    have "get_level0 options dbname key seq (f # fs) env = Some (found_result (find (readable key seq) (files_entries tabs (f # fs))), f # fs', env')"
      using True r(1) file_rep_range [OF prem(1) True] by (simp add: find_append)
    then show ?thesis using r(2-5) file_rep_reads [OF prem(1) r(3)] by (intro exI [of _ "f # fs'"] exI [of _ env']) simp
  next
    case False
    obtain f' env1 where g: "get_in_file options dbname key seq f env = Some (found_result (find (readable key seq) (file_entries tabs f)), f', env1)"
        "env_ok tabs env1" "reads (snd env) (snd env1)" "same_file f f'" "file_rep tabs dbname (snd env1) f'"
      using get_in_file_ok [OF prem(1) Cons.prems(2) prem(3)] by blast
    have fs1: "files_rep tabs dbname (snd env1) fs" using files_rep_reads [OF prem(2) g(3)] .
    show ?thesis
    proof (cases "find (readable key seq) (file_entries tabs f)")
      case None
      obtain fs' env' where r: "get_level0 options dbname key seq fs env1 = Some (found_result (find (readable key seq) (files_entries tabs fs)), fs', env')"
          "env_ok tabs env'" "reads (snd env1) (snd env')" "list_all2 same_file fs fs'" "files_rep tabs dbname (snd env') fs'"
        using Cons.IH [OF fs1 g(2) prem(4)] by blast
      have "get_level0 options dbname key seq (f # fs) env = Some (found_result (find (readable key seq) (files_entries tabs (f # fs))), f' # fs', env')"
        using False r(1) g(1) None by (simp add: find_append)
      then show ?thesis
        using r(2,4,5) g(4) reads_trans [OF g(3) r(3)] file_rep_reads [OF g(5) r(3)] by (intro exI [of _ "f' # fs'"] exI [of _ env']) simp
    next
      case (Some x)
      have "get_level0 options dbname key seq (f # fs) env = Some (found_result (find (readable key seq) (files_entries tabs (f # fs))), f' # fs, env1)"
        using False g(1) Some by (simp add: find_append found_result_def)
      then show ?thesis
        using g(2-5) fs1 by (intro exI [of _ "f' # fs"] exI [of _ env1]) (simp add: list_all2_refl)
    qed
  qed
qed simp

text \<open>Deeper levels: the ranges of the files are disjoint and ascending.\<close>

definition level_sorted :: "FileMetaData list \<Rightarrow> bool" where
  "level_sorted fs \<longleftrightarrow> sorted_wrt (\<lambda>a b. fm_largest_key a < fm_smallest_key b) fs
     \<and> (\<forall>f \<in> set fs. fm_smallest_key f \<le> fm_largest_key f)"

definition covers :: "FileMetaData \<Rightarrow> bytes \<Rightarrow> bool" where
  "covers f key \<longleftrightarrow> fm_smallest_key f \<le> key \<and> key \<le> fm_largest_key f"

lemma level_sorted_before:
  assumes "level_sorted fs" and "i < j" and "j < length fs"
  shows "fm_largest_key (fs ! i) < fm_smallest_key (fs ! j)"
  using assms sorted_wrt_nth_less [of _ fs i j] by (auto simp: level_sorted_def)

lemma level_sorted_one:
  assumes "level_sorted fs" and "i < length fs" and "j < length fs" and "covers (fs ! i) key" and "covers (fs ! j) key"
  shows "i = j"
proof (rule ccontr)
  assume "i \<noteq> j"
  then consider "i < j" | "j < i" by linarith
  then show False
    using level_sorted_before [OF assms(1), of i j] level_sorted_before [OF assms(1), of j i] assms(2-5)
    by cases (auto simp: covers_def dest: order_le_less_trans order_less_le_trans)
qed

lemma find_candidate_ok:
  assumes s: "level_sorted fs" and "0 \<le> left" and "right < int (length fs)"
    and "\<forall>i < length fs. covers (fs ! i) key \<longrightarrow> left \<le> int i \<and> int i \<le> right"
  shows "case find_candidate key fs left right of
      None \<Rightarrow> \<forall>i < length fs. \<not> covers (fs ! i) key
    | Some c \<Rightarrow> 0 \<le> c \<and> nat c < length fs \<and> covers (fs ! nat c) key"
  using assms
proof (induction key fs left right rule: find_candidate.induct)
  case (1 key fs left right)
  note s = 1(3)
  show ?case
  proof (cases "left \<le> right")
    case False
    then show ?thesis using 1(6) by (simp add: find_candidate.simps [of _ _ left]) (meson order_trans)
  next
    case True
    define mid where "mid = left + (right - left) div 2"
    let ?f = "fs ! nat mid"
    have mid: "left \<le> mid" "mid \<le> right" "nat mid < length fs" using True 1(4,5) unfolding mid_def by auto
    have ord: "fm_smallest_key ?f \<le> fm_largest_key ?f" using s mid(3) by (simp add: level_sorted_def)
    consider (right) "fm_largest_key ?f < key" | (left) "\<not> fm_largest_key ?f < key" "fm_smallest_key ?f > key"
      | (here) "\<not> fm_largest_key ?f < key" "\<not> fm_smallest_key ?f > key" by blast
    then show ?thesis
    proof cases
      case right
      have "mid + 1 \<le> int i \<and> int i \<le> right" if "i < length fs" "covers (fs ! i) key" for i
      proof -
        have "\<not> i < nat mid" using level_sorted_before [OF s, of i "nat mid"] mid(3) that(2) right ord by (auto simp: covers_def)
        moreover have "i \<noteq> nat mid" using that(2) right by (auto simp: covers_def)
        ultimately show ?thesis using that 1(6) by auto
      qed
      moreover have "find_candidate key fs left right = find_candidate key fs (mid + 1) right"
        using True right by (simp add: find_candidate.simps [of _ _ left] Let_def mid_def)
      ultimately show ?thesis
        using 1(1) [OF True mid_def refl right s] 1(4,5) mid(1) by simp
    next
      case left
      have "left \<le> int i \<and> int i \<le> mid - 1" if "i < length fs" "covers (fs ! i) key" for i
      proof -
        have "\<not> nat mid < i" using level_sorted_before [OF s, of "nat mid" i] that left ord by (auto simp: covers_def)
        moreover have "i \<noteq> nat mid" using that(2) left by (auto simp: covers_def)
        ultimately show ?thesis using that 1(6) by auto
      qed
      moreover have "find_candidate key fs left right = find_candidate key fs left (mid - 1)"
        using True left by (simp add: find_candidate.simps [of _ _ left] Let_def mid_def)
      ultimately show ?thesis
        using 1(2) [OF True mid_def refl left s] 1(4,5) mid(2) by simp
    next
      case here
      then have "find_candidate key fs left right = Some mid"
        using True by (simp add: find_candidate.simps [of _ _ left] Let_def mid_def)
      then show ?thesis using here mid 1(4) by (simp add: covers_def not_less)
    qed
  qed
qed

lemma find_concat_one:
  assumes "i < length xss" and "\<forall>j < length xss. j \<noteq> i \<longrightarrow> find P (xss ! j) = None"
  shows "find P (concat xss) = find P (xss ! i)"
  using assms
proof (induction xss arbitrary: i)
  case (Cons xs xss)
  show ?case
  proof (cases i)
    case 0
    then have "\<forall>j < length xss. find P (xss ! j) = None" using Cons.prems(2) by auto
    then have "find P (concat xss) = None" by (fastforce simp: find_None_iff in_set_conv_nth)
    then show ?thesis using 0 by (simp add: find_append split: option.split)
  next
    case (Suc k)
    have "find P xs = None" using Cons.prems(2) Suc by (metis length_Cons nat.distinct(1) nth_Cons_0 zero_less_Suc)
    moreover have "find P (concat xss) = find P (xss ! k)"
      using Cons.prems Suc by (intro Cons.IH) auto
    ultimately show ?thesis using Suc by (simp add: find_append)
  qed
qed simp

lemma find_concat_none: "\<forall>xs \<in> set xss. find P xs = None \<Longrightarrow> find P (concat xss) = None"
  by (induction xss) (simp_all add: find_append)

lemma get_level_ok:
  assumes "files_rep tabs dbname (snd env) fs" and "env_ok tabs env" and "all_readable key seq (set (files_entries tabs fs))"
    and s: "level_sorted fs"
  shows "\<exists>fs' env'. get_level options dbname key seq fs env = Some (found_result (find (readable key seq) (files_entries tabs fs)), fs', env')
    \<and> env_ok tabs env' \<and> reads (snd env) (snd env') \<and> list_all2 same_file fs fs' \<and> files_rep tabs dbname (snd env') fs'"
proof -
  have none: "find (readable key seq) (file_entries tabs (fs ! i)) = None" if "i < length fs" "\<not> covers (fs ! i) key" for i
  proof -
    have "file_rep tabs dbname (snd env) (fs ! i)" using assms(1) that(1) by (simp add: files_rep_def)
    then show ?thesis using that(2) by (intro file_rep_range) (auto simp: covers_def not_le)
  qed
  have c: "case find_candidate key fs 0 (int (length fs) - 1) of
      None \<Rightarrow> \<forall>i < length fs. \<not> covers (fs ! i) key
    | Some c \<Rightarrow> 0 \<le> c \<and> nat c < length fs \<and> covers (fs ! nat c) key"
    by (rule find_candidate_ok [OF s]) auto
  show ?thesis
  proof (cases "find_candidate key fs 0 (int (length fs) - 1)")
    case None
    then have "find (readable key seq) (files_entries tabs fs) = None"
      using c none by (intro find_concat_none) (auto simp: in_set_conv_nth)
    then have "get_level options dbname key seq fs env = Some (found_result (find (readable key seq) (files_entries tabs fs)), fs, env)"
      using None by (simp add: get_level_def)
    then show ?thesis using assms(1,2) by (intro exI [of _ fs] exI [of _ env]) (simp add: list_all2_refl)
  next
    case (Some n)
    let ?i = "nat n"
    have i: "?i < length fs" "covers (fs ! ?i) key" using c Some by auto
    have "find (readable key seq) (map (file_entries tabs) fs ! j) = None" if "j < length fs" "j \<noteq> ?i" for j
      using none [OF that(1)] level_sorted_one [OF s that(1) i(1) _ i(2)] that by auto
    then have eq: "find (readable key seq) (files_entries tabs fs) = find (readable key seq) (file_entries tabs (fs ! ?i))"
      using find_concat_one [of ?i "map (file_entries tabs) fs" "readable key seq"] i(1) by simp
    have "all_readable key seq (set (file_entries tabs (fs ! ?i)))" using assms(3) i(1) by (auto simp: all_readable_def)
    moreover have "file_rep tabs dbname (snd env) (fs ! ?i)" using assms(1) i(1) by (simp add: files_rep_def)
    ultimately obtain f' env' where g: "get_in_file options dbname key seq (fs ! ?i) env = Some (found_result (find (readable key seq) (file_entries tabs (fs ! ?i))), f', env')"
        "env_ok tabs env'" "reads (snd env) (snd env')" "same_file (fs ! ?i) f'" "file_rep tabs dbname (snd env') f'"
      using get_in_file_ok assms(2) by blast
    have "get_level options dbname key seq fs env = Some (found_result (find (readable key seq) (files_entries tabs fs)), fs[?i := f'], env')"
      using Some g(1) i(1) by (auto simp: get_level_def eq)
    moreover have "list_all2 same_file fs (fs[?i := f'])" using g(4) i(1) by (auto simp: list_all2_conv_all_nth nth_list_update)
    moreover have "files_rep tabs dbname (snd env') (fs[?i := f'])"
      using files_rep_reads [OF assms(1) g(3)] g(5) set_update_subset_insert [of fs ?i f'] by (auto simp: files_rep_def)
    ultimately show ?thesis using g(2,3) by blast
  qed
qed

text \<open>A version over the tables: files of level 0 in any overlap, deeper levels sorted and disjoint.\<close>

definition version_rep :: "tables \<Rightarrow> World \<Rightarrow> Version \<Rightarrow> bool" where
  "version_rep tabs w v \<longleftrightarrow> (\<forall>level. files_rep tabs (v_dbname v) w (v_files v level))
     \<and> (\<forall>level \<ge> 1. level_sorted (v_files v level))"

definition levels_entries :: "tables \<Rightarrow> Version \<Rightarrow> nat list \<Rightarrow> MemtableEntry list" where
  "levels_entries tabs v levels = concat (map (\<lambda>level. files_entries tabs (v_files v level)) levels)"

abbreviation version_entries :: "tables \<Rightarrow> Version \<Rightarrow> MemtableEntry list" where
  "version_entries tabs v \<equiv> levels_entries tabs v [0..<kNumLevels]"

text \<open>The same files, perhaps with more of them opened.\<close>

definition same_version :: "Version \<Rightarrow> Version \<Rightarrow> bool" where
  "same_version v v' \<longleftrightarrow> v_dbname v' = v_dbname v \<and> (\<forall>level. list_all2 same_file (v_files v level) (v_files v' level))"

lemma same_file_trans: "same_file f g \<Longrightarrow> same_file g h \<Longrightarrow> same_file f h"
  by (simp add: same_file_def)

lemma same_version_refl [simp]: "same_version v v"
  by (simp add: same_version_def list_all2_refl)

lemma same_version_trans: "same_version u v \<Longrightarrow> same_version v w \<Longrightarrow> same_version u w"
  by (auto simp: same_version_def intro: list_all2_trans [of same_file same_file same_file, OF same_file_trans])

lemma same_version_entries: "same_version v v' \<Longrightarrow> levels_entries tabs v' levels = levels_entries tabs v levels"
proof -
  assume "same_version v v'"
  then have "files_entries tabs (v_files v' l) = files_entries tabs (v_files v l)" for l
    by (intro same_files_entries) (simp add: same_version_def)
  then show ?thesis by (simp add: levels_entries_def)
qed

lemma same_version_files:
  assumes "same_version v v'"
  shows "list_all2 same_file (concat (map (v_files v) levels)) (concat (map (v_files v') levels))"
proof (induction levels)
  case (Cons level levels)
  moreover have "list_all2 same_file (v_files v level) (v_files v' level)" using assms by (simp add: same_version_def)
  ultimately show ?case by (simp add: list_all2_appendI)
qed simp

lemma level_sorted_same:
  assumes "list_all2 same_file fs fs'" and "level_sorted fs"
  shows "level_sorted fs'"
proof -
  have "sorted_wrt (\<lambda>a b. fm_largest_key a < fm_smallest_key b) fs'"
    using assms by (auto simp: level_sorted_def sorted_wrt_iff_nth_less list_all2_conv_all_nth same_file_def)
  moreover have "\<forall>f \<in> set fs'. fm_smallest_key f \<le> fm_largest_key f"
    using assms by (fastforce simp: level_sorted_def list_all2_conv_all_nth same_file_def in_set_conv_nth)
  ultimately show ?thesis by (simp add: level_sorted_def)
qed

lemma version_rep_update:
  assumes "version_rep tabs w v" and "reads w w'" and "list_all2 same_file (v_files v level) fs" and "files_rep tabs (v_dbname v) w' fs"
  shows "version_rep tabs w' (v\<lparr>v_files := (v_files v)(level := fs)\<rparr>)" "same_version v (v\<lparr>v_files := (v_files v)(level := fs)\<rparr>)"
  using assms files_rep_reads [OF _ assms(2)] level_sorted_same [OF assms(3)]
  by (auto simp: version_rep_def same_version_def list_all2_refl)

lemma get_levels_ok:
  assumes "version_rep tabs (snd env) v" and "env_ok tabs env" and "all_readable key seq (set (levels_entries tabs v levels))"
    and "0 \<notin> set levels"
  shows "\<exists>v' env'. get_levels options key seq levels v env = Some (found_result (find (readable key seq) (levels_entries tabs v levels)), v', env')
    \<and> env_ok tabs env' \<and> reads (snd env) (snd env') \<and> same_version v v' \<and> version_rep tabs (snd env') v'"
  using assms
proof (induction levels arbitrary: v env)
  case Nil
  then show ?case by (auto simp: levels_entries_def)
next
  case (Cons level levels)
  let ?fs = "v_files v level"
  have p: "files_rep tabs (v_dbname v) (snd env) ?fs" "level_sorted ?fs" "all_readable key seq (set (files_entries tabs ?fs))"
      "all_readable key seq (set (levels_entries tabs v levels))"
    using Cons.prems by (auto simp: version_rep_def levels_entries_def all_readable_def)
  obtain fs env1 where g: "get_level options (v_dbname v) key seq ?fs env = Some (found_result (find (readable key seq) (files_entries tabs ?fs)), fs, env1)"
      "env_ok tabs env1" "reads (snd env) (snd env1)" "list_all2 same_file ?fs fs" "files_rep tabs (v_dbname v) (snd env1) fs"
    using get_level_ok [OF p(1) Cons.prems(2) p(3,2)] by blast
  let ?v = "v\<lparr>v_files := (v_files v)(level := fs)\<rparr>"
  note v = version_rep_update [OF Cons.prems(1) g(3,4,5)]
  show ?case
  proof (cases "find (readable key seq) (files_entries tabs ?fs)")
    case None
    have z: "0 \<notin> set levels" using Cons.prems(4) by simp
    have "all_readable key seq (set (levels_entries tabs ?v levels))" using p(4) same_version_entries [OF v(2)] by simp
    then obtain v' env' where r: "get_levels options key seq levels ?v env1 = Some (found_result (find (readable key seq) (levels_entries tabs ?v levels)), v', env')"
        "env_ok tabs env'" "reads (snd env1) (snd env')" "same_version ?v v'" "version_rep tabs (snd env') v'"
      using Cons.IH [OF v(1) g(2) _ z] by blast
    have "get_levels options key seq (level # levels) v env = Some (found_result (find (readable key seq) (levels_entries tabs v (level # levels))), v', env')"
      using g(1) r(1) None same_version_entries [OF v(2), of tabs levels] by (simp add: levels_entries_def find_append)
    then show ?thesis using r(2,5) reads_trans [OF g(3) r(3)] same_version_trans [OF v(2) r(4)] by blast
  next
    case (Some x)
    have "get_levels options key seq (level # levels) v env = Some (found_result (find (readable key seq) (levels_entries tabs v (level # levels))), ?v, env1)"
      using g(1) Some by (simp add: levels_entries_def find_append found_result_def)
    then show ?thesis using g(2,3) v by blast
  qed
qed

lemma kNumLevels_upt: "[0..<kNumLevels] = 0 # [1..<kNumLevels]"
  by (simp add: kNumLevels_def upt_conv_Cons)

lemma Version_Get_ok:
  assumes "version_rep tabs (snd env) v" and "env_ok tabs env" and "all_readable key seq (set (version_entries tabs v))"
  shows "\<exists>v' env'. Version_Get options key seq v env = Some (found_result (find (readable key seq) (version_entries tabs v)), v', env')
    \<and> env_ok tabs env' \<and> reads (snd env) (snd env') \<and> same_version v v' \<and> version_rep tabs (snd env') v'"
proof -
  let ?fs = "v_files v 0"
  have p: "files_rep tabs (v_dbname v) (snd env) ?fs" "all_readable key seq (set (files_entries tabs ?fs))"
      "all_readable key seq (set (levels_entries tabs v [1..<kNumLevels]))"
    using assms by (auto simp: version_rep_def levels_entries_def all_readable_def kNumLevels_upt)
  obtain fs env1 where g: "get_level0 options (v_dbname v) key seq ?fs env = Some (found_result (find (readable key seq) (files_entries tabs ?fs)), fs, env1)"
      "env_ok tabs env1" "reads (snd env) (snd env1)" "list_all2 same_file ?fs fs" "files_rep tabs (v_dbname v) (snd env1) fs"
    using get_level0_ok [OF p(1) assms(2) p(2)] by blast
  let ?v = "v\<lparr>v_files := (v_files v)(0 := fs)\<rparr>"
  note v = version_rep_update [OF assms(1) g(3,4,5)]
  show ?thesis
  proof (cases "find (readable key seq) (files_entries tabs ?fs)")
    case None
    have z: "0 \<notin> set [1..<kNumLevels]" by simp
    have "all_readable key seq (set (levels_entries tabs ?v [1..<kNumLevels]))" using p(3) same_version_entries [OF v(2)] by simp
    then obtain v' env' where r: "get_levels options key seq [1..<kNumLevels] ?v env1 =
          Some (found_result (find (readable key seq) (levels_entries tabs ?v [1..<kNumLevels])), v', env')"
        "env_ok tabs env'" "reads (snd env1) (snd env')" "same_version ?v v'" "version_rep tabs (snd env') v'"
      using get_levels_ok [OF v(1) g(2) _ z] by blast
    have "Version_Get options key seq v env = Some (found_result (find (readable key seq) (version_entries tabs v)), v', env')"
      using g(1) r(1) None same_version_entries [OF v(2), of tabs "[1..<kNumLevels]"]
      by (simp add: Version_Get_def kNumLevels_upt levels_entries_def find_append)
    then show ?thesis using r(2,5) reads_trans [OF g(3) r(3)] same_version_trans [OF v(2) r(4)] by blast
  next
    case (Some x)
    have "Version_Get options key seq v env = Some (found_result (find (readable key seq) (version_entries tabs v)), ?v, env1)"
      using g(1) Some by (simp add: Version_Get_def kNumLevels_upt levels_entries_def find_append found_result_def)
    then show ?thesis using g(2,3) v by blast
  qed
qed

text \<open>Iterators over all files.\<close>

lemma add_file_iterators_ok:
  assumes "files_rep tabs dbname w fs" and "env_ok tabs (c, w)"
  shows "\<exists>its fs' w'. add_file_iterators options dbname fs w = (its, fs', w') \<and> reads w w' \<and> list_all2 same_file fs fs'
    \<and> files_rep tabs dbname w' fs' \<and> list_all2 (\<lambda>it f. tl_at tabs it (file_entries tabs f) (length (file_entries tabs f))) its fs"
  using assms
proof (induction fs arbitrary: w)
  case (Cons f fs)
  obtain r f' w1 t where o: "open_reader options dbname f w = (Inr r, f', w1)" "reads w w1" "same_file f f'" "file_rep tabs dbname w1 f'"
      "tabs (fm_number f) = Some t" "reader_rep r (fm_number f) t"
    using open_reader_ok [of tabs dbname w f c options] Cons.prems by auto
  have e1: "env_ok tabs (c, w1)" using env_ok_reads [OF Cons.prems(2) o(2)] .
  obtain its fs' w' where r: "add_file_iterators options dbname fs w1 = (its, fs', w')" "reads w1 w'" "list_all2 same_file fs fs'"
      "files_rep tabs dbname w' fs'" "list_all2 (\<lambda>it f. tl_at tabs it (file_entries tabs f) (length (file_entries tabs f))) its fs"
    using Cons.IH [of w1] files_rep_reads [OF _ o(2)] Cons.prems(1) e1 by auto
  have "table_fits t" using e1 o(5) by (auto simp: env_ok_def)
  then have "tl_at tabs (TwoLevelIterator_new r) (file_entries tabs f) (length (file_entries tabs f))"
    using tl_at_new [of tabs _ t r, OF o(5,6)] by (simp add: file_entries_def o(5))
  then show ?case using o r reads_trans [OF o(2) r(2)] file_rep_reads [OF o(4) r(2)] by simp
qed simp

lemma add_level_iterators_ok:
  assumes "version_rep tabs w v" and "env_ok tabs (c, w)"
  shows "\<exists>its v' w'. add_level_iterators options levels v w = (its, v', w') \<and> reads w w' \<and> same_version v v' \<and> version_rep tabs w' v'
    \<and> list_all2 (\<lambda>it f. tl_at tabs it (file_entries tabs f) (length (file_entries tabs f))) its (concat (map (v_files v) levels))"
  using assms
proof (induction levels arbitrary: v w)
  case (Cons level levels)
  have "files_rep tabs (v_dbname v) w (v_files v level)" using Cons.prems(1) by (simp add: version_rep_def)
  then obtain its fs w1 where a: "add_file_iterators options (v_dbname v) (v_files v level) w = (its, fs, w1)" "reads w w1"
      "list_all2 same_file (v_files v level) fs" "files_rep tabs (v_dbname v) w1 fs"
      "list_all2 (\<lambda>it f. tl_at tabs it (file_entries tabs f) (length (file_entries tabs f))) its (v_files v level)"
    using add_file_iterators_ok [OF _ Cons.prems(2)] by blast
  let ?v = "v\<lparr>v_files := (v_files v)(level := fs)\<rparr>"
  note v = version_rep_update [OF Cons.prems(1) a(2,3,4)]
  obtain its' v' w' where r: "add_level_iterators options levels ?v w1 = (its', v', w')" "reads w1 w'" "same_version ?v v'" "version_rep tabs w' v'"
      "list_all2 (\<lambda>it f. tl_at tabs it (file_entries tabs f) (length (file_entries tabs f))) its' (concat (map (v_files ?v) levels))"
    using Cons.IH [OF v(1) env_ok_reads [OF Cons.prems(2) a(2)]] by blast
  have same: "list_all2 same_file (concat (map (v_files v) levels)) (concat (map (v_files ?v) levels))"
    using v(2) by (rule same_version_files)
  have "list_all2 (\<lambda>it f. tl_at tabs it (file_entries tabs f) (length (file_entries tabs f))) its' (concat (map (v_files v) levels))"
  proof (rule list_all2_all_nthI)
    show "length its' = length (concat (map (v_files v) levels))"
      using list_all2_lengthD [OF r(5)] list_all2_lengthD [OF same] by (simp only:)
    fix n assume n: "n < length its'"
    let ?f = "concat (map (v_files v) levels) ! n" and ?f' = "concat (map (v_files ?v) levels) ! n"
    have "tl_at tabs (its' ! n) (file_entries tabs ?f') (length (file_entries tabs ?f'))" using list_all2_nthD [OF r(5) n] .
    moreover have "same_file ?f ?f'" using list_all2_nthD2 [OF same] n list_all2_lengthD [OF r(5)] by (simp only:)
    ultimately show "tl_at tabs (its' ! n) (file_entries tabs ?f) (length (file_entries tabs ?f))" by (simp only: same_file_entries)
  qed
  then show ?case
    using a(1,5) r(1,4) reads_trans [OF a(2) r(2)] same_version_trans [OF v(2) r(3)] by (simp add: list_all2_appendI)
qed simp

section \<open>Newest version first\<close>

text \<open>Sources in search order: what an earlier one holds of a key is at least as new as what a later
  one holds.\<close>

definition newer_first :: "MemtableEntry list list \<Rightarrow> bool" where
  "newer_first ess \<longleftrightarrow> sorted_wrt (\<lambda>xs ys. \<forall>x \<in> set xs. \<forall>y \<in> set ys. e_key x = e_key y \<longrightarrow> e_seq y \<le> e_seq x) ess"

lemma newest_concat:
  assumes "newer_first ess" and "\<forall>es \<in> set ess. sorted_entries es"
  shows "newest key seq (set (concat ess)) (find (readable key seq) (concat ess))"
  using assms
proof (induction ess)
  case Nil
  then show ?case by (simp add: newest_simps)
next
  case (Cons es ess)
  have 1: "newest key seq (set es) (find (readable key seq) es)" using Cons.prems(2) by (intro newest_find) simp
  have 2: "newest key seq (set (concat ess)) (find (readable key seq) (concat ess))"
    using Cons by (simp add: newer_first_def)
  show ?case
  proof (cases "find (readable key seq) es")
    case None
    then have "\<forall>e \<in> set es. \<not> readable key seq e" using 1 by (simp add: newest_simps)
    with None 2 show ?thesis
      by (cases "find (readable key seq) (concat ess)") (auto simp: find_append newest_simps)
  next
    case (Some e)
    have "e_seq e' \<le> e_seq e" if "e' \<in> set (concat ess)" "readable key seq e'" for e'
      using Cons.prems(1) that 1 Some by (auto simp: newer_first_def newest_simps readable_def)
    then show ?thesis using 1 Some by (auto simp: find_append newest_simps)
  qed
qed

definition version_sources :: "tables \<Rightarrow> Version \<Rightarrow> MemtableEntry list list" where
  "version_sources tabs v = map (file_entries tabs) (concat (map (v_files v) [0..<kNumLevels]))"

lemma concat_version_sources: "concat (version_sources tabs v) = version_entries tabs v"
proof -
  have "concat (map (file_entries tabs) (concat (map (v_files v) levels))) = levels_entries tabs v levels" for levels
    by (induction levels) (simp_all add: levels_entries_def)
  then show ?thesis by (simp add: version_sources_def)
qed

lemma version_sources_sorted: "version_rep tabs w v \<Longrightarrow> \<forall>es \<in> set (version_sources tabs v). sorted_entries es"
proof -
  assume v: "version_rep tabs w v"
  have "sorted_entries (file_entries tabs f)" if "f \<in> set (v_files v level)" for f level
  proof -
    have "file_rep tabs (v_dbname v) w f" using v that by (simp add: version_rep_def files_rep_def)
    then show ?thesis by (auto simp: file_rep_def file_entries_def)
  qed
  then show ?thesis by (auto simp: version_sources_def)
qed

section \<open>Properties\<close>

text \<open>C32: A lookup in a version returns the newest version of the key over the files of all levels, provided
  the levels are in order and the reader sees every version of the key: the files of level 0 are
  searched from the newest to the oldest, the binary search finds the one file of a deeper level that
  can hold the key, files are opened on demand, and no other file can hide or resurrect a version.\<close>

theorem version_get_newest:
  assumes "version_rep tabs (snd env) v" and "env_ok tabs env" and "all_readable key seq (set (version_entries tabs v))"
    and "newer_first (version_sources tabs v)"
  shows "\<exists>r v' env'. Version_Get options key seq v env = Some (found_result r, v', env')
    \<and> newest key seq (set (version_entries tabs v)) r \<and> same_version v v' \<and> version_rep tabs (snd env') v'"
  using Version_Get_ok [OF assms(1-3), of options]
    newest_concat [OF assms(4) version_sources_sorted [OF assms(1)], of key seq] unfolding concat_version_sources by blast

definition sample_version :: "SSTableReader \<Rightarrow> Version" where
  "sample_version r = (Version_new ''db'')\<lparr>v_files := (\<lambda>_. [])(0 :=
     [\<lparr>fm_number = 1, fm_file_size = of_nat (length (tf_bytes split_table)), fm_smallest_key = [97], fm_largest_key = [97], fm_reader = Some r\<rparr>])\<rparr>"

lemma sample_version_ok:
  assumes "reader_rep r 1 split_table"
  shows "version_rep [1 \<mapsto> split_table] w (sample_version r)"
    and "version_sources [1 \<mapsto> split_table] (sample_version r) = [tf_entries split_table]"
proof -
  show "version_rep [1 \<mapsto> split_table] w (sample_version r)"
    using assms by (simp add: version_rep_def sample_version_def Version_new_def file_rep_def split_entries ikey_less_def level_sorted_def)
  show "version_sources [1 \<mapsto> split_table] (sample_version r) = [tf_entries split_table]"
    by (simp add: version_sources_def sample_version_def Version_new_def file_entries_def kNumLevels_def upt_conv_Cons)
qed

theorem version_get_newest_witness:
  "\<exists>v env r v' env'. Version_Get default_options [97] 9 v env = Some (found_result r, v', env')
     \<and> r = Some \<lparr>e_key = [97], e_seq = 9, e_type = 1, e_value = []\<rparr>"
proof -
  obtain r env where e: "env_ok [1 \<mapsto> split_table] env" "reader_rep r 1 split_table" by (rule that [OF split_env])
  let ?v = "sample_version r"
  have s: "version_rep [1 \<mapsto> split_table] (snd env) ?v" "version_sources [1 \<mapsto> split_table] ?v = [tf_entries split_table]"
    using e(2) by (rule sample_version_ok)+
  have entries: "version_entries [1 \<mapsto> split_table] ?v = tf_entries split_table"
    using concat_version_sources [of "[1 \<mapsto> split_table]" ?v] s(2) by simp
  have "all_readable [97] 9 (set (version_entries [1 \<mapsto> split_table] ?v))"
    by (simp add: entries split_entries all_readable_def readable_def kTypeValue_def)
  moreover have "newer_first (version_sources [1 \<mapsto> split_table] ?v)" by (simp add: s(2) newer_first_def)
  ultimately obtain x v' env' where g: "Version_Get default_options [97] 9 ?v env = Some (found_result x, v', env')"
      "newest [97] 9 (set (tf_entries split_table)) x"
    using version_get_newest [OF s(1) e(1), of "[97]" 9 default_options] unfolding entries by blast
  have "x = Some \<lparr>e_key = [97], e_seq = 9, e_type = 1, e_value = []\<rparr>"
    using g(2) by (cases x) (auto simp: newest_simps split_entries readable_def kTypeValue_def)
  then show ?thesis using g(1) by blast
qed

end
