(* ===== verification/Version_Set.thy ===== *)
theory Version_Set
  imports Version Wal
begin

text \<open>
  The set of versions and the manifest (src/version_set.h, src/version_set.cc).  \<open>LogAndApply\<close>
  builds the next version, writes the edit to the manifest and installs the version;
  \<open>VersionSet_Recover\<close> replays the manifest that \<^verbatim>\<open>CURRENT\<close> names.  The lemmas show that a replay
  of what was logged gives back the files and counters that were installed.

  An index outside the array of levels and a failed assertion are \<open>None\<close>.  \<^verbatim>\<open>std::sort\<close> is modelled by
  a stable sort; on the distinct file numbers and key ranges that the engine sorts, every sorting
  function gives the same list.
\<close>

record VersionSet =
  vs_dbname :: string
  vs_options :: "Options option"
  vs_current :: Version
  vs_next_file_number :: u64
  vs_manifest_file_number :: u64
  vs_last_sequence :: u64
  vs_log_number :: u64
  vs_descriptor_log :: "WalWriter option"

definition VersionSet_new :: "string \<Rightarrow> Options option \<Rightarrow> VersionSet" where
  "VersionSet_new dbname options =
     \<lparr>vs_dbname = dbname, vs_options = options, vs_current = Version_new dbname, vs_next_file_number = 2,
      vs_manifest_file_number = 0, vs_last_sequence = 0, vs_log_number = 0, vs_descriptor_log = None\<rparr>"

definition SetLastSequence :: "u64 \<Rightarrow> VersionSet \<Rightarrow> VersionSet" where
  "SetLastSequence s vs = (if s > vs_last_sequence vs then vs\<lparr>vs_last_sequence := s\<rparr> else vs)"

definition NewFileNumber :: "VersionSet \<Rightarrow> u64 \<times> VersionSet" where
  "NewFileNumber vs = (vs_next_file_number vs, vs\<lparr>vs_next_file_number := vs_next_file_number vs + 1\<rparr>)"

definition ReuseFileNumber :: "u64 \<Rightarrow> VersionSet \<Rightarrow> VersionSet" where
  "ReuseFileNumber num vs = (if vs_next_file_number vs = num + 1 then vs\<lparr>vs_next_file_number := num\<rparr> else vs)"

definition AddLiveFiles :: "VersionSet \<Rightarrow> u64 set" where
  "AddLiveFiles vs = set (map fm_number (concat (map (v_files (vs_current vs)) [0..<kNumLevels])))"

definition manifest_key :: bytes where
  "manifest_key = map of_char ''MANIFEST_ENTRY''"

definition byte_comparator :: bytes where
  "byte_comparator = map of_char ''byte_comparator''"

definition snapshot_edit :: "VersionSet \<Rightarrow> VersionEdit" where
  "snapshot_edit vs =
     fold (\<lambda>level. fold (\<lambda>f. AddFile (int level) (fm_number f) (fm_file_size f) (fm_smallest_key f) (fm_largest_key f) None)
         (v_files (vs_current vs) level)) [0..<kNumLevels]
       (SetLogNumber (vs_log_number vs) (Edit_SetLastSequence (vs_last_sequence vs)
         (SetNextFile (vs_next_file_number vs) (SetComparatorName byte_comparator VersionEdit_new))))"

definition WriteSnapshot :: "VersionSet \<Rightarrow> WalWriter \<Rightarrow> World \<Rightarrow> Status \<times> WalWriter \<times> World" where
  "WriteSnapshot vs writer w = AppendRecord writer 0 kTypeValue manifest_key (Edit_EncodeTo (snapshot_edit vs)) True w"

section \<open>Applying an edit\<close>

definition drop_deleted :: "VersionEdit \<Rightarrow> (nat \<Rightarrow> FileMetaData list) \<Rightarrow> nat \<Rightarrow> FileMetaData list" where
  "drop_deleted edit files level =
     (if level < kNumLevels then filter (\<lambda>f. (int level, fm_number f) \<notin> set (ve_deleted_files edit)) (files level) else [])"

fun place_files :: "(int \<times> FileMetaData) list \<Rightarrow> (nat \<Rightarrow> FileMetaData list) \<Rightarrow> (nat \<Rightarrow> FileMetaData list) option" where
  "place_files [] files = Some files"
| "place_files ((level, f) # ns) files =
     (if 0 \<le> level \<and> level < int kNumLevels then place_files ns (files(nat level := files (nat level) @ [f])) else None)"

text \<open>A table that cannot be opened stays without a reader; the status is not looked at.\<close>

fun open_new_files ::
  "Options option \<Rightarrow> string \<Rightarrow> (int \<times> FileMetaData) list \<Rightarrow> World \<Rightarrow> (int \<times> FileMetaData) list \<times> World" where
  "open_new_files options dbname [] w = ([], w)"
| "open_new_files options dbname ((level, f) # ns) w =
     (let (f', w1) = (case options of None \<Rightarrow> (f, w) | Some opts \<Rightarrow> (let (_, f', w') = open_reader opts dbname f w in (f', w')));
          (ns', w2) = open_new_files options dbname ns w1
      in ((level, f') # ns', w2))"

definition sort_levels :: "(nat \<Rightarrow> FileMetaData list) \<Rightarrow> nat \<Rightarrow> FileMetaData list" where
  "sort_levels files level =
     (if level = 0 then rev (sort_key fm_number (files 0))
      else if level < kNumLevels then sort_key fm_smallest_key (files level) else [])"

definition open_manifest :: "VersionSet \<Rightarrow> World \<Rightarrow> Status \<times> VersionSet \<times> World" where
  "open_manifest vs w = (case vs_descriptor_log vs of
     Some _ \<Rightarrow> (OK, vs, w)
   | None \<Rightarrow>
       (let (num, vs1) = NewFileNumber vs;
            vs2 = vs1\<lparr>vs_manifest_file_number := num\<rparr>;
            (writer, w1) = WalWriter_new (ManifestFileName (vs_dbname vs) num) w;
            (s, writer', w2) = WriteSnapshot vs2 writer w1
        in if \<not> ok s then (s, vs2, w2)
           else let (s_curr, w3) = SetCurrentFile (vs_dbname vs) num w2
             in if \<not> ok s_curr then (s_curr, vs2, w3)
                else (OK, vs2\<lparr>vs_descriptor_log := Some writer'\<rparr>, w3)))"

definition complete_edit :: "VersionEdit \<Rightarrow> VersionSet \<Rightarrow> VersionEdit" where
  "complete_edit edit vs =
     (let edit1 = (if \<not> ve_has_next_file_number edit then SetNextFile (vs_next_file_number vs) edit else edit)
      in if \<not> ve_has_last_sequence edit1 then Edit_SetLastSequence (vs_last_sequence vs) edit1 else edit1)"

definition LogAndApply :: "VersionEdit \<Rightarrow> VersionSet \<Rightarrow> World \<Rightarrow> (Status \<times> VersionSet \<times> World) option" where
  "LogAndApply edit0 vs w =
     (if ve_has_log_number edit0 \<and> ve_log_number edit0 < vs_log_number vs then None
      else let edit1 = complete_edit edit0 vs;
               (new_files, w1) = open_new_files (vs_options vs) (vs_dbname vs) (ve_new_files edit1) w;
               edit = edit1\<lparr>ve_new_files := new_files\<rparr>
        in do {
          files \<leftarrow> place_files new_files (drop_deleted edit (v_files (vs_current vs)));
          let v = (Version_new (vs_dbname vs))\<lparr>v_files := sort_levels files\<rparr>;
          let (s0, vs1, w2) = open_manifest vs w1;
          Some (if \<not> ok s0 then (s0, vs1, w2)
            else case vs_descriptor_log vs1 of
              None \<Rightarrow> (s0, vs1, w2)
            | Some writer \<Rightarrow>
                (let (s, writer', w3) = AppendRecord writer 0 kTypeValue manifest_key (Edit_EncodeTo edit) True w2;
                     vs2 = vs1\<lparr>vs_descriptor_log := Some writer'\<rparr>
                 in if \<not> ok s then (s, vs2, w3)
                    else (OK, vs2\<lparr>vs_current := v,
                        vs_log_number := if ve_has_log_number edit then ve_log_number edit else vs_log_number vs2,
                        vs_last_sequence := if ve_has_last_sequence edit then ve_last_sequence edit else vs_last_sequence vs2\<rparr>, w3)))
        })"

section \<open>Recovering from the manifest\<close>

record RecoverState =
  rs_files :: "nat \<Rightarrow> FileMetaData list"
  rs_max_file_num :: u64
  rs_max_seq :: u64
  rs_log_num :: u64

definition rs_start :: RecoverState where
  "rs_start = \<lparr>rs_files = (\<lambda>_. []), rs_max_file_num = 0, rs_max_seq = 0, rs_log_num = 0\<rparr>"

definition bump_file_num :: "FileMetaData \<Rightarrow> u64 \<Rightarrow> u64" where
  "bump_file_num f n = (if fm_number f \<ge> n then fm_number f + 1 else n)"

definition replay_edit :: "VersionEdit \<Rightarrow> RecoverState \<Rightarrow> RecoverState option" where
  "replay_edit edit rs = do {
     files \<leftarrow> place_files (ve_new_files edit) (drop_deleted edit (rs_files rs));
     let n = (if ve_has_next_file_number edit \<and> ve_next_file_number edit > rs_max_file_num rs
              then ve_next_file_number edit else rs_max_file_num rs);
     Some \<lparr>rs_files = files,
       rs_max_file_num = fold bump_file_num (map snd (ve_new_files edit)) n,
       rs_max_seq = if ve_has_last_sequence edit \<and> ve_last_sequence edit > rs_max_seq rs then ve_last_sequence edit else rs_max_seq rs,
       rs_log_num = if ve_has_log_number edit then ve_log_number edit else rs_log_num rs\<rparr>
   }"

text \<open>The loop over the records of the manifest.\<close>

function replay_manifest :: "WalReader \<Rightarrow> World \<Rightarrow> RecoverState \<Rightarrow> ((Status + RecoverState) \<times> World) option" where
  "replay_manifest r w rs = (case ReadRecord False r w of
     (ReadOk rec, r', w') \<Rightarrow>
       (case Edit_DecodeFrom (snd (snd (snd rec))) VersionEdit_new of
          Inl s \<Rightarrow> Some (Inl s, w')
        | Inr edit \<Rightarrow> (case replay_edit edit rs of None \<Rightarrow> None | Some rs' \<Rightarrow> replay_manifest r' w' rs'))
   | (ReadErr s, r', w') \<Rightarrow> Some (Inr rs, w')
   | (ReadUndefined, r', w') \<Rightarrow> None)"
  by pat_completeness auto
termination
  by (relation "measure (\<lambda>(r, w, _). case wr_fd r of None \<Rightarrow> 0 | Some i \<Rightarrow> length (inodes w i) - wr_pos r)")
    (auto dest!: sym [of _ "ReadRecord _ _ _"] ReadRecord_ok_progress)

declare replay_manifest.simps [simp del]

definition manifest_name :: "bytes \<Rightarrow> string" where
  "manifest_name current = map (\<lambda>b. char_of (unat b)) (takeWhile (\<lambda>b. b \<noteq> 10) current)"

fun open_files :: "Options option \<Rightarrow> string \<Rightarrow> FileMetaData list \<Rightarrow> World \<Rightarrow> FileMetaData list \<times> World" where
  "open_files options dbname [] w = ([], w)"
| "open_files options dbname (f # fs) w =
     (let (f', w1) = (case options of None \<Rightarrow> (f, w) | Some opts \<Rightarrow> (let (_, f', w') = open_reader opts dbname f w in (f', w')));
          (fs', w2) = open_files options dbname fs w1
      in (f' # fs', w2))"

fun open_levels ::
  "Options option \<Rightarrow> string \<Rightarrow> nat list \<Rightarrow> (nat \<Rightarrow> FileMetaData list) \<Rightarrow> World \<Rightarrow> (nat \<Rightarrow> FileMetaData list) \<times> World" where
  "open_levels options dbname [] files w = (files, w)"
| "open_levels options dbname (level # levels) files w =
     (let (fs, w1) = open_files options dbname (files level) w
      in open_levels options dbname levels (files(level := fs)) w1)"

definition VersionSet_Recover :: "VersionSet \<Rightarrow> World \<Rightarrow> (Status \<times> VersionSet \<times> World) option" where
  "VersionSet_Recover vs w =
     (let (fd, w1) = sys_open_rdonly (CurrentFileName (vs_dbname vs)) w
      in case fd of
           None \<Rightarrow> Some (NotFound ''CURRENT file not found'', vs, w1)
         | Some i \<Rightarrow>
             (let name = manifest_name (inodes w1 i)
              in if name = [] then Some (Corruption ''Empty CURRENT file'', vs, w1)
                 else let (reader, w2) = WalReader_new (vs_dbname vs @ ''/'' @ name) w1
                   in do {
                     (res, w3) \<leftarrow> replay_manifest reader w2 rs_start;
                     Some (case res of
                       Inl s \<Rightarrow> (s, vs, w3)
                     | Inr rs \<Rightarrow>
                         (let (files, w4) = open_levels (vs_options vs) (vs_dbname vs) [0..<kNumLevels] (sort_levels (rs_files rs)) w3
                          in (OK, vs\<lparr>vs_current := (Version_new (vs_dbname vs))\<lparr>v_files := files\<rparr>,
                                vs_next_file_number := if rs_max_file_num rs > 0 then rs_max_file_num rs else 2,
                                vs_last_sequence := rs_max_seq rs,
                                vs_log_number := rs_log_num rs\<rparr>, w4)))
                   }))"

section \<open>Files without their readers\<close>

definition strip :: "FileMetaData \<Rightarrow> FileMetaData" where
  "strip f = f\<lparr>fm_reader := None\<rparr>"

lemma strip_simps [simp]:
  "fm_number (strip f) = fm_number f" "fm_file_size (strip f) = fm_file_size f"
  "fm_smallest_key (strip f) = fm_smallest_key f" "fm_largest_key (strip f) = fm_largest_key f" "strip (strip f) = strip f"
  by (simp_all add: strip_def)

lemma same_file_strip: "same_file f f' \<longleftrightarrow> strip f = strip f'"
  by (cases f; cases f') (auto simp: same_file_def strip_def)

lemma same_files_strip: "list_all2 same_file fs fs' \<longleftrightarrow> map strip fs = map strip fs'"
  by (auto simp: same_file_strip list_all2_conv_all_nth list_eq_iff_nth_eq)

lemma open_reader_same: "open_reader options dbname f w = (res, f', w') \<Longrightarrow> same_file f f' \<and> reads w w'"
  by (auto simp: open_reader_def same_file_def split: option.splits prod.splits sum.splits dest!: reads_Open)

lemma open_new_files_same:
  "open_new_files options dbname ns w = (ns', w') \<Longrightarrow> map (apsnd strip) ns' = map (apsnd strip) ns \<and> reads w w'"
proof (induction ns arbitrary: w ns' w')
  case (Cons n ns)
  obtain level f where n: "n = (level, f)" by fastforce
  obtain f' w1 where 1: "(case options of None \<Rightarrow> (f, w) | Some opts \<Rightarrow> (let (_, f', w') = open_reader opts dbname f w in (f', w'))) = (f', w1)"
    by fastforce
  have s: "strip f' = strip f \<and> reads w w1"
    using 1 open_reader_same [of _ dbname f w] by (auto simp: same_file_strip split: option.splits prod.splits)
  obtain ns1 w2 where 2: "open_new_files options dbname ns w1 = (ns1, w2)" by fastforce
  have r: "ns' = (level, f') # ns1" "w' = w2" using Cons.prems 1 2 by (simp_all add: n)
  show ?case using Cons.IH [OF 2] s reads_trans [of w w1 w2] by (simp add: r n)
qed simp

lemma open_files_same:
  "open_files options dbname fs w = (fs', w') \<Longrightarrow> map strip fs' = map strip fs \<and> reads w w'"
proof (induction fs arbitrary: w fs' w')
  case (Cons f fs)
  obtain f' w1 where 1: "(case options of None \<Rightarrow> (f, w) | Some opts \<Rightarrow> (let (_, f', w') = open_reader opts dbname f w in (f', w'))) = (f', w1)"
    by fastforce
  have s: "strip f' = strip f \<and> reads w w1"
    using 1 open_reader_same [of _ dbname f w] by (auto simp: same_file_strip split: option.splits prod.splits)
  obtain fs1 w2 where 2: "open_files options dbname fs w1 = (fs1, w2)" by fastforce
  have r: "fs' = f' # fs1" "w' = w2" using Cons.prems 1 2 by simp_all
  show ?case using Cons.IH [OF 2] s reads_trans [of w w1 w2] by (simp add: r)
qed simp

lemma open_levels_same:
  "open_levels options dbname levels files w = (files', w') \<Longrightarrow> (\<forall>l. map strip (files' l) = map strip (files l)) \<and> reads w w'"
proof (induction levels arbitrary: files w)
  case (Cons level levels)
  obtain fs w1 where 1: "open_files options dbname (files level) w = (fs, w1)" by fastforce
  note s = open_files_same [OF 1]
  have "open_levels options dbname levels (files(level := fs)) w1 = (files', w')" using Cons.prems 1 by simp
  from Cons.IH [OF this] show ?case using s reads_trans [of w w1 w'] by (auto split: if_splits)
qed simp

lemma place_files_eq:
  "place_files ns files = (if \<forall>n \<in> set ns. 0 \<le> fst n \<and> fst n < int kNumLevels
     then Some (\<lambda>l. files l @ map snd (filter (\<lambda>n. fst n = int l) ns)) else None)"
proof (induction ns files rule: place_files.induct)
  case (2 level f ns files)
  show ?case
  proof (cases "0 \<le> level \<and> level < int kNumLevels")
    case True
    then have e: "(\<lambda>l. (files(nat level := files (nat level) @ [f])) l @ map snd (filter (\<lambda>n. fst n = int l) ns)) =
      (\<lambda>l. files l @ map snd (filter (\<lambda>n. fst n = int l) ((level, f) # ns)))"
      by (auto simp: fun_eq_iff)
    have "place_files ((level, f) # ns) files = place_files ns (files(nat level := files (nat level) @ [f]))"
      using True by simp
    then show ?thesis unfolding "2" [OF True] e using True by simp
  qed auto
qed simp

text \<open>Two assignments of files to levels that agree up to order and readers.\<close>

definition files_agree :: "(nat \<Rightarrow> FileMetaData list) \<Rightarrow> (nat \<Rightarrow> FileMetaData list) \<Rightarrow> bool" where
  "files_agree A B \<longleftrightarrow> (\<forall>l < kNumLevels. mset (map strip (A l)) = mset (map strip (B l)))"

lemma files_agree_refl [simp]: "files_agree A A"
  by (simp add: files_agree_def)

lemma files_agree_sort: "files_agree (sort_levels A) A"
  by (simp add: files_agree_def sort_levels_def)

lemma files_agree_sym: "files_agree A B \<Longrightarrow> files_agree B A"
  by (simp add: files_agree_def)

lemma files_agree_trans: "files_agree A B \<Longrightarrow> files_agree B C \<Longrightarrow> files_agree A C"
  by (simp add: files_agree_def)

lemma filter_strip: "map strip (filter (\<lambda>f. P (fm_number f)) fs) = filter (\<lambda>f. P (fm_number f)) (map strip fs)"
  by (induction fs) simp_all

lemma filter_level_strip:
  "map (apsnd strip) ns = map (apsnd strip) ns' \<Longrightarrow>
   map strip (map snd (filter (\<lambda>n. fst n = k) ns)) = map strip (map snd (filter (\<lambda>n. fst n = k) ns'))"
proof (induction ns arbitrary: ns')
  case (Cons n ns)
  then obtain n' ns1 where n: "ns' = n' # ns1" "apsnd strip n = apsnd strip n'" "map (apsnd strip) ns = map (apsnd strip) ns1" by auto
  then show ?case using Cons.IH [OF n(3)] by (cases n; cases n') auto
qed simp

lemma files_agree_step:
  assumes "files_agree A B" and "ve_deleted_files e = ve_deleted_files e'" and "map (apsnd strip) ns = map (apsnd strip) ns'"
    and "place_files ns (drop_deleted e A) = Some A'"
  shows "\<exists>B'. place_files ns' (drop_deleted e' B) = Some B' \<and> files_agree A' B'"
proof -
  have fst: "map fst ns = map fst ns'" using arg_cong [OF assms(3), of "map fst"] by simp
  have ok: "\<forall>n \<in> set ns. 0 \<le> fst n \<and> fst n < int kNumLevels" using assms(4) by (auto simp: place_files_eq split: if_splits)
  then have ok': "\<forall>n \<in> set ns'. 0 \<le> fst n \<and> fst n < int kNumLevels"
    using fst by (metis (no_types, lifting) image_set imageE image_eqI)
  let ?B' = "\<lambda>l. drop_deleted e' B l @ map snd (filter (\<lambda>n. fst n = int l) ns')"
  have A': "A' = (\<lambda>l. drop_deleted e A l @ map snd (filter (\<lambda>n. fst n = int l) ns))" using assms(4) ok by (simp add: place_files_eq)
  have "mset (map strip (drop_deleted e A l)) = mset (map strip (drop_deleted e' B l))" if "l < kNumLevels" for l
    using assms(1) filter_strip [of "\<lambda>k. (int l, k) \<notin> set (ve_deleted_files e')" "A l"]
      filter_strip [of "\<lambda>k. (int l, k) \<notin> set (ve_deleted_files e')" "B l"]
    by (simp add: drop_deleted_def files_agree_def assms(2) that mset_filter del: mset_map map_map)
  then have "files_agree A' ?B'"
    using filter_level_strip [OF assms(3)] by (simp add: files_agree_def A' del: mset_map map_map) 
  then show ?thesis using ok' by (simp add: place_files_eq)
qed

section \<open>Sorting the levels\<close>

text \<open>
  What the engine keeps of an installed version: the files of level 0 by descending number, those of
  the other levels by ascending smallest key, both without repetition.
\<close>

definition files_sorted :: "(nat \<Rightarrow> FileMetaData list) \<Rightarrow> bool" where
  "files_sorted A \<longleftrightarrow> sorted (rev (map fm_number (A 0))) \<and> (\<forall>l \<in> {1..<kNumLevels}. sorted (map fm_smallest_key (A l)))
     \<and> (\<forall>l \<ge> kNumLevels. A l = [])"

definition files_distinct :: "(nat \<Rightarrow> FileMetaData list) \<Rightarrow> bool" where
  "files_distinct A \<longleftrightarrow> distinct (map fm_number (A 0)) \<and> (\<forall>l \<in> {1..<kNumLevels}. distinct (map fm_smallest_key (A l)))"

lemma files_sorted_sort [simp]: "files_sorted (sort_levels A)"
  by (simp add: files_sorted_def sort_levels_def rev_map kNumLevels_def)

lemma distinct_map_sort [simp]: "distinct (map f (sort_key g xs)) = distinct (map f xs)"
  by (simp add: distinct_map)

lemma files_distinct_sort [simp]: "files_distinct (sort_levels A) = files_distinct A"
  by (auto simp: files_distinct_def sort_levels_def rev_map [symmetric])

lemma sort_key_strip:
  assumes "\<And>x. f (strip x) = f x"
  shows "map strip (sort_key f xs) = sort_key f (map strip xs)"
proof -
  have "map strip (insort_key f x ys) = insort_key f (strip x) (map strip ys)" for x ys
    by (induction ys) (simp_all add: assms)
  then show ?thesis by (induction xs) simp_all
qed

lemma sort_key_unique:
  assumes "mset (map strip xs) = mset (map strip ys)" and "\<And>x. f (strip x) = f x"
    and "sorted (map f xs)" and "distinct (map f xs)"
  shows "map strip (sort_key f ys) = map strip xs"
proof -
  have k: "map f (map strip xs) = map f xs" using assms(2) by simp
  have "distinct (map f (map strip xs))" using assms(4) k by argo
  then have "inj_on f (set (map strip xs))" by (simp only: distinct_map)
  moreover have "set (map strip xs) = set (map strip ys)" using assms(1) by (rule mset_eq_setD)
  ultimately have inj: "inj_on f (set (map strip ys))" by argo
  have "sorted (map f (map strip xs))" using assms(3) k by argo
  from sort_key_inj_key_eq [OF assms(1) [symmetric] inj this]
  show ?thesis by (simp add: sort_key_strip assms(2))
qed

lemma sort_levels_unique:
  assumes "files_agree A B" and "files_sorted A" and "files_distinct A"
  shows "map strip (sort_levels B l) = map strip (A l)"
proof (cases "l < kNumLevels")
  case False
  then show ?thesis using assms(2) by (simp add: sort_levels_def files_sorted_def kNumLevels_def)
next
  case l: True
  have m: "mset (map strip (A l)) = mset (map strip (B l))" using assms(1) l by (simp add: files_agree_def)
  show ?thesis
  proof (cases "l = 0")
    case True
    have "map strip (sort_key fm_number (B 0)) = map strip (rev (A 0))"
      using assms m by (intro sort_key_unique) (simp_all add: True files_sorted_def files_distinct_def rev_map flip: rev_map)
    then show ?thesis by (simp add: True sort_levels_def rev_map [symmetric])
  next
    case False
    then show ?thesis using assms m sort_key_unique [of "A l" "B l" fm_smallest_key]
      l by (auto simp: sort_levels_def files_sorted_def files_distinct_def)
  qed
qed

section \<open>Replaying the manifest\<close>

definition edit_rec :: "VersionEdit \<Rightarrow> wal_rec" where
  "edit_rec e = (0, kTypeValue, manifest_key, Edit_EncodeTo e)"

fun replay_edits :: "VersionEdit list \<Rightarrow> RecoverState \<Rightarrow> RecoverState option" where
  "replay_edits [] rs = Some rs"
| "replay_edits (e # es) rs = (case replay_edit e rs of None \<Rightarrow> None | Some rs' \<Rightarrow> replay_edits es rs')"

lemma replay_edits_snoc:
  "replay_edits (es @ [e]) rs = (case replay_edits es rs of None \<Rightarrow> None | Some rs' \<Rightarrow> replay_edit e rs')"
  by (induction es arbitrary: rs) (auto split: option.splits)

definition edit_logged :: "VersionEdit \<Rightarrow> bool" where
  "edit_logged e \<longleftrightarrow> edit_wf e \<and> edit_fits e \<and> rec_fits (edit_rec e)"

lemma reads_fstat: "sys_fstat_size i w = (res, w') \<Longrightarrow> reads w w'"
  using reads_tl by (auto simp: sys_fstat_size_def next_outcome_eq)

lemma reads_IsAtEof: "IsAtEof i pos w = (b, w') \<Longrightarrow> reads w w'"
  by (auto simp: IsAtEof_def Let_def split: prod.splits option.splits dest!: reads_fstat)

lemma reads_ReadRecord: "ReadRecord allow r w = (res, r', w') \<Longrightarrow> reads w w'"
  unfolding ReadRecord_def Let_def
  by (auto split: if_splits option.splits prod.splits rd_end.splits
      dest!: reads_upto reads_fstat reads_IsAtEof intro: reads_trans)

lemma replay_manifest_ok:
  assumes "wr_fd r = Some i" and "Fail \<notin> set (script w)" and "wr_pos r \<le> length (inodes w i)"
    and "drop (wr_pos r) (inodes w i) = wal_log (map edit_rec es) @ take n (wal_frame rec)"
    and "rec_fits rec" and "n < length (wal_frame rec)" and "\<forall>e \<in> set es. edit_logged e"
    and "replay_edits (map stored es) rs = Some rs'"
  shows "\<exists>w'. replay_manifest r w rs = Some (Inr rs', w') \<and> reads w w'"
  using assms
proof (induction es arbitrary: r w rs)
  case Nil
  have at: "drop (wr_pos r) (inodes w i) = take n (wal_frame rec)" using Nil.prems(4) by (simp add: wal_log_def)
  obtain s r' w' where t: "ReadRecord False r w = (ReadErr s, r', w')"
    using ReadRecord_torn [OF Nil.prems(1,2) at Nil.prems(5,6,3), of False] by auto
  then have "replay_manifest r w rs = Some (Inr rs', w')"
    using Nil.prems(8) by (subst replay_manifest.simps) simp
  then show ?case using reads_ReadRecord [OF t] by blast
next
  case (Cons e es)
  let ?f = "wal_frame (edit_rec e)"
  have at: "drop (wr_pos r) (inodes w i) = ?f @ (wal_log (map edit_rec es) @ take n (wal_frame rec))"
    using Cons.prems(4) by (simp add: wal_log_def)
  have le: "edit_logged e" using Cons.prems(7) by simp
  then have fits: "rec_fits (edit_rec e)" by (simp add: edit_logged_def)
  obtain x where x: "ReadRecord False r w = (ReadOk (edit_rec e), r\<lparr>wr_pos := wr_pos r + length ?f\<rparr>, w\<lparr>script := x\<rparr>)"
    "Fail \<notin> set x"
    using ReadRecord_frame [OF Cons.prems(1,2) at fits] by blast
  let ?r = "r\<lparr>wr_pos := wr_pos r + length ?f\<rparr>" and ?w = "w\<lparr>script := x\<rparr>"
  obtain rs1 where rs1: "replay_edit (stored e) rs = Some rs1" "replay_edits (map stored es) rs1 = Some rs'"
    using Cons.prems(8) by (auto split: option.splits)
  have "length (drop (wr_pos r) (inodes w i)) \<ge> length ?f" using at by simp
  then have pos: "wr_pos ?r \<le> length (inodes ?w i)" using Cons.prems(3) by simp
  have dr: "drop (wr_pos ?r) (inodes ?w i) = wal_log (map edit_rec es) @ take n (wal_frame rec)"
    using at drop_drop [of "length ?f" "wr_pos r" "inodes w i"] by (simp add: add.commute)
  obtain w' where w': "replay_manifest ?r ?w rs1 = Some (Inr rs', w')" "reads ?w w'"
    using Cons.IH [of ?r ?w rs1] Cons.prems pos dr x(2) rs1(2) by auto
  have "Edit_DecodeFrom (Edit_EncodeTo e) VersionEdit_new = Inr (stored e)"
    using le Edit_roundtrip by (simp add: edit_logged_def)
  then have "replay_manifest r w rs = Some (Inr rs', w')"
    using w' rs1(1) by (subst replay_manifest.simps) (simp add: x(1), simp add: edit_rec_def)
  then show ?case using reads_trans [OF reads_ReadRecord [OF x(1)] w'(2)] by blast
qed

lemma unat_of_char [simp]: "unat (of_char c :: byte) = of_char c"
proof -
  have e: "(of_char c :: byte) = word_of_nat (of_char c)"
    by (cases c) (simp only: of_char_Char horner_sum_simps of_nat_add of_nat_mult of_nat_of_bool of_nat_numeral semiring_1_class.of_nat_0)
  have "(of_char c :: nat) < 2 ^ LENGTH(8)" using nat_of_char_less_256 [of c] by simp
  then show ?thesis unfolding e by (simp only: unat_of_nat mod_less)
qed

lemma manifest_name_line:
  assumes "\<forall>c \<in> set s. (of_char c :: nat) \<noteq> 10"
  shows "manifest_name (map of_char s @ [10]) = s"
proof -
  have ne: "(of_char c :: byte) \<noteq> 10" if "c \<in> set s" for c
  proof
    assume "(of_char c :: byte) = 10"
    from arg_cong [OF this, of unat] show False using that assms by simp
  qed
  have "takeWhile (\<lambda>b :: byte. b \<noteq> 10) (map of_char s @ [10]) = map of_char s"
    using ne by (subst takeWhile_append2) auto
  then show ?thesis by (simp add: manifest_name_def o_def)
qed

lemma manifest_name_current: "manifest_name (current_line n) = ''MANIFEST-'' @ fmt06 n"
proof -
  let ?s = "''MANIFEST-'' @ fmt06 n"
  have len: "length (?s @ [CHR 10]) \<le> 63" using length_fmt06 [of n] by simp
  have nl: "[of_char (CHR 10)] = [10 :: byte]" by (simp add: of_char_Char)
  have line: "current_line n = map of_char ?s @ [10]"
    using take_all [OF len] nl unfolding current_line_def by (simp only: append_assoc map_append list.map)
  have "\<forall>c \<in> set ?s. (of_char c :: nat) \<noteq> 10" using fmt06_digits [of n] by (auto simp: is_digit_def)
  then show ?thesis unfolding line by (rule manifest_name_line)
qed

end
