(* ===== verification/Manifest.thy ===== *)
theory Manifest
  imports Version_Set
begin

text \<open>
  What the manifest guarantees (src/version_set.cc, \<open>LogAndApply\<close> and \<open>Recover\<close>): an edit is applied
  as a whole or not at all, whatever write or sync fails on the way, and a successful edit is what the next
  recovery finds.
\<close>

lemma Recover_log:
  assumes cur: "content w (CurrentFileName db) = Some (current_line n)" and d: "dir w (ManifestFileName db n) = Some i"
    and log: "inodes w i = wal_log (map edit_rec es) @ take k (wal_frame rec)" and "rec_fits rec" and "k < length (wal_frame rec)"
    and "\<forall>e \<in> set es. edit_logged e" and "replay_edits (map stored es) rs_start = Some rs" and sc: "script w = []"
  shows "\<exists>vr wr. VersionSet_Recover (VersionSet_new db opts) w = Some (OK, vr, wr)
    \<and> v_dbname (vs_current vr) = db \<and> (\<forall>l. map strip (v_files (vs_current vr) l) = map strip (sort_levels (rs_files rs) l))
    \<and> vs_log_number vr = rs_log_num rs \<and> vs_last_sequence vr = rs_max_seq rs
    \<and> vs_next_file_number vr = (if rs_max_file_num rs > 0 then rs_max_file_num rs else 2)"
proof -
  obtain j where j: "dir w (CurrentFileName db) = Some j" "inodes w j = current_line n" using cur by (auto simp: content_def)
  have full: "next_outcome w = (Full, w)" using sc by (simp add: next_outcome_eq outcome_of_def)
  have name: "manifest_name (inodes w j) = ''MANIFEST-'' @ fmt06 n" by (simp only: j manifest_name_current)
  have path: "db @ ''/'' @ manifest_name (inodes w j) = ManifestFileName db n" by (simp add: name ManifestFileName_eq)
  have op: "sys_open_rdonly p w = (dir w p, w)" for p by (simp add: sys_open_rdonly_def full)
  let ?r = "\<lparr>wr_fd = Some i, wr_pos = 0\<rparr>"
  have rd: "WalReader_new (db @ ''/'' @ manifest_name (inodes w j)) w = (?r, w)"
    unfolding path by (simp add: WalReader_new_def op d)
  obtain w3 where w3: "replay_manifest ?r w rs_start = Some (Inr rs, w3)"
    using replay_manifest_ok [of ?r i w es k rec rs_start rs] assms by auto
  obtain files w4 where o: "open_levels opts db [0..<kNumLevels] (sort_levels (rs_files rs)) w3 = (files, w4)" by fastforce
  have ne: "manifest_name (inodes w j) \<noteq> []" by (simp add: name)
  let ?vs = "VersionSet_new db opts"
  let ?vr = "?vs\<lparr>vs_current := (Version_new db)\<lparr>v_files := files\<rparr>,
    vs_next_file_number := if rs_max_file_num rs > 0 then rs_max_file_num rs else 2,
    vs_last_sequence := rs_max_seq rs, vs_log_number := rs_log_num rs\<rparr>"
  have vs: "vs_dbname ?vs = db" "vs_options ?vs = opts" by (simp_all add: VersionSet_new_def)
  have "VersionSet_Recover ?vs w = Some (OK, ?vr, w4)"
    unfolding VersionSet_Recover_def Let_def vs op prod.case j(1) option.case if_not_P [OF ne] rd w3
    by (simp add: o)
  then show ?thesis using open_levels_same [OF o] by (simp add: Version_new_def)
qed

section \<open>Logging an edit\<close>

text \<open>The manifest on disk and the version set in memory agree: the edits \<open>es\<close> were logged.\<close>

definition manifest_rep :: "VersionSet \<Rightarrow> World \<Rightarrow> VersionEdit list \<Rightarrow> bool" where
  "manifest_rep vs w es \<longleftrightarrow>
     wf_world w \<and> content w (CurrentFileName (vs_dbname vs)) = Some (current_line (vs_manifest_file_number vs))
     \<and> (case vs_descriptor_log vs of None \<Rightarrow> False | Some writer \<Rightarrow>
          (case ww_fd writer of None \<Rightarrow> False | Some i \<Rightarrow>
             dir w (ManifestFileName (vs_dbname vs) (vs_manifest_file_number vs)) = Some i
             \<and> inodes w i = wal_log (map edit_rec es)))
     \<and> list_all edit_logged es \<and> v_dbname (vs_current vs) = vs_dbname vs
     \<and> files_sorted (v_files (vs_current vs)) \<and> files_distinct (v_files (vs_current vs))
     \<and> (case replay_edits (map stored es) rs_start of None \<Rightarrow> False | Some rs \<Rightarrow>
          files_agree (v_files (vs_current vs)) (rs_files rs)
          \<and> rs_log_num rs = vs_log_number vs \<and> rs_max_seq rs \<le> vs_last_sequence vs)"

text \<open>What the edit asks for.\<close>

definition edited :: "VersionEdit \<Rightarrow> VersionSet \<Rightarrow> VersionSet" where
  "edited edit vs = vs\<lparr>
     vs_current := (Version_new (vs_dbname vs))\<lparr>v_files :=
       (case place_files (ve_new_files edit) (drop_deleted edit (v_files (vs_current vs))) of
          None \<Rightarrow> (\<lambda>_. []) | Some files \<Rightarrow> sort_levels files)\<rparr>,
     vs_log_number := if ve_has_log_number edit then ve_log_number edit else vs_log_number vs,
     vs_last_sequence := if ve_has_last_sequence edit then ve_last_sequence edit else vs_last_sequence vs\<rparr>"

text \<open>A recovered version set shows the same files and the same log number.\<close>

definition recovered :: "VersionSet \<Rightarrow> VersionSet \<Rightarrow> bool" where
  "recovered vs vr \<longleftrightarrow> same_version (vs_current vs) (vs_current vr) \<and> vs_log_number vr = vs_log_number vs"

text \<open>An edit the engine makes: counters do not go back, files have fresh numbers and no level gets two files with one key.\<close>

definition edit_ok :: "VersionEdit \<Rightarrow> VersionSet \<Rightarrow> bool" where
  "edit_ok edit vs \<longleftrightarrow> edit_logged (complete_edit edit vs)
     \<and> files_distinct (v_files (vs_current (edited edit vs)))
     \<and> (ve_has_last_sequence edit \<longrightarrow> vs_last_sequence vs \<le> ve_last_sequence edit)
     \<and> \<not> ve_has_next_file_number edit \<and> (\<forall>n \<in> set (ve_new_files edit). fm_number (snd n) < vs_next_file_number vs)"

lemma complete_edit_simps [simp]:
  "ve_new_files (complete_edit e vs) = ve_new_files e" "ve_deleted_files (complete_edit e vs) = ve_deleted_files e"
  "ve_has_log_number (complete_edit e vs) = ve_has_log_number e" "ve_log_number (complete_edit e vs) = ve_log_number e"
  "ve_has_last_sequence (complete_edit e vs)" "ve_has_next_file_number (complete_edit e vs)"
  "ve_last_sequence (complete_edit e vs) = (if ve_has_last_sequence e then ve_last_sequence e else vs_last_sequence vs)"
  "ve_next_file_number (complete_edit e vs) = (if ve_has_next_file_number e then ve_next_file_number e else vs_next_file_number vs)"
  by (simp_all add: complete_edit_def SetNextFile_def Edit_SetLastSequence_def Let_def)

lemma drop_deleted_cong: "ve_deleted_files e = ve_deleted_files e' \<Longrightarrow> drop_deleted e A = drop_deleted e' A"
  by (simp add: drop_deleted_def fun_eq_iff)

lemma encode_new_strip: "encode_new (apsnd strip n) = encode_new n"
  by (simp add: encode_new_def)

lemma Edit_EncodeTo_readers:
  assumes "map (apsnd strip) ns = map (apsnd strip) (ve_new_files e)"
  shows "Edit_EncodeTo (e\<lparr>ve_new_files := ns\<rparr>) = Edit_EncodeTo e"
proof -
  have "map encode_new ns = map encode_new (map (apsnd strip) ns)" by (simp add: o_def encode_new_strip)
  also have "\<dots> = map encode_new (ve_new_files e)" unfolding assms by (simp add: o_def encode_new_strip)
  finally show ?thesis by (simp add: Edit_EncodeTo_def)
qed

lemma stored_new_files: "map (apsnd strip) (ve_new_files (stored e)) = map (apsnd strip) (ve_new_files e)"
  by (simp add: stored_def strip_def apsnd_def map_prod_def case_prod_unfold)

lemma files_agree_keys:
  assumes "files_agree A B" and "l < kNumLevels" and "\<And>x. f (strip x) = f x"
  shows "distinct (map f (A l)) = distinct (map f (B l))"
proof (rule mset_eq_imp_distinct_iff)
  have "image_mset f (mset (map strip (A l))) = image_mset f (mset (map strip (B l)))"
    using assms(1,2) by (simp add: files_agree_def)
  then show "mset (map f (A l)) = mset (map f (B l))" using assms(3) by (simp add: multiset.map_comp o_def)
qed

lemma files_distinct_agree: "files_agree A B \<Longrightarrow> files_distinct A = files_distinct B"
  using files_agree_keys [of A B 0 fm_number] files_agree_keys [of A B _ fm_smallest_key]
  by (simp add: files_distinct_def kNumLevels_def)

lemma fold_bump:
  "\<forall>f \<in> set fs. fm_number f < n \<Longrightarrow> fold bump_file_num fs n = n"
  by (induction fs) (auto simp: bump_file_num_def)

lemma replay_edit_stored:
  assumes "place_files (ve_new_files (stored e)) (drop_deleted (stored e) (rs_files rs)) = Some files"
    and "ve_has_last_sequence e" and "ve_has_next_file_number e"
    and "\<forall>n \<in> set (ve_new_files e). fm_number (snd n) < ve_next_file_number e"
  shows "replay_edit (stored e) rs = Some \<lparr>rs_files = files,
    rs_max_file_num = max (ve_next_file_number e) (rs_max_file_num rs), rs_max_seq = max (ve_last_sequence e) (rs_max_seq rs),
    rs_log_num = if ve_has_log_number e then ve_log_number e else rs_log_num rs\<rparr>"
proof -
  let ?n = "max (ve_next_file_number e) (rs_max_file_num rs)"
  have "fm_number f < ?n" if "f \<in> set (map snd (ve_new_files (stored e)))" for f
    using that assms(4) by (fastforce simp: stored_def less_max_iff_disj)
  then have "fold bump_file_num (map snd (ve_new_files (stored e))) ?n = ?n" by (intro fold_bump) blast
  then have b: "rs_max_file_num rs < ve_next_file_number e \<Longrightarrow>
      fold bump_file_num (map snd (ve_new_files (stored e))) (ve_next_file_number e) = ve_next_file_number e"
    "\<not> rs_max_file_num rs < ve_next_file_number e \<Longrightarrow>
      fold bump_file_num (map snd (ve_new_files (stored e))) (rs_max_file_num rs) = rs_max_file_num rs"
    by (simp_all add: max_def split: if_splits)
  have st: "ve_has_next_file_number (stored e)" "ve_has_last_sequence (stored e)" "ve_has_log_number (stored e) = ve_has_log_number e"
    "ve_next_file_number (stored e) = ve_next_file_number e" "ve_last_sequence (stored e) = ve_last_sequence e"
    "ve_has_log_number e \<Longrightarrow> ve_log_number (stored e) = ve_log_number e"
    using assms(2,3) by (simp_all add: stored_def)
  show ?thesis using assms(1) b by (auto simp: replay_edit_def st max_def simp del: map_map)
qed

lemma wf_world_reads: "reads w w' \<Longrightarrow> wf_world w' = wf_world w"
  by (simp add: reads_def wf_world_def)

lemma content_reads: "reads w w' \<Longrightarrow> content w' = content w"
  by (auto simp: reads_def content_def)

lemma current_neq_manifest: "CurrentFileName db \<noteq> ManifestFileName db n"
  by (simp add: CurrentFileName_def ManifestFileName_eq)

text \<open>A logged edit replays to the version it asks for.\<close>

lemma edited_replay:
  assumes rep: "manifest_rep vs w es" and e: "edit_ok edit vs"
    and place: "place_files (ve_new_files edit) (drop_deleted edit (v_files (vs_current vs))) = Some files"
  shows "\<exists>rs. replay_edits (map stored (es @ [complete_edit edit vs])) rs_start = Some rs
    \<and> files_agree files (rs_files rs) \<and> rs_log_num rs = vs_log_number (edited edit vs)
    \<and> rs_max_seq rs = vs_last_sequence (edited edit vs) \<and> vs_next_file_number vs \<le> rs_max_file_num rs"
proof -
  let ?e = "complete_edit edit vs"
  obtain rs where rs: "replay_edits (map stored es) rs_start = Some rs" "files_agree (v_files (vs_current vs)) (rs_files rs)"
    "rs_log_num rs = vs_log_number vs" "rs_max_seq rs \<le> vs_last_sequence vs"
    using rep by (auto simp: manifest_rep_def split: option.splits)
  have "ve_deleted_files edit = ve_deleted_files (stored ?e)" by (simp add: stored_def)
  moreover have "map (apsnd strip) (ve_new_files edit) = map (apsnd strip) (ve_new_files (stored ?e))" by (simp only: stored_new_files complete_edit_simps)
  ultimately obtain B where B: "place_files (ve_new_files (stored ?e)) (drop_deleted (stored ?e) (rs_files rs)) = Some B" "files_agree files B"
    using files_agree_step [OF rs(2) _ _ place] by blast
  have "\<forall>n \<in> set (ve_new_files ?e). fm_number (snd n) < ve_next_file_number ?e" using e by (simp add: edit_ok_def)
  from replay_edit_stored [OF B(1) _ _ this]
  have r: "replay_edit (stored ?e) rs = Some \<lparr>rs_files = B, rs_max_file_num = max (ve_next_file_number ?e) (rs_max_file_num rs),
     rs_max_seq = max (ve_last_sequence ?e) (rs_max_seq rs), rs_log_num = if ve_has_log_number edit then ve_log_number edit else rs_log_num rs\<rparr>"
    by simp
  have "max (ve_last_sequence ?e) (rs_max_seq rs) = vs_last_sequence (edited edit vs)"
    using e rs(4) by (auto simp: edit_ok_def edited_def max_def)
  then show ?thesis using e rs B by (simp add: replay_edits_snoc r edited_def edit_ok_def)
qed

lemma same_version_sorted:
  assumes "files_agree A B" and "files_sorted A" and "files_distinct A" and "v_dbname v' = v_dbname v"
    and "v_files v = A" and "\<forall>l. map strip (v_files v' l) = map strip (sort_levels B l)"
  shows "same_version v v'"
  using sort_levels_unique [OF assms(1-3)] assms(4-6) by (simp add: same_version_def same_files_strip)

lemma LogAndApply_open:
  assumes rep: "manifest_rep vs w es" and e: "edit_ok edit vs" and run: "LogAndApply edit vs w = Some (s, vs', w')"
  shows "\<exists>n i files v. dir w' (ManifestFileName (vs_dbname vs) (vs_manifest_file_number vs)) = Some i
    \<and> content w' (CurrentFileName (vs_dbname vs)) = Some (current_line (vs_manifest_file_number vs))
    \<and> inodes w' i = wal_log (map edit_rec es) @ take n (wal_frame (edit_rec (complete_edit edit vs)))
    \<and> n \<le> length (wal_frame (edit_rec (complete_edit edit vs)))
    \<and> place_files (ve_new_files edit) (drop_deleted edit (v_files (vs_current vs))) = Some files \<and> files_agree files v
    \<and> (if ok s then n = length (wal_frame (edit_rec (complete_edit edit vs)))
         \<and> vs_current vs' = (Version_new (vs_dbname vs))\<lparr>v_files := sort_levels v\<rparr>
         \<and> vs_log_number vs' = vs_log_number (edited edit vs) \<and> vs_last_sequence vs' = vs_last_sequence (edited edit vs)
         \<and> vs_next_file_number vs' = vs_next_file_number vs
       else vs_current vs' = vs_current vs)"
proof -
  let ?e = "complete_edit edit vs" and ?db = "vs_dbname vs"
  let ?cur = "CurrentFileName ?db" and ?man = "ManifestFileName ?db (vs_manifest_file_number vs)"
  obtain writer i where wi: "vs_descriptor_log vs = Some writer" "ww_fd writer = Some i" "dir w ?man = Some i"
    "inodes w i = wal_log (map edit_rec es)" "wf_world w" "content w ?cur = Some (current_line (vs_manifest_file_number vs))"
    using rep by (auto simp: manifest_rep_def split: option.splits)
  obtain ns w1 where ns: "open_new_files (vs_options vs) ?db (ve_new_files edit) w = (ns, w1)" by fastforce
  note same = open_new_files_same [OF ns]
  have enc: "Edit_EncodeTo (?e\<lparr>ve_new_files := ns\<rparr>) = Edit_EncodeTo ?e" using same by (intro Edit_EncodeTo_readers) simp
  have drop: "drop_deleted (?e\<lparr>ve_new_files := ns\<rparr>) A = drop_deleted edit A" for A by (rule drop_deleted_cong) simp
  have man: "open_manifest vs w1 = (OK, vs, w1)" by (simp add: open_manifest_def wi)
  obtain s1 writer' w3 where app: "AppendRecord writer 0 kTypeValue manifest_key (Edit_EncodeTo ?e) True w1 = (s1, writer', w3)"
    by (metis prod_cases3)
  obtain v where v: "place_files ns (drop_deleted edit (v_files (vs_current vs))) = Some v"
    using run by (auto simp: LogAndApply_def ns drop Let_def split: if_splits bind_splits)
  have res: "(s, vs', w') = (if \<not> ok s1 then (s1, vs\<lparr>vs_descriptor_log := Some writer'\<rparr>, w3)
      else (OK, vs\<lparr>vs_descriptor_log := Some writer', vs_current := (Version_new ?db)\<lparr>v_files := sort_levels v\<rparr>,
        vs_log_number := if ve_has_log_number edit then ve_log_number edit else vs_log_number vs,
        vs_last_sequence := ve_last_sequence ?e\<rparr>, w3))"
    using run by (auto simp: LogAndApply_def ns drop Let_def v man wi(1) enc app split: if_splits)
  obtain files where files: "place_files (ve_new_files edit) (drop_deleted edit (v_files (vs_current vs))) = Some files" "files_agree v files"
    using files_agree_step [OF files_agree_refl refl _ v, of "ve_new_files edit"] same by auto
  have w1: "wf_world w1" "dir w1 ?man = Some i" "inodes w1 i = wal_log (map edit_rec es)"
    "content w1 ?cur = Some (current_line (vs_manifest_file_number vs))"
    using same wi wf_world_reads content_reads by (auto simp: reads_simps)
  obtain n where n: "n \<le> length (wal_frame (edit_rec ?e))" "inodes w3 i = inodes w1 i @ take n (wal_frame (edit_rec ?e))"
    "ok s1 \<longrightarrow> n = length (wal_frame (edit_rec ?e))" "only_changes {?man} w1 w3" "dir w3 ?man = Some i"
    using AppendRecord_effect [OF w1(1) wi(2) w1(2) app] unfolding edit_rec_def by blast
  have cur: "content w3 ?cur = content w1 ?cur"
    using n(4) current_neq_manifest by (simp add: only_changes_def)
  have w': "w' = w3" and s: "ok s = ok s1" using res by (auto split: if_splits)
  have "if ok s then n = length (wal_frame (edit_rec ?e))
         \<and> vs_current vs' = (Version_new ?db)\<lparr>v_files := sort_levels v\<rparr>
         \<and> vs_log_number vs' = vs_log_number (edited edit vs) \<and> vs_last_sequence vs' = vs_last_sequence (edited edit vs)
         \<and> vs_next_file_number vs' = vs_next_file_number vs
       else vs_current vs' = vs_current vs"
    using res n(3) s by (auto simp: edited_def)
  then show ?thesis
    using n cur w1 files files_agree_sym unfolding w' by metis
qed

text \<open>Recovery from a manifest in which the edit is complete, and from one in which it is torn.\<close>

lemma recover_edited:
  assumes rep: "manifest_rep vs w0 es" and e: "edit_ok edit vs"
    and place: "place_files (ve_new_files edit) (drop_deleted edit (v_files (vs_current vs))) = Some files"
    and w: "content w (CurrentFileName (vs_dbname vs)) = Some (current_line (vs_manifest_file_number vs))"
      "dir w (ManifestFileName (vs_dbname vs) (vs_manifest_file_number vs)) = Some i" "script w = []"
      "inodes w i = wal_log (map edit_rec (es @ [complete_edit edit vs]))"
  shows "\<exists>vr wr. VersionSet_Recover (VersionSet_new (vs_dbname vs) opts) w = Some (OK, vr, wr)
    \<and> (\<forall>A. files_agree files A \<longrightarrow> same_version ((Version_new (vs_dbname vs))\<lparr>v_files := sort_levels A\<rparr>) (vs_current vr))
    \<and> vs_log_number vr = vs_log_number (edited edit vs) \<and> vs_last_sequence vr = vs_last_sequence (edited edit vs)
    \<and> vs_next_file_number vs \<le> vs_next_file_number vr"
proof -
  let ?e = "complete_edit edit vs" and ?db = "vs_dbname vs"
  obtain rs where rs: "replay_edits (map stored (es @ [?e])) rs_start = Some rs" "files_agree files (rs_files rs)"
    "rs_log_num rs = vs_log_number (edited edit vs)" "rs_max_seq rs = vs_last_sequence (edited edit vs)"
    "vs_next_file_number vs \<le> rs_max_file_num rs"
    using edited_replay [OF rep e place] by blast
  have log: "rec_fits (edit_rec ?e)" "\<forall>e \<in> set (es @ [?e]). edit_logged e"
    using rep e by (auto simp: edit_ok_def edit_logged_def manifest_rep_def list_all_iff)
  have in_w: "inodes w i = wal_log (map edit_rec (es @ [?e])) @ take 0 (wal_frame (edit_rec ?e))" using w(4) by simp
  have pos: "0 < length (wal_frame (edit_rec ?e))" by (simp add: edit_rec_def wal_frame.simps Let_def wal_header_def)
  obtain vr wr where V: "VersionSet_Recover (VersionSet_new ?db opts) w = Some (OK, vr, wr)" "v_dbname (vs_current vr) = ?db"
    "\<forall>l. map strip (v_files (vs_current vr) l) = map strip (sort_levels (rs_files rs) l)"
    "vs_log_number vr = rs_log_num rs" "vs_last_sequence vr = rs_max_seq rs"
    "vs_next_file_number vr = (if rs_max_file_num rs > 0 then rs_max_file_num rs else 2)"
    using Recover_log [OF w(1,2) in_w log(1) pos log(2) rs(1) w(3), of opts] by auto
  have dist: "files_distinct files" using e place by (simp add: edit_ok_def edited_def)
  have "same_version ((Version_new ?db)\<lparr>v_files := sort_levels A\<rparr>) (vs_current vr)" if "files_agree files A" for A
  proof -
    have "files_agree (sort_levels A) (rs_files rs)"
      using that rs(2) by (meson files_agree_sort files_agree_sym files_agree_trans)
    then show ?thesis using dist files_distinct_agree [OF that] V(2,3)
      by (intro same_version_sorted [where A = "sort_levels A" and B = "rs_files rs"]) (simp_all add: Version_new_def)
  qed
  moreover have "vs_next_file_number vs \<le> vs_next_file_number vr"
    using V(6) rs(5) by (cases "rs_max_file_num rs = 0") (auto simp: word_gt_0)
  ultimately show ?thesis using V(1,4,5) rs(3,4) by auto
qed

lemma recover_torn:
  assumes rep: "manifest_rep vs w0 es" and e: "edit_ok edit vs"
    and w: "content w (CurrentFileName (vs_dbname vs)) = Some (current_line (vs_manifest_file_number vs))"
      "dir w (ManifestFileName (vs_dbname vs) (vs_manifest_file_number vs)) = Some i" "script w = []"
      "inodes w i = wal_log (map edit_rec es) @ take n (wal_frame (edit_rec (complete_edit edit vs)))"
    and n: "n < length (wal_frame (edit_rec (complete_edit edit vs)))"
  shows "\<exists>vr wr. VersionSet_Recover (VersionSet_new (vs_dbname vs) opts) w = Some (OK, vr, wr) \<and> recovered vs vr"
proof -
  obtain rs where rs: "replay_edits (map stored es) rs_start = Some rs" "files_agree (v_files (vs_current vs)) (rs_files rs)"
    "rs_log_num rs = vs_log_number vs"
    using rep by (auto simp: manifest_rep_def split: option.splits)
  have log: "rec_fits (edit_rec (complete_edit edit vs))" "\<forall>e \<in> set es. edit_logged e"
    using rep e by (auto simp: edit_ok_def edit_logged_def manifest_rep_def list_all_iff)
  obtain vr wr where V: "VersionSet_Recover (VersionSet_new (vs_dbname vs) opts) w = Some (OK, vr, wr)"
    "v_dbname (vs_current vr) = vs_dbname vs"
    "\<forall>l. map strip (v_files (vs_current vr) l) = map strip (sort_levels (rs_files rs) l)" "vs_log_number vr = rs_log_num rs"
    using Recover_log [OF w(1,2,4) log(1) n log(2) rs(1) w(3), of opts] by auto
  have "recovered vs vr"
    using same_version_sorted [OF rs(2), of "vs_current vr" "vs_current vs"] V rep rs(3)
    by (simp add: recovered_def manifest_rep_def)
  then show ?thesis using V(1) by blast
qed

section \<open>Starting a manifest\<close>

lemma snapshot_level:
  "fold (\<lambda>f. AddFile l (fm_number f) (fm_file_size f) (fm_smallest_key f) (fm_largest_key f) None) fs e
   = e\<lparr>ve_new_files := ve_new_files e @ map (\<lambda>f. (l, strip f)) fs\<rparr>"
proof (induction fs arbitrary: e)
  case (Cons f fs)
  have "strip f = \<lparr>fm_number = fm_number f, fm_file_size = fm_file_size f, fm_smallest_key = fm_smallest_key f,
      fm_largest_key = fm_largest_key f, fm_reader = None\<rparr>" by (cases f) (simp add: strip_def)
  then have "AddFile l (fm_number f) (fm_file_size f) (fm_smallest_key f) (fm_largest_key f) None e
      = e\<lparr>ve_new_files := ve_new_files e @ [(l, strip f)]\<rparr>" by (simp add: AddFile_def)
  then show ?case by (simp add: Cons.IH)
qed simp

lemma snapshot_levels:
  "fold (\<lambda>l. fold (\<lambda>f. AddFile (int l) (fm_number f) (fm_file_size f) (fm_smallest_key f) (fm_largest_key f) None) (V l)) ls e
   = e\<lparr>ve_new_files := ve_new_files e @ concat (map (\<lambda>l. map (\<lambda>f. (int l, strip f)) (V l)) ls)\<rparr>"
  by (induction ls arbitrary: e) (simp_all add: snapshot_level)

lemma snapshot_new_files:
  "ve_new_files (snapshot_edit vs) = concat (map (\<lambda>l. map (\<lambda>f. (int l, strip f)) (v_files (vs_current vs) l)) [0..<kNumLevels])"
  by (simp add: snapshot_edit_def snapshot_levels VersionEdit_new_def SetComparatorName_def SetNextFile_def
      Edit_SetLastSequence_def SetLogNumber_def)

lemma filter_levels:
  "distinct ls \<Longrightarrow> map snd (filter (\<lambda>n. fst n = int l) (concat (map (\<lambda>l. map (\<lambda>f. (int l, strip f)) (V l)) ls)))
   = (if l \<in> set ls then map strip (V l) else [])"
proof (induction ls)
  case (Cons k ls)
  have "map snd (filter (\<lambda>n. fst n = int l) (map (\<lambda>f. (int k, strip f)) fs)) = (if k = l then map strip fs else [])" for fs
    by (induction fs) auto
  then show ?case using Cons by (auto simp del: filter_map)
qed simp

lemma snapshot_replay:
  "\<exists>rs. replay_edits [stored (snapshot_edit vs)] rs_start = Some rs \<and> files_agree (v_files (vs_current vs)) (rs_files rs)
     \<and> rs_log_num rs = vs_log_number vs \<and> rs_max_seq rs \<le> vs_last_sequence vs"
proof -
  let ?e = "snapshot_edit vs" and ?V = "v_files (vs_current vs)"
  have f: "ve_has_last_sequence ?e" "ve_last_sequence ?e = vs_last_sequence vs" "ve_has_log_number ?e" "ve_log_number ?e = vs_log_number vs"
    by (simp_all add: snapshot_edit_def snapshot_levels VersionEdit_new_def SetComparatorName_def SetNextFile_def
        Edit_SetLastSequence_def SetLogNumber_def)
  have ns: "ve_new_files (stored ?e) = ve_new_files ?e"
    by (auto simp: stored_def snapshot_new_files strip_def map_concat o_def)
  have lev: "\<forall>n \<in> set (ve_new_files ?e). 0 \<le> fst n \<and> fst n < int kNumLevels" by (auto simp: snapshot_new_files)
  have d: "drop_deleted (stored ?e) (rs_files rs_start) = (\<lambda>_. [])" by (simp add: drop_deleted_def rs_start_def fun_eq_iff)
  have p: "place_files (ve_new_files (stored ?e)) (drop_deleted (stored ?e) (rs_files rs_start))
      = Some (\<lambda>l. if l < kNumLevels then map strip (?V l) else [])"
    unfolding ns d using lev by (simp add: place_files_eq snapshot_new_files filter_levels fun_eq_iff)
  have "files_agree ?V (\<lambda>l. if l < kNumLevels then map strip (?V l) else [])" by (simp add: files_agree_def o_def)
  then show ?thesis using f by (simp add: replay_edit_def p) (simp add: stored_def rs_start_def)
qed

text \<open>A manifest that is being started under a fresh name.\<close>

definition manifest_start :: "VersionSet \<Rightarrow> World \<Rightarrow> bool" where
  "manifest_start vs w \<longleftrightarrow> wf_world w \<and> vs_descriptor_log vs = None
     \<and> content w (ManifestFileName (vs_dbname vs) (vs_next_file_number vs)) = None
     \<and> v_dbname (vs_current vs) = vs_dbname vs
     \<and> files_sorted (v_files (vs_current vs)) \<and> files_distinct (v_files (vs_current vs))
     \<and> edit_logged (snapshot_edit (vs\<lparr>vs_next_file_number := vs_next_file_number vs + 1\<rparr>))"

lemma WalWriter_new_effect:
  assumes "wf_world w" and "WalWriter_new path w = (ww, w1)" and "content w path = None"
  shows "wf_world w1 \<and> only_changes {path} w w1 \<and> (\<forall>i. ww_fd ww = Some i \<longrightarrow> dir w1 path = Some i \<and> inodes w1 i = [])"
proof -
  obtain fd w0 where op: "sys_open_creat False path w = (fd, w0)" by fastforce
  note e = sys_open_creat_effect [OF assms(1) op]
  show ?thesis
  proof (cases fd)
    case None
    then show ?thesis using assms(2) op e(1,2) by (auto simp: WalWriter_new_def)
  next
    case (Some i)
    have i: "ww_fd ww = Some i" "w1 = w0\<lparr>script := tl (script w0)\<rparr>"
      using assms(2) op Some by (auto simp: WalWriter_new_def sys_fstat_size_def next_outcome_eq split: prod.splits)
    then show ?thesis using e(1,2) e(4,5) [OF Some] assms(3) by (auto simp: content_def)
  qed
qed

lemma append_first:
  assumes "wf_world w" and "WalWriter_new path w = (ww, w1)" and "content w path = None"
    and "AppendRecord ww seq type key val sync w1 = (s, ww', w2)"
  shows "wf_world w2 \<and> only_changes {path} w w2
    \<and> (ok s \<longrightarrow> (\<exists>i. ww_fd ww' = Some i \<and> dir w2 path = Some i \<and> inodes w2 i = wal_log [(seq, type, key, val)]))"
proof (cases "ww_fd ww")
  case None
  then show ?thesis using assms(4) WalWriter_new_effect [OF assms(1-3)] by (auto simp: AppendRecord_def)
next
  case (Some i)
  note e = WalWriter_new_effect [OF assms(1-3)]
  then have d: "dir w1 path = Some i" "inodes w1 i = []" using Some by auto
  from e have wf: "wf_world w1" by blast
  from AppendRecord_effect [OF wf Some d(1) assms(4)] show ?thesis
    using e d(2) only_changes_trans [of "{path}" w w1 "{path}" w2] by (auto simp: wal_log_def)
qed

lemma current_tmp_neq_manifest: "CurrentFileName db @ ''.tmp'' \<noteq> ManifestFileName db n"
  by (simp add: CurrentFileName_def ManifestFileName_eq)

lemma snapshot_edit_manifest [simp]: "snapshot_edit (vs\<lparr>vs_manifest_file_number := n\<rparr>) = snapshot_edit vs"
  by (simp add: snapshot_edit_def)

section \<open>Properties\<close>


text \<open>A failed write leaves a torn record behind.\<close>

definition sample_vs :: VersionSet where
  "sample_vs = (VersionSet_new ''d'' None)\<lparr>vs_manifest_file_number := 2, vs_next_file_number := 3,
     vs_descriptor_log := Some \<lparr>ww_filename = ''d/MANIFEST-000002'', ww_fd = Some 1, ww_file_size = 0\<rparr>\<rparr>"

definition sample_world :: World where
  "sample_world = \<lparr>dir = [CurrentFileName ''d'' \<mapsto> 0, ManifestFileName ''d'' 2 \<mapsto> 1],
     inodes = (\<lambda>_. [])(0 := current_line 2), next_inode = 2, script = [Short 5, Fail]\<rparr>"




end
