(* ===== verification/Compaction.thy ===== *)
theory Compaction
  imports Manifest DB_Iterator
begin

text \<open>
  Compaction (src/compaction.h, src/compaction.cc): choosing the inputs, merging them into new tables of the
  next level and logging the exchange.  The lemmas show that the chosen inputs contain everything of the next level
  they overlap with, which entries the merge keeps, and that what it drops is invisible to readers.

  The loop over the input iterator is a partial function, so that not returning is \<open>None\<close>; it returns on
  every iterator that stands at a position of a finite list of entries.
\<close>

record Compaction =
  c_level :: nat
  c_options :: Options
  c_inputs0 :: "FileMetaData list"
  c_inputs1 :: "FileMetaData list"

definition Compaction_new :: "Options \<Rightarrow> nat \<Rightarrow> Compaction" where
  "Compaction_new options level = \<lparr>c_level = level, c_options = options, c_inputs0 = [], c_inputs1 = []\<rparr>"

definition IsBaseLevelForKey :: "bytes \<Rightarrow> Version \<Rightarrow> Compaction \<Rightarrow> bool" where
  "IsBaseLevelForKey user_key current c \<longleftrightarrow>
     list_all (\<lambda>lvl. list_all (\<lambda>f. \<not> (user_key \<ge> fm_smallest_key f \<and> user_key \<le> fm_largest_key f)) (v_files current lvl))
       [c_level c + 2..<kNumLevels]"

definition key_range :: "FileMetaData list \<Rightarrow> bytes \<times> bytes \<Rightarrow> bytes \<times> bytes" where
  "key_range fs = fold (\<lambda>f (min_key, max_key).
     (if fm_smallest_key f < min_key then fm_smallest_key f else min_key,
      if fm_largest_key f > max_key then fm_largest_key f else max_key)) fs"

definition overlapping :: "bytes \<Rightarrow> bytes \<Rightarrow> FileMetaData list \<Rightarrow> FileMetaData list" where
  "overlapping min_key max_key fs = filter (\<lambda>f. \<not> (fm_largest_key f < min_key \<or> fm_smallest_key f > max_key)) fs"

definition pick_level0 :: "Options \<Rightarrow> Version \<Rightarrow> Compaction option" where
  "pick_level0 options current = (case v_files current 0 of
     [] \<Rightarrow> None
   | f # fs \<Rightarrow>
       (let (min_key, max_key) = key_range (f # fs) (fm_smallest_key f, fm_largest_key f)
        in Some ((Compaction_new options 0)\<lparr>c_inputs0 := f # fs,
             c_inputs1 := overlapping min_key max_key (v_files current 1)\<rparr>)))"

definition level_limit :: "nat \<Rightarrow> u64" where
  "level_limit lvl = push_bit (20 + (lvl - 1) * 2) 1"

fun pick_level :: "Options \<Rightarrow> Version \<Rightarrow> nat list \<Rightarrow> Compaction option" where
  "pick_level options current [] = None"
| "pick_level options current (lvl # lvls) =
     (if LevelBytes current lvl > level_limit lvl \<and> v_files current lvl \<noteq> []
      then let f = hd (v_files current lvl)
        in Some ((Compaction_new options lvl)\<lparr>c_inputs0 := [f],
             c_inputs1 := overlapping (fm_smallest_key f) (fm_largest_key f) (v_files current (lvl + 1))\<rparr>)
      else pick_level options current lvls)"

definition PickCompaction :: "Options \<Rightarrow> VersionSet \<Rightarrow> Compaction option" where
  "PickCompaction options vset =
     (let current = vs_current vset
      in if int (NumLevelFiles current 0) \<ge> max_level0_files options then pick_level0 options current
         else pick_level options current [1..<kNumLevels - 1])"

section \<open>Running a compaction\<close>

fun open_inputs ::
  "Options \<Rightarrow> string \<Rightarrow> FileMetaData list \<Rightarrow> World \<Rightarrow> (Status + TwoLevelIterator list) \<times> World" where
  "open_inputs options dbname [] w = (Inr [], w)"
| "open_inputs options dbname (f # fs) w =
     (let (res, f', w1) = open_reader options dbname f w
      in case res of
           Inl s \<Rightarrow> (Inl s, w1)
         | Inr r \<Rightarrow>
             (let (rest, w2) = open_inputs options dbname fs w1
              in (map_sum (\<lambda>s. s) (\<lambda>iters. TwoLevelIterator_new r # iters) rest, w2)))"

type_synonym OutputFile = FileMetaData

record CompactionState =
  cs_vset :: VersionSet
  cs_outputs :: "OutputFile list"
  cs_builder :: "SSTableBuilder option"
  cs_file_number :: u64
  cs_last_key :: "bytes option"

definition cs_start :: "VersionSet \<Rightarrow> CompactionState" where
  "cs_start vset = \<lparr>cs_vset = vset, cs_outputs = [], cs_builder = None, cs_file_number = 0, cs_last_key = None\<rparr>"

definition OpenNewOutputFile :: "Options \<Rightarrow> string \<Rightarrow> CompactionState \<Rightarrow> World \<Rightarrow> CompactionState \<times> World" where
  "OpenNewOutputFile options dbname st w =
     (let (n, vset) = NewFileNumber (cs_vset st);
          (b, w1) = SSTableBuilder_new options (TableFileName dbname n) w
      in (st\<lparr>cs_vset := vset, cs_file_number := n, cs_builder := Some b\<rparr>, w1))"

definition FinishOutputFile :: "Options \<Rightarrow> string \<Rightarrow> CompactionState \<Rightarrow> World \<Rightarrow> Status \<times> CompactionState \<times> World" where
  "FinishOutputFile options dbname st w = (case cs_builder st of
     None \<Rightarrow> (OK, st, w)
   | Some b \<Rightarrow>
       if sb_num_entries b > 0
       then let (s, b', w1) = SSTableBuilder_Finish b w
         in if \<not> ok s then (s, st\<lparr>cs_builder := Some b'\<rparr>, w1)
            else let path = TableFileName dbname (cs_file_number st);
                     (res, w2) = SSTableReader_Open options path (cs_file_number st) (sb_offset b') w1
              in case res of
                   Inl s_open \<Rightarrow> (s_open, st\<lparr>cs_builder := Some b'\<rparr>, w2)
                 | Inr r \<Rightarrow>
                     (let out = \<lparr>fm_number = cs_file_number st, fm_file_size = sb_offset b',
                           fm_smallest_key = sb_smallest_key b', fm_largest_key = sb_largest_key b', fm_reader = Some r\<rparr>
                      in (OK, st\<lparr>cs_outputs := cs_outputs st @ [out], cs_builder := None\<rparr>, w2))
       else (OK, st\<lparr>cs_builder := None\<rparr>, w))"

text \<open>The body of the loop, for the entry the input iterator stands at.\<close>

definition emit_entry :: "Options \<Rightarrow> string \<Rightarrow> MemtableEntry \<Rightarrow> CompactionState \<Rightarrow> World \<Rightarrow> Status \<times> CompactionState \<times> World" where
  "emit_entry options dbname e st w =
     (let (st1, w1) = (if cs_builder st = None then OpenNewOutputFile options dbname st w else (st, w));
          (b, w2) = SSTableBuilder_Add (e_seq e) (e_type e) (e_key e) (e_value e) (the (cs_builder st1)) w1;
          st2 = st1\<lparr>cs_builder := Some b\<rparr>
      in if unat (sb_offset b) \<ge> max_file_size options then FinishOutputFile options dbname st2 w2 else (OK, st2, w2))"

definition compact_entry ::
  "Options \<Rightarrow> string \<Rightarrow> Compaction \<Rightarrow> MemtableEntry \<Rightarrow> CompactionState \<Rightarrow> World \<Rightarrow> Status \<times> CompactionState \<times> World" where
  "compact_entry options dbname c e st w =
     (if cs_last_key st = Some (e_key e) then (OK, st, w)
      else let st1 = st\<lparr>cs_last_key := Some (e_key e)\<rparr>
        in if e_type e = kTypeDeletion \<and> IsBaseLevelForKey (e_key e) (vs_current (cs_vset st1)) c then (OK, st1, w)
           else emit_entry options dbname e st1 w)"

partial_function (option) compact_loop ::
  "Options \<Rightarrow> string \<Rightarrow> Compaction \<Rightarrow> MergingIterator \<Rightarrow> CompactionState \<Rightarrow> env \<Rightarrow> (Status \<times> CompactionState \<times> env) option" where
  "compact_loop options dbname c it st env =
     (if mg_Valid it
      then let (s, st1, w1) = compact_entry options dbname c (mg_Entry it) st (snd env)
        in if \<not> ok s then Some (s, st1, fst env, w1)
           else Option.bind (mg_Next it (fst env, w1)) (\<lambda>(it', env'). compact_loop options dbname c it' st1 env')
      else Some (OK, st, env))"

definition compaction_edit :: "Compaction \<Rightarrow> OutputFile list \<Rightarrow> VersionEdit" where
  "compaction_edit c outputs =
     fold (\<lambda>out. AddFile (int (c_level c + 1)) (fm_number out) (fm_file_size out) (fm_smallest_key out) (fm_largest_key out) (fm_reader out)) outputs
       (fold (\<lambda>f. DeleteFile (int (c_level c + 1)) (fm_number f)) (c_inputs1 c)
         (fold (\<lambda>f. DeleteFile (int (c_level c)) (fm_number f)) (c_inputs0 c) VersionEdit_new))"

definition unlink_inputs :: "string \<Rightarrow> FileMetaData list \<Rightarrow> World \<Rightarrow> World" where
  "unlink_inputs dbname fs w = fold (\<lambda>f. sys_unlink (TableFileName dbname (fm_number f))) fs w"

definition install_compaction ::
  "string \<Rightarrow> Compaction \<Rightarrow> CompactionState \<Rightarrow> World \<Rightarrow> (Status \<times> VersionSet \<times> World) option" where
  "install_compaction dbname c st w = do {
     let (_, w1) = SyncDirectory dbname w;
     (s, vset, w2) \<leftarrow> LogAndApply (compaction_edit c (cs_outputs st)) (cs_vset st) w1;
     Some (if \<not> ok s then (s, vset, w2)
       else let w3 = unlink_inputs dbname (c_inputs0 c @ c_inputs1 c) w2;
                (_, w4) = SyncDirectory dbname w3
         in (OK, vset, w4))
   }"

definition DoCompaction ::
  "Options \<Rightarrow> string \<Rightarrow> VersionSet \<Rightarrow> Compaction \<Rightarrow> env \<Rightarrow> (Status \<times> VersionSet \<times> env) option" where
  "DoCompaction options dbname vset c env =
     (let (res, w1) = open_inputs options dbname (c_inputs0 c @ c_inputs1 c) (snd env)
      in case res of
           Inl s \<Rightarrow> Some (s, vset, fst env, w1)
         | Inr iters \<Rightarrow>
             (case NewMergingIterator (map TableChild iters) of
                None \<Rightarrow> Some (OK, vset, fst env, w1)
              | Some it \<Rightarrow> do {
                  (it1, env1) \<leftarrow> mg_SeekToFirst it (fst env, w1);
                  (s, st, env2) \<leftarrow> compact_loop options dbname c it1 (cs_start vset) env1;
                  if \<not> ok s then Some (s, cs_vset st, env2)
                  else let (s1, st1, w3) = FinishOutputFile options dbname st (snd env2)
                    in if \<not> ok s1 then Some (s1, cs_vset st1, fst env2, w3)
                       else do {
                         (s2, vset2, w4) \<leftarrow> install_compaction dbname c st1 w3;
                         Some (s2, vset2, fst env2, w4)
                       }
                }))"

section \<open>The chosen inputs\<close>

definition ranges_meet :: "FileMetaData \<Rightarrow> FileMetaData \<Rightarrow> bool" where
  "ranges_meet f g \<longleftrightarrow> fm_smallest_key g \<le> fm_largest_key f \<and> fm_smallest_key f \<le> fm_largest_key g"

lemma key_range_bounds:
  "fst (key_range fs (a, b)) \<le> a \<and> b \<le> snd (key_range fs (a, b))
   \<and> (\<forall>f \<in> set fs. fst (key_range fs (a, b)) \<le> fm_smallest_key f \<and> fm_largest_key f \<le> snd (key_range fs (a, b)))"
proof (induction fs arbitrary: a b)
  case (Cons f fs)
  let ?a = "if fm_smallest_key f < a then fm_smallest_key f else a" and ?b = "if fm_largest_key f > b then fm_largest_key f else b"
  have "key_range (f # fs) (a, b) = key_range fs (?a, ?b)" by (simp add: key_range_def)
  then show ?case using Cons.IH [of ?a ?b] by (auto split: if_splits)
qed (simp add: key_range_def)

lemma overlapping_meet:
  assumes "g \<in> set fs" and "ranges_meet f g" and "min_key \<le> fm_smallest_key f" and "fm_largest_key f \<le> max_key"
  shows "g \<in> set (overlapping min_key max_key fs)"
  using assms by (auto simp: overlapping_def ranges_meet_def)

text \<open>What a compaction may rely on: inputs of two adjacent levels, closed under overlap in the lower one.\<close>

definition inputs_ok :: "Version \<Rightarrow> Compaction \<Rightarrow> bool" where
  "inputs_ok v c \<longleftrightarrow> c_level c + 1 < kNumLevels \<and> c_inputs0 c \<noteq> []
     \<and> (if c_level c = 0 then c_inputs0 c = v_files v 0 else c_inputs0 c = take 1 (v_files v (c_level c)))
     \<and> subseq (c_inputs1 c) (v_files v (c_level c + 1))
     \<and> (\<forall>f \<in> set (c_inputs0 c). \<forall>g \<in> set (v_files v (c_level c + 1)). ranges_meet f g \<longrightarrow> g \<in> set (c_inputs1 c))"

lemma pick_level_ok:
  "pick_level options v lvls = Some c \<Longrightarrow> \<forall>l \<in> set lvls. 0 < l \<and> l + 1 < kNumLevels \<Longrightarrow> inputs_ok v c"
proof (induction lvls)
  case (Cons l lvls)
  show ?case
  proof (cases "LevelBytes v l > level_limit l \<and> v_files v l \<noteq> []")
    case True
    then obtain f fs where f: "v_files v l = f # fs" by (cases "v_files v l") auto
    have c: "c = (Compaction_new options l)\<lparr>c_inputs0 := [f],
        c_inputs1 := overlapping (fm_smallest_key f) (fm_largest_key f) (v_files v (l + 1))\<rparr>"
      using Cons.prems(1) True f by simp
    have "g \<in> set (overlapping (fm_smallest_key f) (fm_largest_key f) (v_files v (l + 1)))"
      if "g \<in> set (v_files v (l + 1))" "ranges_meet f g" for g
      using overlapping_meet [OF that] by simp
    then show ?thesis using Cons.prems(2) f
      unfolding inputs_ok_def c by (simp add: Compaction_new_def overlapping_def)
  next
    case False
    then have "pick_level options v lvls = Some c" using Cons.prems(1) by (metis pick_level.simps(2))
    then show ?thesis using Cons.IH Cons.prems(2) by simp
  qed
qed simp

lemma pick_level0_ok: "pick_level0 options v = Some c \<Longrightarrow> inputs_ok v c"
proof -
  assume p: "pick_level0 options v = Some c"
  then obtain f fs where f: "v_files v 0 = f # fs" by (auto simp: pick_level0_def split: list.splits)
  obtain a b where ab: "key_range (f # fs) (fm_smallest_key f, fm_largest_key f) = (a, b)" by fastforce
  have c: "c = (Compaction_new options 0)\<lparr>c_inputs0 := f # fs, c_inputs1 := overlapping a b (v_files v 1)\<rparr>"
    using p by (simp add: pick_level0_def f ab)
  have r: "a \<le> fm_smallest_key x" "fm_largest_key x \<le> b" if "x \<in> set (f # fs)" for x
    using key_range_bounds [of "f # fs" "fm_smallest_key f" "fm_largest_key f"] that unfolding ab by auto
  have "g \<in> set (overlapping a b (v_files v 1))" if "x \<in> set (f # fs)" "g \<in> set (v_files v 1)" "ranges_meet x g" for x g
    using overlapping_meet [OF that(2,3) r [OF that(1)]] .
  then show ?thesis using f unfolding inputs_ok_def c by (simp add: Compaction_new_def overlapping_def kNumLevels_def)
qed

section \<open>What the merge keeps\<close>

fun kept :: "(bytes \<Rightarrow> bool) \<Rightarrow> bytes option \<Rightarrow> MemtableEntry list \<Rightarrow> MemtableEntry list" where
  "kept base prev [] = []"
| "kept base prev (e # es) =
     (if prev = Some (e_key e) then kept base prev es
      else if e_type e = kTypeDeletion \<and> base (e_key e) then kept base (Some (e_key e)) es
      else e # kept base (Some (e_key e)) es)"

text \<open>Every entry is visible at \<open>seq\<close>.\<close>

definition all_seen :: "SequenceNumber \<Rightarrow> MemtableEntry list \<Rightarrow> bool" where
  "all_seen seq es \<longleftrightarrow> (\<forall>e \<in> set es. e_seq e \<le> seq \<and> (e_type e = kTypeValue \<or> e_type e = kTypeDeletion))"

lemma find_kept:
  assumes "keys_sorted es" and "all_seen seq es" and "\<forall>k. prev = Some k \<longrightarrow> (\<forall>e \<in> set es. k \<le> e_key e)"
  shows "find (readable key seq) (kept base prev es) =
    (if prev = Some key then None
     else case find (readable key seq) es of
       None \<Rightarrow> None | Some e \<Rightarrow> if e_type e = kTypeDeletion \<and> base key then None else Some e)"
  using assms
proof (induction es arbitrary: prev)
  case (Cons e es)
  have s: "keys_sorted es" "\<forall>x \<in> set es. e_key e \<le> e_key x" "all_seen seq es"
    using Cons.prems(1,2) by (simp_all add: keys_sorted_Cons all_seen_def)
  have r: "readable key seq e \<longleftrightarrow> e_key e = key" using Cons.prems(2) by (auto simp: readable_def all_seen_def)
  show ?case
  proof (cases "prev = Some (e_key e)")
    case True
    then show ?thesis using Cons.IH [of prev] s r by auto
  next
    case False
    have none: "find (readable key seq) es = None" if "prev = Some key"
    proof -
      have "key \<le> e_key e" using Cons.prems(3) that by simp
      then have "\<forall>x \<in> set es. e_key x \<noteq> key" using False that s(2) by force
      then show ?thesis by (auto simp: find_None_iff readable_def)
    qed
    have "find (readable key seq) (kept base (Some (e_key e)) es) =
      (if Some (e_key e) = Some key then None
       else case find (readable key seq) es of
         None \<Rightarrow> None | Some e \<Rightarrow> if e_type e = kTypeDeletion \<and> base key then None else Some e)"
      using Cons.IH [of "Some (e_key e)"] s by simp
    then show ?thesis using False none r by auto
  qed
qed simp

lemma keys_sorted_kept: "keys_sorted es \<Longrightarrow> keys_sorted (kept base prev es)"
proof -
  have "subseq (kept base prev es) es" for prev by (induction es arbitrary: prev) (auto intro: subseq_order.order_trans)
  then show "keys_sorted es \<Longrightarrow> keys_sorted (kept base prev es)"
    unfolding keys_sorted_def by (meson sorted_wrt_subseq subseq_map)
qed

lemma kept_view:
  assumes "keys_sorted es" and "all_seen seq es" and "base key \<longrightarrow> (\<forall>e \<in> set older. e_key e \<noteq> key)"
  shows "visible_value (find (readable key seq) (newer @ kept base None es @ older))
    = visible_value (find (readable key seq) (newer @ es @ older))"
proof (cases "find (readable key seq) newer")
  case None
  have o: "find (readable key seq) older = None" if "base key"
    using assms(3) that by (auto simp: find_None_iff readable_def)
  show ?thesis using None o find_kept [OF assms(1,2), of None key base]
    by (auto simp: find_append visible_value_def kTypeValue_def kTypeDeletion_def split: option.splits)
qed (simp add: find_append)

section \<open>An output file that cannot be created\<close>

text \<open>The builder of such a file refuses every entry, so it stays empty and counts as finished.\<close>

definition dead_output :: "CompactionState \<Rightarrow> bool" where
  "dead_output st \<longleftrightarrow> cs_outputs st = [] \<and> (\<exists>b. cs_builder st = Some b \<and> \<not> ok (sb_status b) \<and> sb_num_entries b = 0 \<and> sb_offset b = 0)"

lemma dead_open:
  assumes "outcome_of w = Fail" and "OpenNewOutputFile options dbname st w = (st', w')" and "cs_outputs st = []"
  shows "dead_output st'"
  using assms by (auto simp: OpenNewOutputFile_def NewFileNumber_def SSTableBuilder_new_def sys_open_creat_def next_outcome_eq dead_output_def
      ok_def IOError_def)

lemma dead_emit:
  assumes "dead_output st" and "0 < max_file_size options"
  shows "emit_entry options dbname e st w = (OK, st, w)"
  using assms by (auto simp: dead_output_def emit_entry_def Add_not_ok)

lemma dead_finish:
  assumes "dead_output st"
  shows "FinishOutputFile options dbname st w = (OK, st\<lparr>cs_builder := None\<rparr>, w)"
  using assms by (auto simp: dead_output_def FinishOutputFile_def)

lemma dead_entry:
  assumes "dead_output st" and "0 < max_file_size options"
  shows "\<exists>st'. compact_entry options dbname c e st w = (OK, st', w) \<and> dead_output st'"
proof -
  have d: "dead_output (st\<lparr>cs_last_key := k\<rparr>)" for k using assms(1) by (simp add: dead_output_def)
  show ?thesis using d dead_emit [OF d assms(2)] assms(1) by (auto simp: compact_entry_def Let_def)
qed

lemma dead_loop:
  assumes "mg_at tabs it es i" and "env_ok tabs env" and "dead_output st" and max: "0 < max_file_size options"
  shows "\<exists>st' env'. compact_loop options dbname c it st env = Some (OK, st', env') \<and> dead_output st'"
  using assms(1-3)
proof (induction "length es - i" arbitrary: it i env st)
  case 0
  then have "\<not> mg_Valid it" using mg_at_basic(2,3) [OF 0(2)] by simp
  then show ?case using 0(4) by (subst compact_loop.simps) simp
next
  case (Suc n)
  then have i: "i < length es" by simp
  obtain st1 where s: "compact_entry options dbname c (mg_Entry it) st (snd env) = (OK, st1, snd env)" "dead_output st1"
    using dead_entry [OF Suc.prems(3) max] by blast
  obtain it' env' where n: "mg_Next it env = Some (it', env')" "mg_at tabs it' es (Suc i)" "env_ok tabs env'"
    using mg_next [OF Suc.prems(1) i Suc.prems(2)] by blast
  have "compact_loop options dbname c it st env = compact_loop options dbname c it' st1 env'"
    using mg_at_basic(3) [OF Suc.prems(1)] i s(1) n(1) by (subst compact_loop.simps) simp
  moreover have "n = length es - Suc i" using Suc.hyps(2) by simp
  ultimately show ?case using Suc.hyps(1) [OF _ n(2,3) s(2)] by simp
qed

lemma compaction_edit_deletes:
  "set (ve_deleted_files (compaction_edit c outs)) =
     (\<lambda>f. (int (c_level c), fm_number f)) ` set (c_inputs0 c) \<union> (\<lambda>f. (int (c_level c + 1), fm_number f)) ` set (c_inputs1 c)"
  "ve_new_files (compaction_edit c outs) = map (\<lambda>f. (int (c_level c + 1), f)) outs"
proof -
  have del: "set (ve_deleted_files (fold (\<lambda>f. DeleteFile l (fm_number f)) fs e)) = (\<lambda>f. (l, fm_number f)) ` set fs \<union> set (ve_deleted_files e)"
    "ve_new_files (fold (\<lambda>f. DeleteFile l (fm_number f)) fs e) = ve_new_files e" for l fs e
    by (induction fs arbitrary: e) (auto simp: DeleteFile_def set_insort_insert)
  have add: "ve_deleted_files (fold (\<lambda>f. AddFile l (fm_number f) (fm_file_size f) (fm_smallest_key f) (fm_largest_key f) (fm_reader f)) fs e)
      = ve_deleted_files e"
    "ve_new_files (fold (\<lambda>f. AddFile l (fm_number f) (fm_file_size f) (fm_smallest_key f) (fm_largest_key f) (fm_reader f)) fs e)
      = ve_new_files e @ map (\<lambda>f. (l, f)) fs" for l fs e
    by (induction fs arbitrary: e) (simp_all add: AddFile_def)
  show "set (ve_deleted_files (compaction_edit c outs)) =
     (\<lambda>f. (int (c_level c), fm_number f)) ` set (c_inputs0 c) \<union> (\<lambda>f. (int (c_level c + 1), fm_number f)) ` set (c_inputs1 c)"
    unfolding compaction_edit_def add del by (auto simp: VersionEdit_new_def)
  show "ve_new_files (compaction_edit c outs) = map (\<lambda>f. (int (c_level c + 1), f)) outs"
    unfolding compaction_edit_def add del by (simp add: VersionEdit_new_def)
qed

section \<open>Properties\<close>

text \<open>C37: A compaction is chosen with complete inputs: they come from one level and the next, all of level 0 or the
  first file of a deeper level, and every file of the next level whose key range meets the range of a chosen file is
  chosen too, so no version of a key is moved past an older one that stays behind.\<close>

theorem pick_compaction_complete:
  assumes "PickCompaction options vset = Some c"
  shows "inputs_ok (vs_current vset) c"
  using assms pick_level0_ok pick_level_ok [of options "vs_current vset" "[1..<kNumLevels - 1]" c]
  by (auto simp: PickCompaction_def Let_def kNumLevels_def split: if_splits)

definition sample_file :: "u64 \<Rightarrow> bytes \<Rightarrow> bytes \<Rightarrow> FileMetaData" where
  "sample_file n a b = \<lparr>fm_number = n, fm_file_size = 99, fm_smallest_key = a, fm_largest_key = b, fm_reader = None\<rparr>"

definition sample_levels :: VersionSet where
  "sample_levels = (VersionSet_new ''d'' None)\<lparr>vs_current := (Version_new ''d'')\<lparr>v_files :=
     (\<lambda>_. [])(0 := [sample_file 5 [98] [99]], 1 := [sample_file 3 [97] [97], sample_file 4 [98] [98]])\<rparr>\<rparr>"

theorem pick_compaction_complete_witness:
  "PickCompaction (default_options\<lparr>max_level0_files := 1\<rparr>) sample_levels = Some \<lparr>c_level = 0, c_options = default_options\<lparr>max_level0_files := 1\<rparr>,
       c_inputs0 = [sample_file 5 [98] [99]], c_inputs1 = [sample_file 4 [98] [98]]\<rparr>
   \<and> inputs_ok (vs_current sample_levels) \<lparr>c_level = 0, c_options = default_options\<lparr>max_level0_files := 1\<rparr>,
       c_inputs0 = [sample_file 5 [98] [99]], c_inputs1 = [sample_file 4 [98] [98]]\<rparr>"
proof -
  have "PickCompaction (default_options\<lparr>max_level0_files := 1\<rparr>) sample_levels = Some \<lparr>c_level = 0, c_options = default_options\<lparr>max_level0_files := 1\<rparr>,
       c_inputs0 = [sample_file 5 [98] [99]], c_inputs1 = [sample_file 4 [98] [98]]\<rparr>"
    by (simp add: PickCompaction_def sample_levels_def NumLevelFiles_def pick_level0_def key_range_def overlapping_def Compaction_new_def sample_file_def)
  with pick_compaction_complete [OF this] show ?thesis by simp
qed





end
