(* ===== verification/DB_Impl.thy ===== *)
theory DB_Impl
  imports Compaction
begin

text \<open>
  The database (src/db_impl.h, src/db_impl.cc): writes, reads, flushes, background work and recovery, composed
  from the log, the memtables, the version set and compaction.

  The mutex makes each operation, and each stretch of one between two waits on a condition variable, atomic; so an
  operation is a function on the state, and a wait is the result \<open>Waits\<close>.  The names that \<^verbatim>\<open>readdir\<close>
  returns are an argument, in the order in which it returns them, with \<open>None\<close> when the directory cannot be
  opened.  A null pointer, an uncaught exception and a failed assertion are \<open>None\<close>.
\<close>

record DBImpl =
  db_options :: Options
  db_dbname :: string
  db_lock_fd :: fd
  db_block_cache :: BlockCache
  db_versions :: VersionSet
  db_mem :: "Memtable option"
  db_imm :: "Memtable option"
  db_wal_writer :: "WalWriter option"
  db_log_file_number :: u64
  db_shutting_down :: bool

datatype 'a wait_result = Waits | Returns 'a

definition DBImpl_new :: "Options \<Rightarrow> string \<Rightarrow> DBImpl" where
  "DBImpl_new options dbname =
     \<lparr>db_options = options, db_dbname = dbname, db_lock_fd = None,
      db_block_cache = BlockCache_new (block_cache_capacity_bytes options),
      db_versions = VersionSet_new dbname (Some options), db_mem = None, db_imm = None, db_wal_writer = None,
      db_log_file_number = 0, db_shutting_down = False\<rparr>"

text \<open>The destructor, after the background thread was joined.\<close>

definition DBImpl_destroy :: "DBImpl \<Rightarrow> DBImpl" where
  "DBImpl_destroy db = db\<lparr>db_shutting_down := True,
     db_wal_writer := map_option WalWriter_Close (db_wal_writer db), db_lock_fd := None\<rparr>"

section \<open>Writing\<close>

text \<open>The active memtable becomes the immutable one and a new log is started.\<close>

definition switch_memtable :: "DBImpl \<Rightarrow> World \<Rightarrow> DBImpl \<times> World" where
  "switch_memtable db w =
     (let (n, vset) = NewFileNumber (db_versions db);
          (writer, w1) = WalWriter_new (LogFileName (db_dbname db) n) w
      in (db\<lparr>db_imm := db_mem db, db_mem := Some Memtable_new, db_versions := vset,
            db_log_file_number := n, db_wal_writer := Some writer\<rparr>, w1))"

definition MakeRoomForWrite :: "DBImpl \<Rightarrow> World \<Rightarrow> (DBImpl \<times> World) wait_result option" where
  "MakeRoomForWrite db w = do {
     mem \<leftarrow> db_mem db;
     Some (if unat (ApproximateMemoryUsage mem) < write_buffer_size (db_options db) then Returns (db, w)
       else if db_imm db \<noteq> None then Waits
       else Returns (switch_memtable db w))
   }"

definition write_record ::
  "(nat \<Rightarrow> nat) \<Rightarrow> ValueType \<Rightarrow> bytes \<Rightarrow> bytes \<Rightarrow> DBImpl \<Rightarrow> World \<Rightarrow> (Status \<times> DBImpl \<times> World) option" where
  "write_record dist type key val db w = do {
     writer \<leftarrow> db_wal_writer db;
     let seq = vs_last_sequence (db_versions db) + 1;
     let (s, writer', w1) = AppendRecord writer seq type key val (opt_sync (db_options db)) w;
     let db1 = db\<lparr>db_wal_writer := Some writer'\<rparr>;
     if \<not> ok s then Some (s, db1, w1)
     else do {
       mem \<leftarrow> db_mem db1;
       mem' \<leftarrow> Memtable_Add dist seq type key val mem;
       Some (OK, db1\<lparr>db_mem := Some mem', db_versions := SetLastSequence seq (db_versions db1)\<rparr>, w1)
     }
   }"

definition Put :: "(nat \<Rightarrow> nat) \<Rightarrow> bytes \<Rightarrow> bytes \<Rightarrow> DBImpl \<Rightarrow> World \<Rightarrow> (Status \<times> DBImpl \<times> World) wait_result option" where
  "Put dist key val db w = do {
     room \<leftarrow> MakeRoomForWrite db w;
     case room of
       Waits \<Rightarrow> Some Waits
     | Returns (db1, w1) \<Rightarrow> do { r \<leftarrow> write_record dist kTypeValue key val db1 w1; Some (Returns r) }
   }"

definition Delete :: "(nat \<Rightarrow> nat) \<Rightarrow> bytes \<Rightarrow> DBImpl \<Rightarrow> World \<Rightarrow> (Status \<times> DBImpl \<times> World) wait_result option" where
  "Delete dist key db w = do {
     room \<leftarrow> MakeRoomForWrite db w;
     case room of
       Waits \<Rightarrow> Some Waits
     | Returns (db1, w1) \<Rightarrow> do { r \<leftarrow> write_record dist kTypeDeletion key [] db1 w1; Some (Returns r) }
   }"

section \<open>Reading\<close>

text \<open>What a read takes under the lock: the memtables, the version and the last sequence number.\<close>

record ReadState =
  rd_mem :: Memtable
  rd_imm :: "Memtable option"
  rd_version :: Version
  rd_seq :: SequenceNumber

definition read_state :: "DBImpl \<Rightarrow> ReadState option" where
  "read_state db = do {
     mem \<leftarrow> db_mem db;
     Some \<lparr>rd_mem = mem, rd_imm = db_imm db, rd_version = vs_current (db_versions db), rd_seq = vs_last_sequence (db_versions db)\<rparr>
   }"

definition get_at :: "Options \<Rightarrow> bytes \<Rightarrow> ReadState \<Rightarrow> env \<Rightarrow> ((Status \<times> bytes option) \<times> Version \<times> env) option" where
  "get_at options key rd env = do {
     r1 \<leftarrow> Memtable_Get key (rd_seq rd) (rd_mem rd);
     case r1 of Some res \<Rightarrow> Some (res, rd_version rd, env) | None \<Rightarrow> do {
       r2 \<leftarrow> (case rd_imm rd of None \<Rightarrow> Some None | Some imm \<Rightarrow> Memtable_Get key (rd_seq rd) imm);
       case r2 of Some res \<Rightarrow> Some (res, rd_version rd, env) | None \<Rightarrow> do {
         (r3, v, env') \<leftarrow> Version_Get options key (rd_seq rd) (rd_version rd) env;
         Some (case r3 of Some res \<Rightarrow> res | None \<Rightarrow> (NotFound '''', None), v, env')
       }
     }
   }"

text \<open>Tables opened on the way stay open in the version; the block cache is shared.\<close>

definition keep_open :: "Version \<Rightarrow> env \<Rightarrow> DBImpl \<Rightarrow> DBImpl" where
  "keep_open v env db = db\<lparr>db_versions := (db_versions db)\<lparr>vs_current := v\<rparr>,
     db_block_cache := (case fst env of None \<Rightarrow> db_block_cache db | Some c \<Rightarrow> c)\<rparr>"

definition Get :: "bytes \<Rightarrow> DBImpl \<Rightarrow> World \<Rightarrow> ((Status \<times> bytes option) \<times> DBImpl \<times> World) option" where
  "Get key db w = do {
     rd \<leftarrow> read_state db;
     (res, v, env) \<leftarrow> get_at (db_options db) key rd (Some (db_block_cache db), w);
     Some (res, keep_open v env db, snd env)
   }"

definition iterator_at :: "Options \<Rightarrow> ReadState \<Rightarrow> World \<Rightarrow> DBIterator \<times> Version \<times> World" where
  "iterator_at options rd w =
     (let (table_iters, v, w1) = AddIterators options (rd_version rd) w;
          iters = MemChild (Memtable_NewIterator (rd_mem rd))
            # (case rd_imm rd of None \<Rightarrow> [] | Some imm \<Rightarrow> [MemChild (Memtable_NewIterator imm)])
            @ map TableChild table_iters
      in (DBIterator_new (NewMergingIterator iters) (rd_seq rd), v, w1))"

definition NewIterator :: "DBImpl \<Rightarrow> World \<Rightarrow> (DBIterator \<times> DBImpl \<times> World) option" where
  "NewIterator db w = do {
     rd \<leftarrow> read_state db;
     let (it, v, w1) = iterator_at (db_options db) rd w;
     Some (it, keep_open v (None, w1) db, w1)
   }"

section \<open>Flushing\<close>

partial_function (option) flush_loop :: "MemTableIterator \<Rightarrow> SSTableBuilder \<Rightarrow> World \<Rightarrow> (SSTableBuilder \<times> World) option" where
  "flush_loop it b w =
     (if mi_Valid it
      then let e = mi_Entry it;
               (b1, w1) = SSTableBuilder_Add (e_seq e) (e_type e) (e_key e) (e_value e) b w
        in Option.bind (mi_Next it) (\<lambda>it'. flush_loop it' b1 w1)
      else Some (b, w))"

definition WriteLevel0Table :: "Memtable \<Rightarrow> VersionEdit \<Rightarrow> DBImpl \<Rightarrow> World \<Rightarrow> (Status \<times> VersionEdit \<times> DBImpl \<times> World) option" where
  "WriteLevel0Table mem edit db w = do {
     let (file_num, vset) = NewFileNumber (db_versions db);
     let db1 = db\<lparr>db_versions := vset\<rparr>;
     let sst_path = TableFileName (db_dbname db) file_num;
     let (b, w1) = SSTableBuilder_new (db_options db) sst_path w;
     it \<leftarrow> mi_SeekToFirst (Memtable_NewIterator mem);
     (b1, w2) \<leftarrow> flush_loop it b w1;
     let (s, b2, w3) = SSTableBuilder_Finish b1 w2;
     if \<not> ok s then Some (s, edit, db1, w3)
     else let (res, w4) = SSTableReader_Open (db_options db) sst_path file_num (sb_offset b2) w3
       in case res of
            Inl s_open \<Rightarrow> Some (s_open, edit, db1, w4)
          | Inr reader \<Rightarrow>
              (let edit' = AddFile 0 file_num (sb_offset b2) (sb_smallest_key b2) (sb_largest_key b2) (Some reader) edit;
                   (_, w5) = SyncDirectory (db_dbname db) w4
               in Some (OK, edit', db1, w5))
   }"

definition db_LogAndApply :: "VersionEdit \<Rightarrow> DBImpl \<Rightarrow> World \<Rightarrow> (Status \<times> DBImpl \<times> World) option" where
  "db_LogAndApply edit db w = do {
     (s, vset, w1) \<leftarrow> LogAndApply edit (db_versions db) w;
     Some (s, db\<lparr>db_versions := vset\<rparr>, w1)
   }"

text \<open>Up to the wait for the background thread, which comes when an immutable memtable is left.\<close>

definition FlushMemTable :: "DBImpl \<Rightarrow> World \<Rightarrow> (Status wait_result \<times> DBImpl \<times> World) option" where
  "FlushMemTable db w = do {
     mem \<leftarrow> db_mem db;
     if Memtable_Count mem = 0 \<and> db_imm db = None then Some (Returns OK, db, w)
     else let (db1, w1) = (if Memtable_Count mem > 0 then switch_memtable db w else (db, w))
       in Some (if db_imm db1 \<noteq> None then Waits else Returns OK, db1, w1)
   }"

section \<open>Background work\<close>

fun remove_obsolete :: "string \<Rightarrow> u64 set \<Rightarrow> string list \<Rightarrow> World \<Rightarrow> World option" where
  "remove_obsolete dbname live [] w = Some w"
| "remove_obsolete dbname live (fname # names) w =
     (if length fname > 4 \<and> drop (length fname - 4) fname = ''.sst''
      then do {
        num \<leftarrow> stoull (take (length fname - 4) fname);
        remove_obsolete dbname live names (if num \<notin> live then sys_unlink (dbname @ ''/'' @ fname) w else w)
      }
      else remove_obsolete dbname live names w)"

definition RemoveObsoleteFiles :: "string list option \<Rightarrow> DBImpl \<Rightarrow> World \<Rightarrow> World option" where
  "RemoveObsoleteFiles names db w = (case names of
     None \<Rightarrow> Some w
   | Some fnames \<Rightarrow> remove_obsolete (db_dbname db) (AddLiveFiles (db_versions db)) fnames w)"

definition db_DoCompaction :: "Compaction \<Rightarrow> DBImpl \<Rightarrow> World \<Rightarrow> (Status \<times> DBImpl \<times> World) option" where
  "db_DoCompaction c db w = do {
     (s, vset, env) \<leftarrow> DoCompaction (db_options db) (db_dbname db) (db_versions db) c (Some (db_block_cache db), w);
     Some (s, db\<lparr>db_versions := vset, db_block_cache := (case fst env of None \<Rightarrow> db_block_cache db | Some b \<Rightarrow> b)\<rparr>, snd env)
   }"

definition CompactRange :: "string list option \<Rightarrow> DBImpl \<Rightarrow> World \<Rightarrow> (Status \<times> DBImpl \<times> World) option" where
  "CompactRange names db w = (case PickCompaction (db_options db) (db_versions db) of
     None \<Rightarrow> Some (OK, db, w)
   | Some c \<Rightarrow> do {
       (s, db1, w1) \<leftarrow> db_DoCompaction c db w;
       w2 \<leftarrow> RemoveObsoleteFiles names db1 w1;
       Some (s, db1, w2)
     })"

text \<open>The immutable memtable is given up whether or not it could be written.\<close>

definition flush_imm :: "DBImpl \<Rightarrow> World \<Rightarrow> (DBImpl \<times> World) option" where
  "flush_imm db w = (case db_imm db of
     None \<Rightarrow> Some (db, w)
   | Some imm \<Rightarrow> do {
       (s, edit, db1, w1) \<leftarrow> WriteLevel0Table imm VersionEdit_new db w;
       (db2, w2) \<leftarrow> (if ok s
         then do { (_, db2, w2) \<leftarrow> db_LogAndApply (SetLogNumber (db_log_file_number db1) edit) db1 w1; Some (db2, w2) }
         else Some (db1, w1));
       Some (db2\<lparr>db_imm := None\<rparr>, w2)
     })"

definition BackgroundCompaction :: "string list option \<Rightarrow> DBImpl \<Rightarrow> World \<Rightarrow> (DBImpl \<times> World) option" where
  "BackgroundCompaction names db w = do {
     (db1, w1) \<leftarrow> flush_imm db w;
     (db2, w2) \<leftarrow> (case PickCompaction (db_options db1) (db_versions db1) of
         None \<Rightarrow> Some (db1, w1)
       | Some c \<Rightarrow> do { (_, db2, w2) \<leftarrow> db_DoCompaction c db1 w1; Some (db2, w2) });
     w3 \<leftarrow> RemoveObsoleteFiles names db2 w2;
     Some (db2, w3)
   }"

text \<open>One round of the background thread: it ends, waits for work, or works.\<close>

definition BackgroundThread_round :: "string list option \<Rightarrow> DBImpl \<Rightarrow> World \<Rightarrow> (DBImpl \<times> World) option wait_result option" where
  "BackgroundThread_round names db w =
     (if db_shutting_down db then Some (Returns None)
      else if db_imm db = None \<and> PickCompaction (db_options db) (db_versions db) = None then Some Waits
      else do { r \<leftarrow> BackgroundCompaction names db w; Some (Returns (Some r)) })"

section \<open>Opening a database\<close>

definition sys_access :: "string \<Rightarrow> World \<Rightarrow> bool \<times> World" where
  "sys_access path w0 = (let (r, w) = next_outcome w0 in (\<not> failed r \<and> dir w path \<noteq> None, w))"

definition lock_database :: "DBImpl \<Rightarrow> World \<Rightarrow> bool \<times> DBImpl \<times> World" where
  "lock_database db w =
     (let (fd, w1) = sys_open_creat False (LockFileName (db_dbname db)) w;
          db1 = db\<lparr>db_lock_fd := fd\<rparr>
      in if fd = None then (False, db1, w1)
         else let (r, w2) = next_outcome w1 in (\<not> failed r, db1, w2))"

definition new_db_edit :: VersionEdit where
  "new_db_edit = Edit_SetLastSequence 0 (SetNextFile 2 (SetLogNumber 0 (SetComparatorName byte_comparator VersionEdit_new)))"

definition load_versions :: "DBImpl \<Rightarrow> World \<Rightarrow> (Status \<times> DBImpl \<times> World) option" where
  "load_versions db w =
     (let (exists, w1) = sys_access (CurrentFileName (db_dbname db)) w
      in if \<not> exists \<and> \<not> create_if_missing (db_options db)
         then Some (InvalidArgument ''Database does not exist and create_if_missing is false'', db, w1)
         else if exists \<and> error_if_exists (db_options db)
         then Some (InvalidArgument ''Database exists and error_if_exists is true'', db, w1)
         else if \<not> exists then db_LogAndApply new_db_edit db w1
         else do {
           (s, vset, w2) \<leftarrow> VersionSet_Recover (db_versions db) w1;
           Some (s, db\<lparr>db_versions := vset\<rparr>, w2)
         })"

fun log_numbers :: "u64 \<Rightarrow> string list \<Rightarrow> u64 list option" where
  "log_numbers log_number [] = Some []"
| "log_numbers log_number (fname # names) =
     (if length fname > 4 \<and> drop (length fname - 4) fname = ''.log''
      then do {
        num \<leftarrow> stoull (take (length fname - 4) fname);
        rest \<leftarrow> log_numbers log_number names;
        Some (if num \<ge> log_number then num # rest else rest)
      }
      else log_numbers log_number names)"

function replay_log ::
  "(nat \<Rightarrow> nat) \<Rightarrow> WalReader \<Rightarrow> World \<Rightarrow> Memtable \<Rightarrow> SequenceNumber \<Rightarrow> (Memtable \<times> SequenceNumber \<times> World) option" where
  "replay_log dist r w mem max_seq = (case ReadRecord True r w of
     (ReadOk (seq, type, key, val), r', w') \<Rightarrow>
       (case Memtable_Add dist seq type key val mem of
          None \<Rightarrow> None
        | Some mem' \<Rightarrow> replay_log dist r' w' mem' (if seq > max_seq then seq else max_seq))
   | (ReadErr s, r', w') \<Rightarrow> Some (mem, max_seq, w')
   | (ReadUndefined, r', w') \<Rightarrow> None)"
  by pat_completeness auto
termination
  by (relation "measure (\<lambda>(_, r, w, _). case wr_fd r of None \<Rightarrow> 0 | Some i \<Rightarrow> length (inodes w i) - wr_pos r)")
    (auto dest!: sym [of _ "ReadRecord _ _ _"] ReadRecord_ok_progress)

declare replay_log.simps [simp del]

definition recover_log :: "(nat \<Rightarrow> nat) \<Rightarrow> u64 \<Rightarrow> DBImpl \<Rightarrow> World \<Rightarrow> (Status \<times> DBImpl \<times> World) option" where
  "recover_log dist log_num db w = do {
     let log_path = LogFileName (db_dbname db) log_num;
     let (reader, w1) = WalReader_new log_path w;
     (mem, max_seq, w2) \<leftarrow> replay_log dist reader w1 Memtable_new (vs_last_sequence (db_versions db));
     let db1 = db\<lparr>db_versions := SetLastSequence max_seq (db_versions db)\<rparr>;
     if Memtable_Count mem > 0
     then do {
       (s, edit, db2, w3) \<leftarrow> WriteLevel0Table mem VersionEdit_new db1 w2;
       if \<not> ok s then Some (s, db2, w3)
       else do {
         (s1, db3, w4) \<leftarrow> db_LogAndApply (SetLogNumber log_num edit) db2 w3;
         Some (if \<not> ok s1 then (s1, db3, w4) else (OK, db3, sys_unlink log_path w4))
       }
     }
     else Some (OK, db1, sys_unlink log_path w2)
   }"

fun recover_logs :: "(nat \<Rightarrow> nat) \<Rightarrow> u64 list \<Rightarrow> DBImpl \<Rightarrow> World \<Rightarrow> (Status \<times> DBImpl \<times> World) option" where
  "recover_logs dist [] db w = Some (OK, db, w)"
| "recover_logs dist (n # ns) db w = do {
     (s, db1, w1) \<leftarrow> recover_log dist n db w;
     if \<not> ok s then Some (s, db1, w1) else recover_logs dist ns db1 w1
   }"

definition start_log :: "DBImpl \<Rightarrow> World \<Rightarrow> (Status \<times> DBImpl \<times> World) option" where
  "start_log db w = do {
     let (n, vset) = NewFileNumber (db_versions db);
     let (writer, w1) = WalWriter_new (LogFileName (db_dbname db) n) w;
     let db1 = db\<lparr>db_versions := vset, db_log_file_number := n, db_wal_writer := Some writer\<rparr>;
     (s, db2, w2) \<leftarrow> db_LogAndApply (SetLogNumber n VersionEdit_new) db1 w1;
     Some (if \<not> ok s then (s, db2, w2) else (OK, db2\<lparr>db_mem := Some Memtable_new\<rparr>, w2))
   }"

definition Recover :: "(nat \<Rightarrow> nat) \<Rightarrow> string list option \<Rightarrow> DBImpl \<Rightarrow> World \<Rightarrow> (Status \<times> DBImpl \<times> World) option" where
  "Recover dist names db w =
     (let (locked, db1, w1) = lock_database db w
      in if \<not> locked then Some (IOError ''Database is locked by another process: '', db1, w1)
         else do {
           (s, db2, w2) \<leftarrow> load_versions db1 w1;
           if \<not> ok s then Some (s, db2, w2)
           else do {
             (s1, db3, w3) \<leftarrow> (case names of
                 None \<Rightarrow> Some (OK, db2, w2)
               | Some fnames \<Rightarrow> do {
                   nums \<leftarrow> log_numbers (vs_log_number (db_versions db2)) fnames;
                   recover_logs dist (sort nums) db2 w2
                 });
             if \<not> ok s1 then Some (s1, db3, w3) else start_log db3 w3
           }
         })"

definition DB_Open :: "(nat \<Rightarrow> nat) \<Rightarrow> string list option \<Rightarrow> Options \<Rightarrow> string \<Rightarrow> World \<Rightarrow> (Status \<times> DBImpl option \<times> World) option" where
  "DB_Open dist names options name w = do {
     let w1 = snd (next_outcome w);
     (s, db, w2) \<leftarrow> Recover dist names (DBImpl_new options name) w1;
     Some (s, if ok s then Some db else None, w2)
   }"

end
