(* ===== verification/DB_Spec.thy ===== *)
theory DB_Spec
  imports DB_Impl
begin

text \<open>
  The database as a map from keys to values.  \<open>db_rep\<close> relates the memtables, the version, the tables on
  disk and the open log to lists of entries; \<open>db_view\<close> is the map a reader should see.  The lemmas show that
  each operation of src/db_impl.cc implements the operation on the map.
\<close>

section \<open>Representation\<close>

definition wal_ok :: "tables \<Rightarrow> string \<Rightarrow> u64 \<Rightarrow> WalWriter option \<Rightarrow> World \<Rightarrow> bool" where
  "wal_ok tabs name n writer w \<longleftrightarrow> (\<exists>ww. writer = Some ww
     \<and> (\<forall>i. ww_fd ww = Some i \<longrightarrow> dir w (LogFileName name n) = Some i \<and> (\<forall>m t. tabs m = Some t \<longrightarrow> tf_inode t \<noteq> i)))"

definition disk_ok :: "tables \<Rightarrow> DBImpl \<Rightarrow> World \<Rightarrow> bool" where
  "disk_ok tabs db w \<longleftrightarrow> wf_world w \<and> (\<forall>n t. tabs n = Some t \<longrightarrow> tf_inode t < next_inode w)
     \<and> (\<forall>n \<ge> vs_next_file_number (db_versions db). tabs n = None
          \<and> dir w (TableFileName (db_dbname db) n) = None \<and> dir w (LogFileName (db_dbname db) n) = None)
     \<and> v_dbname (vs_current (db_versions db)) = db_dbname db
     \<and> wal_ok tabs (db_dbname db) (db_log_file_number db) (db_wal_writer db) w"

definition db_entries :: "tables \<Rightarrow> DBImpl \<Rightarrow> MemtableEntry list \<Rightarrow> MemtableEntry list \<Rightarrow> MemtableEntry list" where
  "db_entries tabs db ms ims = ms @ ims @ version_entries tabs (vs_current (db_versions db))"

definition mems_rep :: "DBImpl \<Rightarrow> MemtableEntry list \<Rightarrow> MemtableEntry list \<Rightarrow> bool" where
  "mems_rep db ms ims \<longleftrightarrow> (case db_mem db of None \<Rightarrow> False | Some m \<Rightarrow> mt_rep m ms)
     \<and> (case db_imm db of None \<Rightarrow> ims = [] | Some m \<Rightarrow> mt_rep m ims)"

text \<open>Sources in search order, no two different entries under one version, all visible at the last sequence number.\<close>

definition entries_ok :: "tables \<Rightarrow> DBImpl \<Rightarrow> MemtableEntry list \<Rightarrow> MemtableEntry list \<Rightarrow> bool" where
  "entries_ok tabs db ms ims \<longleftrightarrow>
     all_seen (vs_last_sequence (db_versions db)) (db_entries tabs db ms ims)
     \<and> newer_first (ms # ims # version_sources tabs (vs_current (db_versions db)))
     \<and> inj_on ikey (set (db_entries tabs db ms ims)) \<and> vs_last_sequence (db_versions db) \<le> kMaxSequenceNumber"

definition db_rep :: "tables \<Rightarrow> DBImpl \<Rightarrow> World \<Rightarrow> MemtableEntry list \<Rightarrow> MemtableEntry list \<Rightarrow> bool" where
  "db_rep tabs db w ms ims \<longleftrightarrow> mems_rep db ms ims
     \<and> version_rep tabs (w\<lparr>script := []\<rparr>) (vs_current (db_versions db))
     \<and> env_ok tabs (Some (db_block_cache db), w\<lparr>script := []\<rparr>)
     \<and> entries_ok tabs db ms ims \<and> disk_ok tabs db w"

definition entry_for :: "bytes \<Rightarrow> MemtableEntry list \<Rightarrow> MemtableEntry option" where
  "entry_for key es = find (\<lambda>e. e_key e = key) es"

definition db_view :: "tables \<Rightarrow> DBImpl \<Rightarrow> MemtableEntry list \<Rightarrow> MemtableEntry list \<Rightarrow> bytes \<rightharpoonup> bytes" where
  "db_view tabs db ms ims key = visible_value (entry_for key (db_entries tabs db ms ims))"

lemma all_seen_append [simp]: "all_seen seq (xs @ ys) \<longleftrightarrow> all_seen seq xs \<and> all_seen seq ys"
  by (auto simp: all_seen_def)

lemma entry_for_readable: "all_seen seq es \<Longrightarrow> find (readable key seq) es = entry_for key es"
  by (induction es) (auto simp: entry_for_def all_seen_def readable_def)

lemma entry_for_append: "entry_for key (xs @ ys) = (case entry_for key xs of None \<Rightarrow> entry_for key ys | Some e \<Rightarrow> Some e)"
  unfolding entry_for_def by (rule find_append)

lemma all_seen_types: "all_seen seq es \<Longrightarrow> e \<in> set es \<Longrightarrow> e_type e \<in> {kTypeValue, kTypeDeletion}"
  by (auto simp: all_seen_def)

lemma Memtable_Get_seen:
  assumes "mt_rep m es" and "all_seen seq es"
  shows "Memtable_Get key seq m = Some (found_result (entry_for key es))"
  using Memtable_Get_ok [OF assms(1), of key seq] all_seen_types [OF assms(2)] entry_for_readable [OF assms(2)] by auto

section \<open>Reading\<close>

text \<open>System calls succeed, or no table has to be opened and none fails outright.\<close>

definition readable_now :: "DBImpl \<Rightarrow> World \<Rightarrow> bool" where
  "readable_now db w \<longleftrightarrow> script w = [] \<or> Fail \<notin> set (script w)
     \<and> (\<forall>level. \<forall>f \<in> set (v_files (vs_current (db_versions db)) level). fm_reader f \<noteq> None)"

lemma file_rep_script: "file_rep tabs db w f \<Longrightarrow> file_rep tabs db (w\<lparr>script := []\<rparr>) f"
  by (auto simp: file_rep_def split: option.splits)

lemma version_rep_script: "version_rep tabs w v \<Longrightarrow> version_rep tabs (w\<lparr>script := []\<rparr>) v"
  by (simp add: version_rep_def files_rep_def file_rep_script)

lemma version_rep_dir:
  assumes "version_rep tabs w v" and "script w' = []"
    and "\<And>n t. tabs n = Some t \<Longrightarrow> dir w (TableFileName (v_dbname v) n) = Some (tf_inode t) \<Longrightarrow> dir w' (TableFileName (v_dbname v) n) = Some (tf_inode t)"
  shows "version_rep tabs w' v"
proof -
  have "file_rep tabs (v_dbname v) w' f" if "file_rep tabs (v_dbname v) w f" for f
    using that assms(2,3) by (auto simp: file_rep_def split: option.splits)
  then show ?thesis using assms(1) by (simp add: version_rep_def files_rep_def)
qed

text \<open>The outcome a caller of \<open>Get\<close> sees for the value of a key.\<close>

definition get_result :: "bytes option \<Rightarrow> Status \<times> bytes option" where
  "get_result v = (case v of None \<Rightarrow> (NotFound '''', None) | Some x \<Rightarrow> (OK, Some x))"

lemma found_result_value:
  "(case found_result r of None \<Rightarrow> (NotFound '''', None) | Some res \<Rightarrow> res) = get_result (visible_value r)"
  by (auto simp: found_result_def get_result_def visible_value_def split: option.splits)

lemma version_rep_now:
  assumes "version_rep tabs (w\<lparr>script := []\<rparr>) (vs_current (db_versions db))" and "readable_now db w"
  shows "version_rep tabs w (vs_current (db_versions db))"
proof -
  let ?v = "vs_current (db_versions db)"
  have "file_rep tabs (v_dbname ?v) w f" if "f \<in> set (v_files ?v level)" for f level
  proof -
    have "file_rep tabs (v_dbname ?v) (w\<lparr>script := []\<rparr>) f" using assms(1) that by (simp add: version_rep_def files_rep_def)
    moreover have "script w = []" if "fm_reader f = None"
      using assms(2) that \<open>f \<in> set (v_files ?v level)\<close> unfolding readable_now_def by blast
    ultimately show ?thesis by (cases "fm_reader f") (simp_all add: file_rep_def)
  qed
  then show ?thesis using assms(1) by (simp add: version_rep_def files_rep_def)
qed

lemma env_ok_now:
  assumes "env_ok tabs (c, w\<lparr>script := []\<rparr>)" and "readable_now db w"
  shows "env_ok tabs (c, w)"
  using assms by (auto simp: env_ok_def readable_now_def)

lemma env_ok_script_Nil: "env_ok tabs (c, w) \<Longrightarrow> env_ok tabs (c, w\<lparr>script := []\<rparr>)"
  by (simp add: env_ok_script)

text \<open>Reads leave the database as it is, but for tables they open and blocks they cache.\<close>

lemma disk_ok_reads:
  assumes "disk_ok tabs db w" and "reads w w'" and "same_version (vs_current (db_versions db)) v"
  shows "disk_ok tabs (keep_open v env db) w'"
proof -
  have "wf_world w'" using assms(1,2) by (simp add: disk_ok_def wf_world_reads)
  then show ?thesis using assms by (simp add: disk_ok_def keep_open_def reads_def same_version_def wal_ok_def)
qed

lemma same_version_sources: "same_version v v' \<Longrightarrow> version_sources tabs v' = version_sources tabs v"
  using same_version_files [of v v' "[0..<kNumLevels]"]
  by (auto simp: version_sources_def list_all2_conv_all_nth same_file_def file_entries_def intro!: nth_equalityI)

lemma entries_ok_keep:
  assumes "entries_ok tabs db ms ims" and "same_version (vs_current (db_versions db)) v"
  shows "entries_ok tabs (keep_open v env db) ms ims" and "db_entries tabs (keep_open v env db) ms ims = db_entries tabs db ms ims"
  using assms same_version_entries [OF assms(2), of tabs "[0..<kNumLevels]"] same_version_sources [OF assms(2), of tabs]
  by (simp_all add: entries_ok_def db_entries_def keep_open_def)

lemma db_rep_keep:
  assumes r: "db_rep tabs db w ms ims" and rd: "reads w w'" and v: "same_version (vs_current (db_versions db)) v" "version_rep tabs w' v"
    and c: "env_ok tabs (c, w')" "c = None \<or> c = Some (db_block_cache (keep_open v (c, w') db))"
  shows "db_rep tabs (keep_open v (c, w') db) w' ms ims"
    and "db_view tabs (keep_open v (c, w') db) ms ims = db_view tabs db ms ims"
proof -
  let ?db = "keep_open v (c, w') db"
  have "env_ok tabs (Some (db_block_cache ?db), w'\<lparr>script := []\<rparr>)"
  proof (cases c)
    case None
    then show ?thesis using r rd by (auto simp: db_rep_def env_ok_def keep_open_def reads_def)
  qed (use c in \<open>auto simp: keep_open_def intro: env_ok_script_Nil\<close>)
  then show "db_rep tabs ?db w' ms ims"
    using r v disk_ok_reads [OF _ rd v(1)] entries_ok_keep(1) [OF _ v(1)] version_rep_script
    by (auto simp: db_rep_def mems_rep_def keep_open_def)
  show "db_view tabs ?db ms ims = db_view tabs db ms ims"
    using r entries_ok_keep(2) [OF _ v(1)] by (auto simp: db_view_def db_rep_def)
qed

lemma get_at_ok:
  assumes r: "db_rep tabs db w ms ims" and now: "readable_now db w" and rd: "read_state db = Some rd"
  shows "\<exists>v env'. get_at options key rd (Some (db_block_cache db), w) = Some (get_result (db_view tabs db ms ims key), v, env')
    \<and> reads w (snd env') \<and> same_version (vs_current (db_versions db)) v \<and> version_rep tabs (snd env') v \<and> env_ok tabs env'"
proof -
  let ?v = "vs_current (db_versions db)" and ?seq = "vs_last_sequence (db_versions db)" and ?env = "(Some (db_block_cache db), w)"
  have vr: "version_rep tabs w ?v" using r now version_rep_now by (simp add: db_rep_def)
  have eo: "env_ok tabs ?env" using r now env_ok_now by (simp add: db_rep_def)
  have seen: "all_seen ?seq ms" "all_seen ?seq ims" "all_seen ?seq (version_entries tabs ?v)"
    using r by (simp_all add: db_rep_def entries_ok_def db_entries_def)
  obtain m where m: "db_mem db = Some m" "mt_rep m ms" using r by (auto simp: db_rep_def mems_rep_def split: option.splits)
  have rd_eq: "rd = \<lparr>rd_mem = m, rd_imm = db_imm db, rd_version = ?v, rd_seq = ?seq\<rparr>" using rd m(1) by (simp add: read_state_def)
  have g1: "Memtable_Get key (rd_seq rd) (rd_mem rd) = Some (found_result (entry_for key ms))"
    using Memtable_Get_seen [OF m(2) seen(1), of key] by (simp add: rd_eq)
  have g2: "(case rd_imm rd of None \<Rightarrow> Some None | Some imm \<Rightarrow> Memtable_Get key (rd_seq rd) imm) = Some (found_result (entry_for key ims))"
    using r Memtable_Get_seen [OF _ seen(2), of _ key]
    by (auto simp: rd_eq db_rep_def mems_rep_def entry_for_def split: option.splits)
  have v_eq: "rd_version rd = ?v" by (simp add: rd_eq)
  have "all_readable key ?seq (set (version_entries tabs ?v))" using seen(3) by (auto simp: all_readable_def all_seen_def readable_def)
  then obtain v env' where g3: "Version_Get options key (rd_seq rd) ?v ?env = Some (found_result (entry_for key (version_entries tabs ?v)), v, env')"
    "env_ok tabs env'" "reads w (snd env')" "same_version ?v v" "version_rep tabs (snd env') v"
    using Version_Get_ok [of tabs ?env ?v key ?seq options] vr eo entry_for_readable [OF seen(3)] by (auto simp: rd_eq)
  have val: "db_view tabs db ms ims key = visible_value (case entry_for key ms of Some e \<Rightarrow> Some e
      | None \<Rightarrow> (case entry_for key ims of Some e \<Rightarrow> Some e | None \<Rightarrow> entry_for key (version_entries tabs ?v)))"
    by (simp add: db_view_def db_entries_def entry_for_append split: option.splits)
  have hit: "found_result (Some e) = Some (get_result (visible_value (Some e)))" for e
    by (simp add: found_result_def get_result_def visible_value_def)
  consider (mem) e where "entry_for key ms = Some e" | (imm) e where "entry_for key ms = None" "entry_for key ims = Some e"
    | (tab) "entry_for key ms = None" "entry_for key ims = None" by fastforce
  then show ?thesis
  proof cases
    case mem
    then have "get_at options key rd ?env = Some (get_result (db_view tabs db ms ims key), ?v, ?env)"
      using g1 by (simp add: get_at_def v_eq val hit)
    then show ?thesis using vr eo by simp
  next
    case imm
    then have "get_at options key rd ?env = Some (get_result (db_view tabs db ms ims key), ?v, ?env)"
      using g1 g2 by (simp add: get_at_def v_eq val hit)
    then show ?thesis using vr eo by simp
  next
    case tab
    then have "get_at options key rd ?env = Some (get_result (db_view tabs db ms ims key), v, env')"
      using g1 g2 g3(1) found_result_value [of "entry_for key (version_entries tabs ?v)"]
      by (simp add: get_at_def v_eq val)
    then show ?thesis using g3 by blast
  qed
qed

lemma Get_ok:
  assumes r: "db_rep tabs db w ms ims" and now: "readable_now db w"
  shows "\<exists>db' w'. Get key db w = Some (get_result (db_view tabs db ms ims key), db', w') \<and> db_rep tabs db' w' ms ims
    \<and> db_view tabs db' ms ims = db_view tabs db ms ims"
proof -
  obtain rd where rd: "read_state db = Some rd"
    using r by (auto simp: db_rep_def mems_rep_def read_state_def split: option.splits)
  obtain v env' where g: "get_at (db_options db) key rd (Some (db_block_cache db), w) = Some (get_result (db_view tabs db ms ims key), v, env')"
    "reads w (snd env')" "same_version (vs_current (db_versions db)) v" "version_rep tabs (snd env') v" "env_ok tabs env'"
    using get_at_ok [OF r now rd] by blast
  have "fst env' = None \<or> fst env' = Some (db_block_cache (keep_open v (fst env', snd env') db))"
    by (cases "fst env'") (simp_all add: keep_open_def)
  then show ?thesis
    using db_rep_keep [OF r g(2-4), of "fst env'"] g(1,5) rd by (simp add: Get_def)
qed

section \<open>Writing\<close>

lemma AppendRecord_writes:
  assumes "AppendRecord ww seq type key val sync w = (s, ww', w')"
  shows "ww_fd ww' = ww_fd ww \<and> (case ww_fd ww of None \<Rightarrow> w' = w \<and> \<not> ok s | Some i \<Rightarrow> writes_only i w w')"
proof (cases "ww_fd ww")
  case None
  then show ?thesis using assms by (auto simp: AppendRecord_def)
next
  case (Some i)
  define p where "p = wal_payload seq type key val"
  obtain g1 n1 w1 where 1: "write_all i (wal_header p) w = (g1, n1, w1)" by (metis prod_cases3)
  obtain g2 n2 w2 where 2: "write_all i p w1 = (g2, n2, w2)" by (metis prod_cases3)
  have wo: "writes_only i w w1" "writes_only i w1 w2"
    using write_all_inode [OF 1] write_all_inode [OF 2] unfolding writes_only_def by blast+
  have "w' = w1 \<or> w' = w2 \<or> w' = w2\<lparr>script := tl (script w2)\<rparr>" and "ww_fd ww' = Some i"
    using assms 1 2 Some
    by (auto simp: AppendRecord_def p_def Let_def WalWriter_Sync_def sys_fdatasync_def next_outcome_eq split: if_splits)
  then show ?thesis using Some wo writes_only_trans [OF wo] writes_only_script by auto
qed

text \<open>An entry newer than every other version of its key comes first among them.\<close>

lemma entry_for_insert:
  assumes "sorted_entries es" and "\<forall>x \<in> set es. e_key x = e_key e \<longrightarrow> e_seq x < e_seq e"
  shows "entry_for key (insert_entry e es) = (if e_key e = key then Some e else entry_for key es)"
proof -
  have "entry_for key (filter (\<lambda>x. entry_less x e) es) = None" if "e_key e = key"
    using assms(2) that by (fastforce simp: entry_for_def find_None_iff ikey_less_def)
  note none = this
  let ?A = "filter (\<lambda>x. entry_less x e) es" and ?B = "filter (\<lambda>x. \<not> entry_less x e) es"
  have split: "?A @ ?B = es"
    using assms(1)
  proof (induction es)
    case (Cons a es)
    show ?case
    proof (cases "entry_less a e")
      case False
      have "\<not> entry_less x e" if "x \<in> set es" for x
      proof
        assume "entry_less x e"
        moreover have "entry_less a x" using Cons.prems that by simp
        ultimately show False using False by (auto simp: ikey_less_def)
      qed
      then show ?thesis using False by (auto simp: filter_empty_conv)
    qed (use Cons in simp)
  qed simp
  show ?thesis
  proof (cases "e_key e = key")
    case True
    then show ?thesis using none by (simp add: insert_entry_def entry_for_def find_append)
  next
    case False
    then have "entry_for key (insert_entry e es) = entry_for key (?A @ ?B)"
      by (simp add: insert_entry_def entry_for_def find_append split: option.split)
    then show ?thesis using False unfolding split by simp
  qed
qed

lemma newer_first_insert:
  assumes "newer_first (ms # srcs)" and "\<forall>es \<in> set srcs. \<forall>x \<in> set es. e_seq x \<le> e_seq e"
  shows "newer_first (insert_entry e ms # srcs)"
  using assms by (auto simp: newer_first_def)

lemma set_version_sources: "\<Union> (set ` set (version_sources tabs v)) = set (version_entries tabs v)"
  unfolding concat_version_sources [symmetric] by simp

text \<open>What the log may change: its own file.\<close>

lemma disk_ok_writes:
  assumes "disk_ok tabs db w" and "db_wal_writer db = Some ww" and "ww_fd ww = Some i" and "writes_only i w w'"
  shows "wf_world w'" and "dir w' = dir w" and "next_inode w' = next_inode w" and "tabs n = Some t \<Longrightarrow> inodes w' (tf_inode t) = inodes w (tf_inode t)"
proof -
  note f = writes_only_frame [OF assms(4)]
  show "wf_world w'" "dir w' = dir w" "next_inode w' = next_inode w" using assms(1) f by (simp_all add: disk_ok_def wf_world_def)
  show "inodes w' (tf_inode t) = inodes w (tf_inode t)" if "tabs n = Some t"
    using f that assms(1-3) by (auto simp: disk_ok_def wal_ok_def)
qed

text \<open>A database whose log file was appended to and whose active memtable and last sequence number may have changed.\<close>

lemma db_rep_logged:
  assumes r: "db_rep tabs db w ms ims" and ww: "db_wal_writer db = Some ww" "ww_fd ww' = ww_fd ww"
    and w': "case ww_fd ww of None \<Rightarrow> w' = w | Some i \<Rightarrow> writes_only i w w'"
    and db': "db' = db\<lparr>db_wal_writer := Some ww', db_mem := Some m', db_versions := (db_versions db)\<lparr>vs_last_sequence := seq\<rparr>\<rparr>"
    and m': "mt_rep m' ms'" and e: "entries_ok tabs db' ms' ims"
  shows "db_rep tabs db' w' ms' ims"
proof -
  have d: "disk_ok tabs db w" using r by (simp add: db_rep_def)
  have same: "wf_world w' \<and> dir w' = dir w \<and> next_inode w' = next_inode w \<and> (\<forall>n t. tabs n = Some t \<longrightarrow> inodes w' (tf_inode t) = inodes w (tf_inode t))"
  proof (cases "ww_fd ww")
    case None
    then show ?thesis using w' d by (simp add: disk_ok_def)
  next
    case (Some i)
    then have "writes_only i w w'" using w' by simp
    from disk_ok_writes [OF d ww(1) Some this] show ?thesis by blast
  qed
  have "disk_ok tabs db' w'" using d same ww by (auto simp: disk_ok_def db' wal_ok_def)
  moreover have "version_rep tabs (w'\<lparr>script := []\<rparr>) (vs_current (db_versions db'))"
    using r same by (auto simp: db_rep_def db' intro: version_rep_dir)
  moreover have "env_ok tabs (Some (db_block_cache db'), w'\<lparr>script := []\<rparr>)"
    using r same by (auto simp: db_rep_def db' env_ok_def)
  moreover have "mems_rep db' ms' ims" using r m' by (auto simp: db_rep_def mems_rep_def db' split: option.splits)
  ultimately show ?thesis using e by (simp add: db_rep_def)
qed

lemma sequence_room:
  assumes "(n :: u64) < kMaxSequenceNumber"
  shows "n < n + 1 \<and> n + 1 \<le> kMaxSequenceNumber"
proof -
  have "unat kMaxSequenceNumber = 72057594037927935" by (simp add: kMaxSequenceNumber_def)
  then show ?thesis using assms by (simp add: word_less_nat_alt word_le_nat_alt unat_plus_if')
qed

lemma write_record_ok:
  assumes r: "db_rep tabs db w ms ims" and seq: "vs_last_sequence (db_versions db) < kMaxSequenceNumber" and t: "type \<in> {kTypeValue, kTypeDeletion}"
    and e_def: "e = \<lparr>e_key = key, e_seq = vs_last_sequence (db_versions db) + 1, e_type = type, e_value = val\<rparr>"
  shows "\<exists>s db' w'. write_record dist type key val db w = Some (s, db', w')
    \<and> (if ok s then db_rep tabs db' w' (insert_entry e ms) ims
         \<and> db_view tabs db' (insert_entry e ms) ims = (db_view tabs db ms ims)(key := visible_value (Some e))
       else db_rep tabs db' w' ms ims \<and> db_view tabs db' ms ims = db_view tabs db ms ims)"
proof -
  let ?last = "vs_last_sequence (db_versions db)" and ?v = "vs_current (db_versions db)"
  let ?all = "db_entries tabs db ms ims"
  obtain m ww where m: "db_mem db = Some m" "mt_rep m ms" and ww: "db_wal_writer db = Some ww"
    using r by (auto simp: db_rep_def mems_rep_def disk_ok_def wal_ok_def split: option.splits)
  have E: "all_seen ?last ?all" "newer_first (ms # ims # version_sources tabs ?v)" "inj_on ikey (set ?all)"
    using r by (auto simp: db_rep_def entries_ok_def)
  have lt: "?last < ?last + 1" "?last + 1 \<le> kMaxSequenceNumber" using sequence_room [OF seq] by auto
  have fresh: "e_seq x < e_seq e" if "x \<in> set ?all" for x
    using E(1) that lt(1) by (auto simp: all_seen_def e_def intro: le_less_trans)
  obtain s ww' w' where app: "AppendRecord ww (?last + 1) type key val (opt_sync (db_options db)) w = (s, ww', w')" by (metis prod_cases3)
  note a = AppendRecord_writes [OF app]
  have w': "case ww_fd ww of None \<Rightarrow> w' = w | Some i \<Rightarrow> writes_only i w w'" using a by (auto split: option.splits)
  show ?thesis
  proof (cases "ok s")
    case False
    let ?db = "db\<lparr>db_wal_writer := Some ww'\<rparr>"
    have "?db = db\<lparr>db_wal_writer := Some ww', db_mem := Some m, db_versions := (db_versions db)\<lparr>vs_last_sequence := ?last\<rparr>\<rparr>"
      using m(1) by simp
    from db_rep_logged [OF r ww conjunct1 [OF a] w' this m(2)] have "db_rep tabs ?db w' ms ims"
      using r by (simp add: db_rep_def entries_ok_def db_entries_def)
    moreover have "write_record dist type key val db w = Some (s, ?db, w')" using ww app False by (simp add: write_record_def)
    moreover have "db_view tabs ?db ms ims = db_view tabs db ms ims" by (simp add: db_view_def db_entries_def fun_eq_iff)
    ultimately show ?thesis using False by simp
  next
    case True
    have other: "ikey x \<noteq> (key, ?last + 1)" if "x \<in> set ms" for x
    proof
      assume "ikey x = (key, ?last + 1)"
      moreover have "e_seq x < ?last + 1" using fresh [of x] that by (simp add: db_entries_def e_def)
      ultimately show False by simp
    qed
    obtain m' where m': "Memtable_Add dist (?last + 1) type key val m = Some m'" "mt_rep m' (insert_entry e ms)"
      using mt_rep_Add [OF m(2) other, of dist type val] unfolding e_def by blast
    let ?db = "db\<lparr>db_wal_writer := Some ww', db_mem := Some m', db_versions := (db_versions db)\<lparr>vs_last_sequence := ?last + 1\<rparr>\<rparr>"
    have run: "write_record dist type key val db w = Some (OK, ?db, w')"
      using ww app True m m'(1) lt by (simp add: write_record_def SetLastSequence_def)
    have "all_seen (?last + 1) (e # ?all)"
      using E(1) lt(1) t by (auto simp: all_seen_def e_def intro: order_trans less_imp_le)
    moreover have "newer_first (insert_entry e ms # ims # version_sources tabs ?v)"
      using E(2) fresh set_version_sources [of tabs ?v] by (intro newer_first_insert) (auto simp: db_entries_def intro: less_imp_le)
    moreover have "inj_on ikey (insert e (set ?all))"
    proof -
      have "ikey e \<noteq> ikey x" if "x \<in> set ?all" for x using fresh [OF that] by auto
      then have "ikey e \<notin> ikey ` set ?all" by blast
      then show ?thesis using E(3) by (simp add: inj_on_insert) blast
    qed
    ultimately have "entries_ok tabs ?db (insert_entry e ms) ims"
      using lt(2) by (auto simp: entries_ok_def db_entries_def all_seen_def)
    from db_rep_logged [OF r ww conjunct1 [OF a] w' refl m'(2) this]
    have "db_rep tabs ?db w' (insert_entry e ms) ims" .
    moreover have "db_view tabs ?db (insert_entry e ms) ims = (db_view tabs db ms ims)(key := visible_value (Some e))"
    proof (rule ext)
      fix k
      have "\<forall>x \<in> set ms. e_key x = e_key e \<longrightarrow> e_seq x < e_seq e" using fresh by (simp add: db_entries_def)
      from entry_for_insert [OF mt_rep_sorted [OF m(2)] this, of k]
      have "entry_for k (insert_entry e ms) = (if key = k then Some e else entry_for k ms)" by (simp add: e_def)
      then show "db_view tabs ?db (insert_entry e ms) ims k = ((db_view tabs db ms ims)(key := visible_value (Some e))) k"
        by (simp add: db_view_def db_entries_def entry_for_append)
    qed
    ultimately show ?thesis using run by simp
  qed
qed

text \<open>Switching to a new memtable and a new log: the entries stay, the active ones become immutable.\<close>

lemma open_creat_new:
  assumes "sys_open_creat False path w = (fd, w')" and "dir w path = None"
  shows "inodes w' j = (if fd = Some j \<and> j = next_inode w then [] else inodes w j)"
    and "fd = None \<and> dir w' = dir w \<and> next_inode w' = next_inode w
      \<or> fd = Some (next_inode w) \<and> dir w' = (dir w)(path \<mapsto> next_inode w) \<and> next_inode w' = Suc (next_inode w)"
  using assms by (auto simp: sys_open_creat_def next_outcome_eq split: if_splits)

lemma WalWriter_new_fresh:
  assumes "WalWriter_new path w = (ww, w')" and "dir w path = None" and "wf_world w"
  shows "wf_world w' \<and> next_inode w \<le> next_inode w' \<and> (\<forall>j < next_inode w. inodes w' j = inodes w j)
    \<and> (\<forall>p. p \<noteq> path \<longrightarrow> dir w' p = dir w p)
    \<and> (\<forall>i. ww_fd ww = Some i \<longrightarrow> i = next_inode w \<and> dir w' path = Some i)"
proof -
  obtain fd w0 where op: "sys_open_creat False path w = (fd, w0)" by fastforce
  have ww: "ww_fd ww = fd" "dir w' = dir w0" "inodes w' = inodes w0" "next_inode w' = next_inode w0"
    using assms(1) op by (auto simp: WalWriter_new_def sys_fstat_size_def next_outcome_eq split: option.splits)
  have "wf_world w0" using sys_open_creat_effect(1) [OF assms(3) op] .
  then have "wf_world w'" using ww by (simp add: wf_world_def)
  then show ?thesis using ww open_creat_new [OF op assms(2)] by auto
qed

lemma switch_memtable_ok:
  assumes r: "db_rep tabs db w ms []" and n: "vs_next_file_number (db_versions db) < vs_next_file_number (db_versions db) + 1"
    and run: "switch_memtable db w = (db', w')"
  shows "db_rep tabs db' w' [] ms \<and> db_view tabs db' [] ms = db_view tabs db ms []
    \<and> db_mem db' = Some Memtable_new \<and> vs_last_sequence (db_versions db') = vs_last_sequence (db_versions db)"
proof -
  let ?n = "vs_next_file_number (db_versions db)" and ?name = "db_dbname db" and ?v = "vs_current (db_versions db)"
  have d: "disk_ok tabs db w" using r by (simp add: db_rep_def)
  have fresh: "tabs m = None" "dir w (TableFileName ?name m) = None" "dir w (LogFileName ?name m) = None" if "?n \<le> m" for m
    using d that by (auto simp: disk_ok_def)
  obtain ww where ww: "WalWriter_new (LogFileName ?name ?n) w = (ww, w')"
    and db': "db' = db\<lparr>db_imm := db_mem db, db_mem := Some Memtable_new, db_versions := (db_versions db)\<lparr>vs_next_file_number := ?n + 1\<rparr>,
      db_log_file_number := ?n, db_wal_writer := Some ww\<rparr>"
    using run by (auto simp: switch_memtable_def NewFileNumber_def Let_def split: prod.splits)
  have W: "wf_world w'" "next_inode w \<le> next_inode w'" "\<forall>j < next_inode w. inodes w' j = inodes w j"
    "\<forall>p. p \<noteq> LogFileName ?name ?n \<longrightarrow> dir w' p = dir w p"
    "\<forall>i. ww_fd ww = Some i \<longrightarrow> i = next_inode w \<and> dir w' (LogFileName ?name ?n) = Some i"
    using WalWriter_new_fresh [OF ww fresh(3)] d by (auto simp: disk_ok_def)
  have tab: "dir w' (TableFileName ?name m) = dir w (TableFileName ?name m)" for m
    by (rule W(4) [rule_format]) (rule not_sym [OF log_neq_table])
  have log: "dir w' (LogFileName ?name m) = None" if "?n + 1 \<le> m" for m
  proof -
    have "?n < m" using n that by (rule less_le_trans)
    then show ?thesis using W(4) fresh(3) [of m] file_names_inj(1) [of ?name m ?n] by auto
  qed
  have in1: "inodes w' (tf_inode t) = inodes w (tf_inode t)" "tf_inode t < next_inode w" if "tabs m = Some t" for m t
    using d W(3) that by (auto simp: disk_ok_def)
  have in2: "tf_inode t < next_inode w'" "tf_inode t \<noteq> next_inode w" if "tabs m = Some t" for m t
    using in1(2) [OF that] W(2) by simp_all
  have ge: "?n \<le> m" if "?n + 1 \<le> m" for m using less_le_trans [OF n that] by simp
  have "\<forall>m \<ge> ?n + 1. tabs m = None \<and> dir w' (TableFileName ?name m) = None \<and> dir w' (LogFileName ?name m) = None"
  proof (intro allI impI)
    fix m assume m: "?n + 1 \<le> m"
    show "tabs m = None \<and> dir w' (TableFileName ?name m) = None \<and> dir w' (LogFileName ?name m) = None"
      unfolding tab using fresh(1,2) [OF ge [OF m]] log [OF m] by blast
  qed
  moreover have "wal_ok tabs ?name ?n (Some ww) w'" using W(5) in2(2) by (auto simp: wal_ok_def)
  ultimately have "disk_ok tabs db' w'"
    using W(1) in2(1) d by (simp add: disk_ok_def db')
  moreover have "version_rep tabs (w'\<lparr>script := []\<rparr>) ?v"
  proof (rule version_rep_dir)
    show "version_rep tabs (w\<lparr>script := []\<rparr>) ?v" using r by (simp add: db_rep_def)
    have "v_dbname ?v = ?name" using d by (simp add: disk_ok_def)
    then show "dir (w'\<lparr>script := []\<rparr>) (TableFileName (v_dbname ?v) m) = Some (tf_inode t)"
      if "dir (w\<lparr>script := []\<rparr>) (TableFileName (v_dbname ?v) m) = Some (tf_inode t)" for m t
      using that tab [of m] by simp
  qed simp
  moreover have "env_ok tabs (Some (db_block_cache db), w'\<lparr>script := []\<rparr>)" using r in1 by (auto simp: db_rep_def env_ok_def)
  moreover have "mems_rep db' [] ms" using r mt_rep_new by (auto simp: db_rep_def mems_rep_def db' split: option.splits)
  moreover have "entries_ok tabs db' [] ms" using r by (auto simp: db_rep_def entries_ok_def db' db_entries_def newer_first_def)
  ultimately show ?thesis by (auto simp: db_rep_def db' db_view_def db_entries_def fun_eq_iff)
qed

end
