(* ===== verification/Spec2Isabelle.thy ===== *)
theory Spec2Isabelle
  imports Status Slice_Format Coding Crc32 Filename Env Wal Bloom Block Block_Cache SSTable_Builder SSTable_Reader Table_Iterator Memtable Merging_Iterator DB_Iterator Version_Edit Version Version_Set Manifest Compaction DB_Impl DB_Spec
begin

text \<open>
  A verification development for the Strata storage engine.
\<close>

end
